(* ===== verification/Prelude.thy ===== *)
theory Prelude
  imports Main "HOL-Library.Word"
begin

text \<open>
  Shared vocabulary of the development: the machine integers of the Rust sources, byte
  strings, the big-endian conversions \<open>to_be_bytes\<close> / \<open>from_be_bytes\<close> of the standard
  library, slices, in-place copies into a buffer, and the values of operations that can
  fail or panic. A \<open>usize\<close> is a \<^typ>\<open>nat\<close> (the server is built for 64-bit targets,
  and every length the code computes is far below \<open>2^64\<close>); a \<open>u64\<close>, \<open>u32\<close>,
  \<open>u16\<close> or \<open>u8\<close> is a word of that width, with the wrap-around of a release build.
\<close>

type_synonym u8 = "8 word"
type_synonym u16 = "16 word"
type_synonym u32 = "32 word"
type_synonym u64 = "64 word"
type_synonym bytes = "u8 list"

text \<open>
  Collections: \<open>byte_simps\<close> computes with fixed-width fields and slices, \<open>layout_defs\<close>
  holds the definitions of encoders and decoders, \<open>inv_intros\<close> the preservation lemmas of
  the invariants.
\<close>

named_theorems byte_simps
named_theorems layout_defs
named_theorems inv_intros

subsection \<open>Failing and panicking operations\<close>

text \<open>
  An operation that returns \<open>Result\<close> is a value of a sum type, the error on the left. An
  operation that can also panic has \<open>fault\<close> on the left: either the \<open>Err\<close> value or the
  panic.
\<close>

datatype 'e fault = Err 'e | Panic

definition is_ok :: "'e + 'a \<Rightarrow> bool" where
  "is_ok r = (case r of Inl _ \<Rightarrow> False | Inr _ \<Rightarrow> True)"

lemma is_ok_simps [simp]: "is_ok (Inr a)" "\<not> is_ok (Inl e)"
  by (simp_all add: is_ok_def)

text \<open>
  The \<open>?\<close> operator: go on with the value, or return the error. What has been done to the
  outside world (\<open>'s\<close>) stays done.
\<close>

definition and_then ::
  "('e + 'a) \<times> 's \<Rightarrow> ('a \<Rightarrow> 's \<Rightarrow> ('e + 'b) \<times> 's) \<Rightarrow> ('e + 'b) \<times> 's" where
  "and_then r f = (case r of (Inl e, s) \<Rightarrow> (Inl e, s) | (Inr a, s) \<Rightarrow> f a s)"

definition map_err :: "('e \<Rightarrow> 'f) \<Rightarrow> ('e + 'a) \<times> 's \<Rightarrow> ('f + 'a) \<times> 's" where
  "map_err g r = (case r of (Inl e, s) \<Rightarrow> (Inl (g e), s) | (Inr a, s) \<Rightarrow> (Inr a, s))"

lemma and_then_simps [simp]:
  "and_then (Inl e, s) f = (Inl e, s)" "and_then (Inr a, s) f = f a s"
  by (simp_all add: and_then_def)

lemma map_err_simps [simp]:
  "map_err g (Inl e, s) = (Inl (g e), s)" "map_err g (Inr a, s) = (Inr a, s)"
  by (simp_all add: map_err_def)

lemma and_then_Inr:
  "and_then r f = (Inr b, s) \<longleftrightarrow> (\<exists>a t. r = (Inr a, t) \<and> f a t = (Inr b, s))"
  by (auto simp: and_then_def split: prod.splits sum.splits)

lemma map_err_Inr: "map_err g r = (Inr a, s) \<longleftrightarrow> r = (Inr a, s)"
  by (auto simp: map_err_def split: prod.splits sum.splits)

lemma snd_map_err [simp]: "snd (map_err g r) = snd r"
  by (auto simp: map_err_def split: prod.splits sum.splits)

text \<open>A call on one half of the state, beside a half it leaves alone.\<close>

definition beside :: "'w \<Rightarrow> ('e + 'a) \<times> 'd \<Rightarrow> ('e + 'a) \<times> 'w \<times> 'd" where
  "beside w r = (fst r, w, snd r)"

lemma beside_simps [simp]: "beside w (r, d) = (r, w, d)"
  by (simp add: beside_def)

lemma beside_Inr: "beside w r = (Inr a, wd) \<longleftrightarrow> (\<exists>d. r = (Inr a, d) \<and> wd = (w, d))"
  by (cases r) (auto simp: beside_def)

lemmas result_iffs = and_then_Inr map_err_Inr beside_Inr

subsection \<open>Big-endian integers\<close>

primrec be_bytes :: "nat \<Rightarrow> nat \<Rightarrow> bytes" where
  "be_bytes 0 n = []"
| "be_bytes (Suc k) n = word_of_nat (n div 256 ^ k) # be_bytes k n"

primrec be_nat :: "bytes \<Rightarrow> nat" where
  "be_nat [] = 0"
| "be_nat (b # bs) = unat b * 256 ^ length bs + be_nat bs"

lemma be_bytes_numeral:
  "be_bytes (numeral k) n = word_of_nat (n div 256 ^ pred_numeral k) # be_bytes (pred_numeral k) n"
  by (simp add: numeral_eq_Suc)

lemma length_be_bytes [simp]: "length (be_bytes k n) = k"
  by (induction k) simp_all

lemma unat_less_power: "unat (w :: 'a::len word) < 2 ^ LENGTH('a)"
  by simp

lemma unat_u8_of_nat: "unat (word_of_nat n :: u8) = n mod 256"
  by (simp add: unat_of_nat)

lemma be_nat_be_bytes: "be_nat (be_bytes k n) = n mod 256 ^ k"
proof (induction k)
  case (Suc k)
  have "n mod (256 ^ k * 256) = 256 ^ k * (n div 256 ^ k mod 256) + n mod 256 ^ k"
    by (rule mod_mult2_eq)
  then show ?case
    using Suc by (simp add: unat_u8_of_nat mult.commute)
qed simp

lemma be_nat_less: "be_nat bs < 256 ^ length bs"
proof (induction bs)
  case (Cons b bs)
  have "unat b < 256" using unsigned_less [of b] by simp
  then have "unat b + 1 \<le> 256" by simp
  then have "(unat b + 1) * 256 ^ length bs \<le> 256 * 256 ^ length bs"
    by (rule mult_le_mono1)
  then have "unat b * 256 ^ length bs + 256 ^ length bs \<le> 256 * 256 ^ length bs"
    by (simp only: add_mult_distrib mult_1)
  with Cons have "unat b * 256 ^ length bs + be_nat bs < 256 * 256 ^ length bs"
    by linarith
  then show ?case by simp
qed simp

lemma word_of_nat_u8_eq: "m mod 256 = n mod 256 \<Longrightarrow> (word_of_nat m :: u8) = word_of_nat n"
  by (rule word_unat_eq_iff [THEN iffD2]) (simp add: unat_u8_of_nat)

lemma be_bytes_add: "k \<le> j \<Longrightarrow> be_bytes k (a * 256 ^ j + n) = be_bytes k n"
proof (induction k)
  case (Suc k)
  then obtain d where "j = Suc k + d" using le_Suc_ex by blast
  then have "a * 256 ^ j = 256 ^ k * (a * 256 ^ d * 256)"
    by (simp add: power_add)
  then have "(a * 256 ^ j + n) div 256 ^ k = a * 256 ^ d * 256 + n div 256 ^ k"
    by (simp only: div_mult_self4 power_not_zero zero_neq_numeral not_False_eq_True)
  then have "(word_of_nat ((a * 256 ^ j + n) div 256 ^ k) :: u8) = word_of_nat (n div 256 ^ k)"
    by (intro word_of_nat_u8_eq) simp
  with Suc show ?case by simp
qed simp

lemma be_bytes_be_nat: "be_bytes (length bs) (be_nat bs) = bs"
proof (induction bs)
  case (Cons b bs)
  have "(unat b * 256 ^ length bs + be_nat bs) div 256 ^ length bs = unat b"
    using be_nat_less [of bs] by simp
  with Cons show ?case by (simp add: be_bytes_add)
qed simp

definition be16 :: "u16 \<Rightarrow> bytes" where "be16 w = be_bytes 2 (unat w)"
definition be32 :: "u32 \<Rightarrow> bytes" where "be32 w = be_bytes 4 (unat w)"
definition be64 :: "u64 \<Rightarrow> bytes" where "be64 w = be_bytes 8 (unat w)"
definition of_be16 :: "bytes \<Rightarrow> u16" where "of_be16 bs = word_of_nat (be_nat bs)"
definition of_be32 :: "bytes \<Rightarrow> u32" where "of_be32 bs = word_of_nat (be_nat bs)"
definition of_be64 :: "bytes \<Rightarrow> u64" where "of_be64 bs = word_of_nat (be_nat bs)"

lemma length_be [simp]: "length (be16 a) = 2" "length (be32 b) = 4" "length (be64 c) = 8"
  by (simp_all add: be16_def be32_def be64_def)

lemma be_not_Nil [simp]: "be16 a \<noteq> []" "be32 b \<noteq> []" "be64 c \<noteq> []"
  by (metis length_be list.size(3) zero_neq_numeral)+

lemma of_be_be [simp, byte_simps]:
  "of_be16 (be16 a) = a" "of_be32 (be32 b) = b" "of_be64 (be64 c) = c"
proof -
  have "unat a mod 65536 = unat a" "unat b mod 4294967296 = unat b"
    "unat c mod 18446744073709551616 = unat c"
    using unat_less_power [of a] unat_less_power [of b] unat_less_power [of c] by simp_all
  then show "of_be16 (be16 a) = a" "of_be32 (be32 b) = b" "of_be64 (be64 c) = c"
    by (simp_all add: be16_def be32_def be64_def of_be16_def of_be32_def of_be64_def
        be_nat_be_bytes)
qed

lemma be_of_be16: "length bs = 2 \<Longrightarrow> be16 (of_be16 bs) = bs"
  using be_nat_less [of bs] be_bytes_be_nat [of bs]
  by (simp add: be16_def of_be16_def unat_of_nat)

lemma be_of_be32: "length bs = 4 \<Longrightarrow> be32 (of_be32 bs) = bs"
  using be_nat_less [of bs] be_bytes_be_nat [of bs]
  by (simp add: be32_def of_be32_def unat_of_nat)

lemma be_of_be64: "length bs = 8 \<Longrightarrow> be64 (of_be64 bs) = bs"
  using be_nat_less [of bs] be_bytes_be_nat [of bs]
  by (simp add: be64_def of_be64_def unat_of_nat)

text \<open>\<open>len as u32\<close> and back to \<open>usize\<close>.\<close>

lemma unat_u64_of_nat: "n < 2 ^ 64 \<Longrightarrow> unat (of_nat n :: u64) = n"
  by (simp add: unat_of_nat)

lemma unat_u32_of_nat [simp]: "n < 2 ^ 32 \<Longrightarrow> unat (word_of_nat n :: u32) = n"
  by (simp add: unat_of_nat)

lemma u32_of_unat [simp]: "(word_of_nat (unat w) :: u32) = w"
  by simp

lemmas be_of_be = be_of_be16 be_of_be32 be_of_be64

subsection \<open>Slices and in-place copies\<close>

text \<open>
  \<open>subslice buf a b\<close> is \<open>&buf[a..b]\<close>, used where the code has checked \<open>b \<le> buf.len()\<close>;
  \<open>copy_at buf a src\<close> is \<open>buf[a..a + src.len()].copy_from_slice(src)\<close>.
\<close>

definition subslice :: "'a list \<Rightarrow> nat \<Rightarrow> nat \<Rightarrow> 'a list" where
  "subslice buf a b = take (b - a) (drop a buf)"

definition copy_at :: "'a list \<Rightarrow> nat \<Rightarrow> 'a list \<Rightarrow> 'a list" where
  "copy_at buf a src = take a buf @ src @ drop (a + length src) buf"

lemma length_subslice [simp]: "length (subslice buf a b) = min (b - a) (length buf - a)"
  by (simp add: subslice_def)

lemma length_copy_at: "a + length src \<le> length buf \<Longrightarrow> length (copy_at buf a src) = length buf"
  by (simp add: copy_at_def)

lemma subslice_append_left:
  "b \<le> length xs \<Longrightarrow> subslice (xs @ ys) a b = subslice xs a b"
  by (simp add: subslice_def)

lemma subslice_append_right:
  "length xs \<le> a \<Longrightarrow> subslice (xs @ ys) a b = subslice ys (a - length xs) (b - length xs)"
  by (simp add: subslice_def)

lemma subslice_whole: "b = length xs \<Longrightarrow> subslice xs 0 b = xs"
  by (simp add: subslice_def)

lemma subslice_split: "a \<le> b \<Longrightarrow> b \<le> c \<Longrightarrow> subslice buf a c = subslice buf a b @ subslice buf b c"
proof -
  assume ab: "a \<le> b" and bc: "b \<le> c"
  then have "c - a = (b - a) + (c - b)" by simp
  then have "subslice buf a c = take (b - a) (drop a buf) @ take (c - b) (drop (b - a) (drop a buf))"
    unfolding subslice_def by (simp only: take_add)
  with ab show ?thesis by (simp add: subslice_def)
qed

lemma subslice_0 [simp]: "subslice buf 0 n = take n buf"
  by (simp add: subslice_def)

lemma subslice_Cons: "0 < a \<Longrightarrow> subslice (x # xs) a b = subslice xs (a - 1) (b - 1)"
  by (cases a; cases b) (simp_all add: subslice_def)

lemma nth_subslice_singleton: "a < length buf \<Longrightarrow> subslice buf a (Suc a) = [buf ! a]"
  by (simp add: subslice_def take_Suc hd_drop_conv_nth)

lemma subslice_take: "b \<le> n \<Longrightarrow> subslice (take n buf) a b = subslice buf a b"
proof -
  assume "b \<le> n"
  then have "min (b - a) (n - a) = b - a" by linarith
  then show ?thesis unfolding subslice_def drop_take take_take by simp
qed

lemma copy_at_0: "copy_at buf 0 src = src @ drop (length src) buf"
  by (simp add: copy_at_def)

lemma copy_at_append: "length xs \<le> a \<Longrightarrow> copy_at (xs @ ys) a src = xs @ copy_at ys (a - length xs) src"
  by (simp add: copy_at_def)

lemmas [byte_simps] = subslice_append_left subslice_append_right subslice_whole
  subslice_Cons nth_append

end
