(* ===== verification/Containers.thy ===== *)
theory Containers
  imports Prelude
begin

text \<open>
  The two map types of the Rust standard library that the server uses. A \<open>HashMap\<close> is an
  association list with distinct keys: the list order stands for the (unspecified) iteration
  order, so a statement about every well-formed list is a statement about every iteration
  order. A \<open>BTreeMap\<close> is an association list with strictly increasing keys. The locale
  \<open>kv_map\<close> is the contract that the clients of both rely on.
\<close>

subsection \<open>The contract of a key-value map\<close>

locale kv_map =
  fixes get :: "'m \<Rightarrow> 'k \<Rightarrow> 'v option"
    and put :: "'k \<Rightarrow> 'v \<Rightarrow> 'm \<Rightarrow> 'm"
    and keys :: "'m \<Rightarrow> 'k list"
    and ok :: "'m \<Rightarrow> bool"
  assumes get_put: "ok m \<Longrightarrow> get (put k v m) j = (if j = k then Some v else get m j)"
    and ok_put: "ok m \<Longrightarrow> ok (put k v m)"
    and keys_get: "ok m \<Longrightarrow> k \<in> set (keys m) \<longleftrightarrow> get m k \<noteq> None"
    and distinct_keys: "ok m \<Longrightarrow> distinct (keys m)"
begin

lemma get_put_same: "ok m \<Longrightarrow> get (put k v m) k = Some v"
  by (simp add: get_put)

lemma get_put_other: "ok m \<Longrightarrow> j \<noteq> k \<Longrightarrow> get (put k v m) j = get m j"
  by (simp add: get_put)

lemma set_keys_put: "ok m \<Longrightarrow> set (keys (put k v m)) = insert k (set (keys m))"
  by (auto simp: keys_get ok_put get_put split: if_splits)

lemma count_keys_put:
  assumes "ok m"
  shows "length (keys (put k v m)) = length (keys m) + (if get m k = None then 1 else 0)"
proof -
  have "length (keys (put k v m)) = card (insert k (set (keys m)))"
    using distinct_card [OF distinct_keys [OF ok_put [OF assms]]] set_keys_put [OF assms]
    by metis
  also have "\<dots> = card (set (keys m)) + (if get m k = None then 1 else 0)"
    using keys_get [OF assms, of k] by (auto simp: card_insert_if)
  finally show ?thesis using distinct_card [OF distinct_keys [OF assms]] by simp
qed

text \<open>An invariant of every stored value survives an insertion that respects it.\<close>

lemma all_put:
  assumes "ok m" and "\<And>j w. get m j = Some w \<Longrightarrow> P j w" and "P k v"
    and "get (put k v m) j = Some w"
  shows "P j w"
  using assms by (auto simp: get_put split: if_splits)

text \<open>Inserting a list of bindings one after the other: the last binding of a key wins.\<close>

lemma ok_fold_put: "ok m \<Longrightarrow> ok (fold (\<lambda>(k, v). put k v) kvs m)"
  by (induction kvs arbitrary: m) (auto simp: ok_put)

lemma get_fold_put:
  "ok m \<Longrightarrow> get (fold (\<lambda>(k, v). put k v) kvs m) j =
     (case map_of (rev kvs) j of Some v \<Rightarrow> Some v | None \<Rightarrow> get m j)"
proof (induction kvs arbitrary: m)
  case (Cons kv kvs)
  obtain k v where kv: "kv = (k, v)" by (cases kv)
  show ?case
    using Cons.IH [OF ok_put [OF Cons.prems]] Cons.prems kv
    by (auto simp: get_put map_add_def split: option.splits)
qed simp

end

locale kv_map_del = kv_map +
  fixes del :: "'k \<Rightarrow> 'm \<Rightarrow> 'm"
  assumes get_del: "ok m \<Longrightarrow> get (del k m) j = (if j = k then None else get m j)"
    and ok_del: "ok m \<Longrightarrow> ok (del k m)"
begin

lemma del_put_cancel: "ok m \<Longrightarrow> get m k = None \<Longrightarrow> get (del k (put k v m)) j = get m j"
  by (simp add: get_del get_put ok_put)

lemma set_keys_del: "ok m \<Longrightarrow> set (keys (del k m)) = set (keys m) - {k}"
  by (auto simp: keys_get ok_del get_del split: if_splits)

end

subsection \<open>HashMap\<close>

type_synonym ('k, 'v) hash_map = "('k \<times> 'v) list"

definition hm_ok :: "('k, 'v) hash_map \<Rightarrow> bool" where
  "hm_ok m = distinct (map fst m)"

definition hm_get :: "('k, 'v) hash_map \<Rightarrow> 'k \<Rightarrow> 'v option" where
  "hm_get m k = map_of m k"

primrec hm_insert :: "'k \<Rightarrow> 'v \<Rightarrow> ('k, 'v) hash_map \<Rightarrow> ('k, 'v) hash_map" where
  "hm_insert k v [] = [(k, v)]"
| "hm_insert k v (e # m) = (if fst e = k then (k, v) # m else e # hm_insert k v m)"

definition hm_remove :: "'k \<Rightarrow> ('k, 'v) hash_map \<Rightarrow> ('k, 'v) hash_map" where
  "hm_remove k m = filter (\<lambda>e. fst e \<noteq> k) m"

definition hm_keys :: "('k, 'v) hash_map \<Rightarrow> 'k list" where
  "hm_keys m = map fst m"

definition hm_values :: "('k, 'v) hash_map \<Rightarrow> 'v list" where
  "hm_values m = map snd m"

lemma hm_ok_Nil [simp]: "hm_ok []" and hm_get_Nil [simp]: "hm_get [] k = None"
  by (simp_all add: hm_ok_def hm_get_def)

lemma fst_set_hm_insert: "fst ` set (hm_insert k v m) = insert k (fst ` set m)"
  by (induction m) auto

lemma hm_insert_spec:
  "map_of (hm_insert k v m) = (map_of m)(k \<mapsto> v)"
  "distinct (map fst m) \<Longrightarrow> distinct (map fst (hm_insert k v m))"
  by (induction m) (auto simp: fst_set_hm_insert simp flip: fun_upd_twist)

lemma hm_remove_spec:
  "map_of (hm_remove k m) j = (if j = k then None else map_of m j)"
  "distinct (map fst m) \<Longrightarrow> distinct (map fst (hm_remove k m))"
  by (induction m) (auto simp: hm_remove_def)

interpretation hash: kv_map_del hm_get hm_insert hm_keys hm_ok hm_remove
  by unfold_locales
    (auto simp: hm_get_def hm_ok_def hm_keys_def hm_insert_spec hm_remove_spec
      map_of_eq_None_iff)

lemma hm_get_in_set: "hm_ok m \<Longrightarrow> hm_get m k = Some v \<longleftrightarrow> (k, v) \<in> set m"
  by (simp add: hm_ok_def hm_get_def)

lemma hm_values_iff: "hm_ok m \<Longrightarrow> v \<in> set (hm_values m) \<longleftrightarrow> (\<exists>k. hm_get m k = Some v)"
  by (force simp: hm_values_def hm_get_in_set)

declare hash.ok_put [simp, inv_intros] hash.ok_del [simp, inv_intros]
  hash.get_put [simp] hash.get_del [simp]

subsection \<open>BTreeMap\<close>

type_synonym ('k, 'v) btree_map = "('k \<times> 'v) list"

definition bt_ok :: "('k::linorder, 'v) btree_map \<Rightarrow> bool" where
  "bt_ok m = sorted_wrt (<) (map fst m)"

definition bt_get :: "('k, 'v) btree_map \<Rightarrow> 'k \<Rightarrow> 'v option" where
  "bt_get m k = map_of m k"

primrec bt_insert :: "'k::linorder \<Rightarrow> 'v \<Rightarrow> ('k, 'v) btree_map \<Rightarrow> ('k, 'v) btree_map" where
  "bt_insert k v [] = [(k, v)]"
| "bt_insert k v (e # m) =
     (if fst e < k then e # bt_insert k v m
      else if fst e = k then (k, v) # m
      else (k, v) # e # m)"

definition bt_keys :: "('k, 'v) btree_map \<Rightarrow> 'k list" where
  "bt_keys m = map fst m"

text \<open>\<open>split_off(k)\<close>: the entries below \<open>k\<close> stay, those from \<open>k\<close> on are returned.\<close>

definition bt_split_off ::
  "'k::linorder \<Rightarrow> ('k, 'v) btree_map \<Rightarrow> ('k, 'v) btree_map \<times> ('k, 'v) btree_map" where
  "bt_split_off k m = (takeWhile (\<lambda>e. fst e < k) m, dropWhile (\<lambda>e. fst e < k) m)"

lemma bt_ok_Nil [simp]: "bt_ok []" and bt_get_Nil [simp]: "bt_get [] k = None"
  by (simp_all add: bt_ok_def bt_get_def)

lemma bt_ok_distinct: "bt_ok m \<Longrightarrow> distinct (map fst m)"
  unfolding bt_ok_def by (simp add: strict_sorted_iff)

lemma fst_set_bt_insert: "fst ` set (bt_insert k v m) = insert k (fst ` set m)"
  by (induction m) auto

lemma bt_insert_sorted: "bt_ok m \<Longrightarrow> bt_ok (bt_insert k v m)"
proof (induction m)
  case (Cons e m)
  have "\<forall>x \<in> fst ` set (bt_insert k v m). fst e < x" if "fst e < k"
    using Cons.prems that by (simp add: fst_set_bt_insert bt_ok_def)
  with Cons show ?case by (auto simp: bt_ok_def intro: less_trans)
qed (simp add: bt_ok_def)

lemma bt_get_insert:
  "bt_ok m \<Longrightarrow> bt_get (bt_insert k v m) j = (if j = k then Some v else bt_get m j)"
  by (induction m) (auto simp: bt_get_def bt_ok_def)

interpretation btree: kv_map bt_get bt_insert bt_keys bt_ok
proof unfold_locales
  fix m :: "('a::linorder, 'b) btree_map" and k :: 'a
  show "(k \<in> set (bt_keys m)) = (bt_get m k \<noteq> None)"
    by (simp add: bt_keys_def bt_get_def map_of_eq_None_iff)
qed (simp_all add: bt_get_insert bt_insert_sorted bt_keys_def bt_ok_distinct)

lemma bt_split_off_spec:
  assumes "bt_ok m"
  shows "bt_ok (snd (bt_split_off k m))"
    and "bt_get (snd (bt_split_off k m)) j = (if j < k then None else bt_get m j)"
  using assms
proof (induction m)
  case (Cons e m)
  { case 1
    with Cons show ?case by (simp add: bt_split_off_def bt_ok_def)
  next
    case 2
    then have sorted: "bt_ok m" "\<forall>x \<in> set m. fst e < fst x" by (auto simp: bt_ok_def)
    show ?case
    proof (cases "fst e < k")
      case True
      with Cons.IH(2) [OF sorted(1)] show ?thesis
        by (cases e) (auto simp: bt_split_off_def bt_get_def)
    next
      case False
      with sorted(2) have "map_of m j = None" if "j < k"
        using that by (auto simp: map_of_eq_None_iff)
      with False show ?thesis by (cases e) (auto simp: bt_split_off_def bt_get_def)
    qed
  }
qed (simp_all add: bt_split_off_def)

declare btree.ok_put [simp, inv_intros] bt_get_insert [simp] bt_split_off_spec [simp]

end
