(* ===== verification/Framing.thy ===== *)
theory Framing
  imports Prelude
begin

text \<open>
  Reading frames from a byte stream that arrives in arbitrary chunks. Both network loops of
  the server have this shape (\<open>handle_connection\<close> in \<open>net/acceptor.rs\<close>,
  \<open>handle_inbound\<close> in \<open>net/peer.rs\<close>): append what was read to \<open>parse_buf\<close>, then decode
  frames from its front until the decoder asks for more bytes or fails. The locale
  \<open>frame_codec\<close> is the contract between an encoder and a decoder under which that loop
  delivers exactly the messages that were sent; \<open>record_format\<close> is its weaker form for
  the records of a log file.
\<close>

subsection \<open>The loops\<close>

text \<open>How one pass over the buffer ends: the decoder needs more bytes (the loop's
  \<open>break\<close>), it failed, or the handler returned from the connection.\<close>

datatype 'e drain_end = NeedMore | Malformed 'e | Aborted

text \<open>The handler returns the next state and whether the loop goes on.\<close>

partial_function (option) drain_frames ::
  "(bytes \<Rightarrow> 'e + ('m \<times> nat) option) \<Rightarrow> ('m \<Rightarrow> 's \<Rightarrow> 's \<times> bool) \<Rightarrow> bytes \<Rightarrow> 's \<Rightarrow>
   (bytes \<times> 's \<times> 'e drain_end) option" where
  "drain_frames dec h buf s =
     (case dec buf of
        Inl e \<Rightarrow> Some (buf, s, Malformed e)
      | Inr None \<Rightarrow> Some (buf, s, NeedMore)
      | Inr (Some (m, consumed)) \<Rightarrow>
          (case h m s of (s', go_on) \<Rightarrow>
             if go_on then drain_frames dec h (drop consumed buf) s'
             else Some (buf, s', Aborted)))"

text \<open>The outer loop over the chunks that the socket delivers.\<close>

fun feed_chunks ::
  "(bytes \<Rightarrow> 'e + ('m \<times> nat) option) \<Rightarrow> ('m \<Rightarrow> 's \<Rightarrow> 's \<times> bool) \<Rightarrow> bytes \<Rightarrow> 's \<Rightarrow>
   bytes list \<Rightarrow> (bytes \<times> 's \<times> 'e drain_end) option" where
  "feed_chunks dec h buf s [] = Some (buf, s, NeedMore)"
| "feed_chunks dec h buf s (c # cs) =
     (case drain_frames dec h (buf @ c) s of
        Some (buf', s', NeedMore) \<Rightarrow> feed_chunks dec h buf' s' cs
      | r \<Rightarrow> r)"

text \<open>The reference: handle a list of messages in order.\<close>

primrec handle_all :: "('m \<Rightarrow> 's \<Rightarrow> 's \<times> bool) \<Rightarrow> 'm list \<Rightarrow> 's \<Rightarrow> 's" where
  "handle_all h [] s = s"
| "handle_all h (m # ms) s = handle_all h ms (fst (h m s))"

lemma handle_all_append: "handle_all h (ms @ ns) s = handle_all h ns (handle_all h ms s)"
  by (induction ms arbitrary: s) simp_all

text \<open>The handler keeps the connection open for all of them, from this state or from any.\<close>

primrec stays_open_from :: "('m \<Rightarrow> 's \<Rightarrow> 's \<times> bool) \<Rightarrow> 'm list \<Rightarrow> 's \<Rightarrow> bool" where
  "stays_open_from h [] s = True"
| "stays_open_from h (m # ms) s = (snd (h m s) \<and> stays_open_from h ms (fst (h m s)))"

lemma stays_open_from_append:
  "stays_open_from h (ms @ ns) s \<longleftrightarrow> stays_open_from h ms s \<and> stays_open_from h ns (handle_all h ms s)"
  by (induction ms arbitrary: s) auto

definition stays_open :: "('m \<Rightarrow> 's \<Rightarrow> 's \<times> bool) \<Rightarrow> 'm list \<Rightarrow> bool" where
  "stays_open h ms = (\<forall>m \<in> set ms. \<forall>s. snd (h m s))"

lemma stays_open_any: "stays_open h ms \<Longrightarrow> stays_open_from h ms s"
  by (induction ms arbitrary: s) (auto simp: stays_open_def)

subsection \<open>Records one after the other\<close>

locale record_format =
  fixes enc :: "'m \<Rightarrow> bytes"
    and dec :: "bytes \<Rightarrow> ('m \<times> nat) option"
    and ok :: "'m \<Rightarrow> bool"
  assumes dec_enc: "ok m \<Longrightarrow> dec (enc m @ rest) = Some (m, length (enc m))"
    and enc_nonempty: "ok m \<Longrightarrow> enc m \<noteq> []"
begin

lemma enc_pos: "ok m \<Longrightarrow> 0 < length (enc m)"
  using enc_nonempty by simp

lemma enc_inject_prefix: "ok m \<Longrightarrow> ok n \<Longrightarrow> enc m @ xs = enc n @ ys \<Longrightarrow> m = n \<and> xs = ys"
  using dec_enc [of m xs] dec_enc [of n ys] by auto

lemma enc_concat_inject:
  "list_all ok ms \<Longrightarrow> list_all ok ns \<Longrightarrow> concat (map enc ms) = concat (map enc ns) \<Longrightarrow> ms = ns"
proof (induction ms arbitrary: ns)
  case Nil
  then show ?case by (cases ns) (auto dest: enc_nonempty)
next
  case (Cons m ms)
  then obtain n ns' where ns: "ns = n # ns'" by (cases ns) (auto dest: enc_nonempty)
  with Cons.prems have "m = n \<and> concat (map enc ms) = concat (map enc ns')"
    by (intro enc_inject_prefix) auto
  with Cons ns show ?case by auto
qed

end

subsection \<open>Frames in a stream\<close>

locale frame_codec =
  fixes enc :: "'m \<Rightarrow> bytes"
    and dec :: "bytes \<Rightarrow> 'e + ('m \<times> nat) option"
    and ok :: "'m \<Rightarrow> bool"
  assumes frame_enc: "ok m \<Longrightarrow> dec (enc m @ rest) = Inr (Some (m, length (enc m)))"
    and frame_prefix: "ok m \<Longrightarrow> k < length (enc m) \<Longrightarrow> dec (take k (enc m)) = Inr None"
    and frame_nil: "dec [] = Inr None"
    and frame_progress: "dec buf = Inr (Some (m, n)) \<Longrightarrow> 0 < n \<and> n \<le> length buf"

sublocale frame_codec \<subseteq> frames: record_format
  enc "\<lambda>buf. case dec buf of Inr r \<Rightarrow> r | Inl _ \<Rightarrow> None" ok
proof unfold_locales
  fix m assume "ok m"
  then show "enc m \<noteq> []" using frame_enc [of m "[]"] frame_nil by auto
qed (simp add: frame_enc)

context frame_codec begin

definition partial_frame :: "bytes \<Rightarrow> bool" where
  "partial_frame p = (p = [] \<or> (\<exists>m k. ok m \<and> k < length (enc m) \<and> p = take k (enc m)))"

lemma partial_frame_waits: "partial_frame p \<Longrightarrow> dec p = Inr None"
  by (auto simp: partial_frame_def frame_nil frame_prefix)

lemma partial_frame_Nil: "partial_frame []"
  by (simp add: partial_frame_def)

lemma drain_total: "drain_frames dec h buf s \<noteq> None"
proof (induction "length buf" arbitrary: buf s rule: less_induct)
  case less
  show ?case
  proof (cases "dec buf")
    case (Inr r)
    show ?thesis
    proof (cases r)
      case (Some mn)
      obtain m n where mn: "mn = (m, n)" by (cases mn)
      have "length (drop n buf) < length buf"
        using frame_progress [of buf m n] Inr Some mn by auto
      with less have "drain_frames dec h (drop n buf) (fst (h m s)) \<noteq> None"
        by blast
      with Inr Some mn show ?thesis
        by (cases "h m s") (simp add: drain_frames.simps [of dec h buf])
    qed (use Inr in \<open>simp add: drain_frames.simps\<close>)
  qed (simp add: drain_frames.simps)
qed

lemma feed_total: "feed_chunks dec h buf s cs \<noteq> None"
proof (induction cs arbitrary: buf s)
  case (Cons c cs)
  obtain buf' s' e where "drain_frames dec h (buf @ c) s = Some (buf', s', e)"
    using drain_total by (metis option.exhaust prod_cases3)
  with Cons.IH show ?case by (simp split: drain_end.split)
qed simp

lemma drain_one:
  "ok m \<Longrightarrow> snd (h m s) \<Longrightarrow>
   drain_frames dec h (enc m @ rest) s = drain_frames dec h rest (fst (h m s))"
  by (subst drain_frames.simps, cases "h m s") (simp add: frame_enc)

lemma drain_all:
  "list_all ok ms \<Longrightarrow> stays_open_from h ms s \<Longrightarrow> partial_frame p \<Longrightarrow>
   drain_frames dec h (concat (map enc ms) @ p) s = Some (p, handle_all h ms s, NeedMore)"
proof (induction ms arbitrary: s)
  case Nil
  then show ?case by (subst drain_frames.simps) (simp add: partial_frame_waits)
next
  case (Cons m ms)
  then show ?case by (simp add: drain_one)
qed

text \<open>Any front part of a stream of frames is a number of whole frames and a partial one.\<close>

lemma front_of_frames:
  "list_all ok ms \<Longrightarrow> partial_frame p \<Longrightarrow> q @ rest = concat (map enc ms) @ p \<Longrightarrow>
   \<exists>ms1 ms2 q'. ms = ms1 @ ms2 \<and> q = concat (map enc ms1) @ q' \<and> partial_frame q' \<and>
     q' @ rest = concat (map enc ms2) @ p"
proof (induction ms arbitrary: q)
  case Nil
  then have eq: "q @ rest = p" by simp
  have "partial_frame q"
  proof (cases "p = []")
    case False
    with Nil.prems(2) obtain m k where mk: "ok m" "k < length (enc m)" "p = take k (enc m)"
      by (auto simp: partial_frame_def)
    have "q = take (length q) p" using eq by (metis append_eq_conv_conj)
    with mk have "q = take (min (length q) k) (enc m)" by (metis take_take)
    with mk show ?thesis
      unfolding partial_frame_def by (metis min.strict_coboundedI2)
  qed (use eq in \<open>simp add: partial_frame_def\<close>)
  with eq show ?case by auto
next
  case (Cons m ms)
  from Cons.prems have okm: "ok m" and okms: "list_all ok ms" by simp_all
  show ?case
  proof (cases "length (enc m) \<le> length q")
    case True
    have "take (length (enc m)) (q @ rest) = enc m" using Cons.prems(3) by simp
    with True have "take (length (enc m)) q = enc m" by simp
    then obtain q1 where q: "q = enc m @ q1" by (metis append_take_drop_id)
    with Cons.prems(3) have "q1 @ rest = concat (map enc ms) @ p" by simp
    from Cons.IH [OF okms Cons.prems(2) this] obtain ms1 ms2 q' where
      "ms = ms1 @ ms2" "q1 = concat (map enc ms1) @ q'" "partial_frame q'"
      "q' @ rest = concat (map enc ms2) @ p" by blast
    with q show ?thesis by (intro exI [of _ "m # ms1"] exI [of _ ms2] exI [of _ q']) simp
  next
    case False
    with Cons.prems(3) have "q = take (length q) (enc m)"
      by (metis append_eq_append_conv_if concat.simps(2) append_assoc linorder_not_le
          less_imp_le list.simps(9))
    with False okm have "partial_frame q" unfolding partial_frame_def by (metis not_le)
    with Cons.prems(3) show ?thesis
      by (intro exI [of _ "[]"] exI [of _ "m # ms"] exI [of _ q]) simp
  qed
qed

lemma feed_partial:
  "list_all ok ms \<Longrightarrow> stays_open_from h ms s \<Longrightarrow> partial_frame p \<Longrightarrow> partial_frame buf \<Longrightarrow>
   buf @ concat cs = concat (map enc ms) @ p \<Longrightarrow>
   feed_chunks dec h buf s cs = Some (p, handle_all h ms s, NeedMore)"
proof (induction cs arbitrary: buf ms s)
  case Nil
  have "drain_frames dec h buf s = Some (buf, s, NeedMore)"
    using drain_all [where ms = "[]" and h = h and p = buf and s = s] Nil.prems(4) by simp
  moreover have "drain_frames dec h buf s = Some (p, handle_all h ms s, NeedMore)"
    using drain_all [OF Nil.prems(1-3)] Nil.prems(5) by simp
  ultimately show ?case by simp
next
  case (Cons c cs)
  from Cons.prems(5) have "(buf @ c) @ concat cs = concat (map enc ms) @ p" by simp
  from front_of_frames [OF Cons.prems(1,3) this] obtain ms1 ms2 q where
    ms: "ms = ms1 @ ms2" and bc: "buf @ c = concat (map enc ms1) @ q"
    and q: "partial_frame q" and rest: "q @ concat cs = concat (map enc ms2) @ p"
    by blast
  from Cons.prems(1,2) ms have
    "list_all ok ms1" "list_all ok ms2" "stays_open_from h ms1 s"
    "stays_open_from h ms2 (handle_all h ms1 s)"
    by (auto simp: stays_open_from_append)
  then have "drain_frames dec h (buf @ c) s = Some (q, handle_all h ms1 s, NeedMore)"
    and "feed_chunks dec h q (handle_all h ms1 s) cs =
      Some (p, handle_all h ms2 (handle_all h ms1 s), NeedMore)"
    using drain_all [OF _ _ q] Cons.IH [OF _ _ Cons.prems(3) q rest] bc by auto
  then show ?case by (simp add: ms handle_all_append)
qed

text \<open>The stream theorem: however the bytes of a list of frames are cut into chunks, the
  loop handles exactly these messages, in order, and leaves an empty buffer.\<close>

lemma feed_all_from:
  assumes "list_all ok ms" and "stays_open_from h ms s" and "concat cs = concat (map enc ms)"
  shows "feed_chunks dec h [] s cs = Some ([], handle_all h ms s, NeedMore)"
  using feed_partial [OF assms(1,2) partial_frame_Nil partial_frame_Nil, of cs] assms(3)
  by simp

lemma feed_all:
  assumes "list_all ok ms" and "stays_open h ms" and "concat cs = concat (map enc ms)"
  shows "feed_chunks dec h [] s cs = Some ([], handle_all h ms s, NeedMore)"
  using assms stays_open_any by (intro feed_all_from) auto

end

end
