(* ===== verification/Config.thy ===== *)
theory Config
  imports Prelude
begin

text \<open>
  The server's configuration (\<open>config.rs\<close>) and the command line that overrides it
  (\<open>main.rs\<close>). A \<open>usize\<close> is a natural number, a path or an address a string. Reading and
  parsing the TOML file is third-party code: what \<open>load\<close> returns is an argument of
  \<open>effective_config\<close>, \<open>None\<close> for a file that is not there.
\<close>

record peer_config =
  peer_id :: u64
  peer_addr :: string

record server_config =
  cfg_node_id :: u64
  cfg_listen_addr :: string
  cfg_raft_listen_addr :: string
  cfg_data_dir :: string
  cfg_num_shards :: "nat option"
  cfg_segment_max_bytes :: u64
  cfg_group_commit_interval_us :: u64
  cfg_group_commit_max_batch :: nat
  cfg_channel_capacity :: nat
  cfg_tail_cache_entries :: nat
  cfg_gc_interval_us :: u64
  cfg_peers :: "peer_config list"
  cfg_numa_aware :: bool

definition default_config :: server_config where
  "default_config =
     \<lparr>cfg_node_id = 1, cfg_listen_addr = ''0.0.0.0:9876'',
      cfg_raft_listen_addr = ''0.0.0.0:9976'', cfg_data_dir = ''/tmp/wal_server/data'',
      cfg_num_shards = None, cfg_segment_max_bytes = 64 * 1024 * 1024,
      cfg_group_commit_interval_us = 200, cfg_group_commit_max_batch = 256,
      cfg_channel_capacity = 4096, cfg_tail_cache_entries = 128, cfg_gc_interval_us = 50000,
      cfg_peers =
        [\<lparr>peer_id = 1, peer_addr = ''127.0.0.1:9976''\<rparr>,
         \<lparr>peer_id = 2, peer_addr = ''127.0.0.1:9977''\<rparr>,
         \<lparr>peer_id = 3, peer_addr = ''127.0.0.1:9978''\<rparr>],
      cfg_numa_aware = True\<rparr>"

record cli =
  cli_listen :: "string option"
  cli_raft_listen :: "string option"
  cli_node_id :: "u64 option"
  cli_shards :: "nat option"
  cli_data_dir :: "string option"

definition override :: "('c \<Rightarrow> 'v \<Rightarrow> 'c) \<Rightarrow> 'v option \<Rightarrow> 'c \<Rightarrow> 'c" where
  "override upd v c = (case v of Some x \<Rightarrow> upd c x | None \<Rightarrow> c)"

definition apply_overrides :: "cli \<Rightarrow> server_config \<Rightarrow> server_config" where
  "apply_overrides a c =
     (let c = override (\<lambda>c x. c\<lparr>cfg_listen_addr := x\<rparr>) (cli_listen a) c;
          c = override (\<lambda>c x. c\<lparr>cfg_raft_listen_addr := x\<rparr>) (cli_raft_listen a) c;
          c = override (\<lambda>c x. c\<lparr>cfg_node_id := x\<rparr>) (cli_node_id a) c;
          c = override (\<lambda>c x. c\<lparr>cfg_num_shards := Some x\<rparr>) (cli_shards a) c
      in override (\<lambda>c x. c\<lparr>cfg_data_dir := x\<rparr>) (cli_data_dir a) c)"

definition effective_config :: "('e + server_config) option \<Rightarrow> cli \<Rightarrow> server_config" where
  "effective_config loaded a =
     apply_overrides a
       (case loaded of Some (Inr c) \<Rightarrow> c | Some (Inl _) \<Rightarrow> default_config | None \<Rightarrow> default_config)"

lemma override_simps [simp]:
  "override upd None c = c"
  "override upd (Some x) c = upd c x"
  by (simp_all add: override_def)

lemma apply_overrides_none:
  "apply_overrides \<lparr>cli_listen = None, cli_raft_listen = None, cli_node_id = None,
     cli_shards = None, cli_data_dir = None\<rparr> c = c"
  by (simp add: apply_overrides_def)

end
