(* ===== verification/Protocol.thy ===== *)
theory Protocol
  imports Framing
begin

text \<open>
  The client protocol: \<open>protocol/types.rs\<close>, \<open>protocol/wire.rs\<close> and
  \<open>protocol/codec.rs\<close>, and the way the command-line clients read a response off a
  socket (\<open>bin/wal_client.rs\<close>, \<open>bin/cluster_bench.rs\<close>). Requests and responses are
  framed by a length field, so both encoders come with a decoder that must cope with
  incomplete buffers.
\<close>

subsection \<open>Types\<close>

datatype op_code = Write | Read | Ack | GetStatus

definition op_code_u8 :: "op_code \<Rightarrow> u8" where
  "op_code_u8 op = (case op of Write \<Rightarrow> 1 | Read \<Rightarrow> 2 | Ack \<Rightarrow> 3 | GetStatus \<Rightarrow> 4)"

definition op_code_from_u8 :: "u8 \<Rightarrow> op_code option" where
  "op_code_from_u8 v =
     (if v = 1 then Some Write else if v = 2 then Some Read
      else if v = 3 then Some Ack else if v = 4 then Some GetStatus else None)"

datatype status =
  Ok | ErrInvalidRequest | ErrShardUnavailable | ErrNotFound | ErrEpochFenced | ErrNotLeader
| ErrInternal

definition status_u8 :: "status \<Rightarrow> u8" where
  "status_u8 st =
     (case st of Ok \<Rightarrow> 0 | ErrInvalidRequest \<Rightarrow> 1 | ErrShardUnavailable \<Rightarrow> 2
      | ErrNotFound \<Rightarrow> 3 | ErrEpochFenced \<Rightarrow> 4 | ErrNotLeader \<Rightarrow> 5 | ErrInternal \<Rightarrow> 255)"

record request =
  req_op :: op_code
  req_stream_id :: u64
  req_epoch :: u64
  req_offset :: u64
  req_payload :: bytes

record response =
  resp_status :: status
  resp_epoch :: u64
  resp_offset :: u64
  resp_payload :: bytes

record stream_status_payload =
  sp_next_stream_lsn :: u64
  sp_commit_stream_lsn :: u64
  sp_consumed_stream_lsn :: u64
  sp_commit_index :: u64
  sp_last_applied :: u64

subsection \<open>Wire constants and errors\<close>

definition MAGIC :: u32 where "MAGIC = 0x57414C53"
definition VERSION :: u8 where "VERSION = 1"
definition REQUEST_HEADER_SIZE :: nat where "REQUEST_HEADER_SIZE = 34"
definition RESPONSE_HEADER_SIZE :: nat where "RESPONSE_HEADER_SIZE = 26"
definition STATUS_PAYLOAD_SIZE :: nat where "STATUS_PAYLOAD_SIZE = 40"

lemmas wire_defs [layout_defs] = MAGIC_def VERSION_def REQUEST_HEADER_SIZE_def
  RESPONSE_HEADER_SIZE_def STATUS_PAYLOAD_SIZE_def

datatype protocol_error = BadMagic u32 | BadVersion u8 | BadOpCode u8 | BufferTooSmall

subsection \<open>Requests\<close>

definition decode_request :: "bytes \<Rightarrow> protocol_error + (request \<times> nat) option" where
  "decode_request buf =
     (if length buf < REQUEST_HEADER_SIZE then Inr None
      else let magic = of_be32 (subslice buf 0 4) in
        if magic \<noteq> MAGIC then Inl (BadMagic magic)
        else let version = buf ! 4 in
          if version \<noteq> VERSION then Inl (BadVersion version)
          else case op_code_from_u8 (buf ! 5) of
              None \<Rightarrow> Inl (BadOpCode (buf ! 5))
            | Some opc \<Rightarrow>
                let sid = of_be64 (subslice buf 6 14);
                    epoch = of_be64 (subslice buf 14 22);
                    offset = of_be64 (subslice buf 22 30);
                    payload_len = unat (of_be32 (subslice buf 30 34));
                    total = REQUEST_HEADER_SIZE + payload_len
                in if length buf < total then Inr None
                   else Inr (Some
                     (\<lparr>req_op = opc, req_stream_id = sid, req_epoch = epoch, req_offset = offset,
                       req_payload =
                         subslice buf REQUEST_HEADER_SIZE (REQUEST_HEADER_SIZE + payload_len)\<rparr>,
                      total)))"

definition encode_request :: "request \<Rightarrow> bytes" where
  "encode_request req =
     be32 MAGIC @ [VERSION] @ [op_code_u8 (req_op req)] @ be64 (req_stream_id req) @
     be64 (req_epoch req) @ be64 (req_offset req) @
     be32 (word_of_nat (length (req_payload req))) @ req_payload req"

definition append_request :: "u64 \<Rightarrow> u64 \<Rightarrow> bytes \<Rightarrow> request" where
  "append_request sid epoch payload =
     \<lparr>req_op = Write, req_stream_id = sid, req_epoch = epoch, req_offset = 0, req_payload = payload\<rparr>"

definition read_request :: "u64 \<Rightarrow> u64 \<Rightarrow> u64 \<Rightarrow> request" where
  "read_request sid epoch lsn =
     \<lparr>req_op = Read, req_stream_id = sid, req_epoch = epoch, req_offset = lsn, req_payload = []\<rparr>"

definition ack_request :: "u64 \<Rightarrow> u64 \<Rightarrow> u64 \<Rightarrow> request" where
  "ack_request sid epoch consumed =
     \<lparr>req_op = Ack, req_stream_id = sid, req_epoch = epoch, req_offset = consumed, req_payload = []\<rparr>"

definition get_status_request :: "u64 \<Rightarrow> request" where
  "get_status_request sid =
     \<lparr>req_op = GetStatus, req_stream_id = sid, req_epoch = 0, req_offset = 0, req_payload = []\<rparr>"

subsection \<open>Responses\<close>

definition encode_response :: "response \<Rightarrow> bytes" where
  "encode_response resp =
     be32 MAGIC @ [VERSION] @ [status_u8 (resp_status resp)] @ be64 (resp_epoch resp) @
     be64 (resp_offset resp) @ be32 (word_of_nat (length (resp_payload resp))) @ resp_payload resp"

definition status_from_u8 :: "u8 \<Rightarrow> status option" where
  "status_from_u8 v =
     (if v = 0 then Some Ok else if v = 1 then Some ErrInvalidRequest
      else if v = 2 then Some ErrShardUnavailable else if v = 3 then Some ErrNotFound
      else if v = 4 then Some ErrEpochFenced else if v = 5 then Some ErrNotLeader
      else if v = 255 then Some ErrInternal else None)"

definition decode_response :: "bytes \<Rightarrow> protocol_error + response" where
  "decode_response buf =
     (if length buf < RESPONSE_HEADER_SIZE then Inl BufferTooSmall
      else let magic = of_be32 (subslice buf 0 4) in
        if magic \<noteq> MAGIC then Inl (BadMagic magic)
        else let version = buf ! 4 in
          if version \<noteq> VERSION then Inl (BadVersion version)
          else case status_from_u8 (buf ! 5) of
              None \<Rightarrow> Inl (BadOpCode (buf ! 5))
            | Some st \<Rightarrow>
                let epoch = of_be64 (subslice buf 6 14);
                    offset = of_be64 (subslice buf 14 22);
                    payload_len = unat (of_be32 (subslice buf 22 26))
                in if length buf < RESPONSE_HEADER_SIZE + payload_len then Inl BufferTooSmall
                   else Inr
                     \<lparr>resp_status = st, resp_epoch = epoch, resp_offset = offset,
                      resp_payload =
                        subslice buf RESPONSE_HEADER_SIZE (RESPONSE_HEADER_SIZE + payload_len)\<rparr>)"

text \<open>
  How a client reads one response: \<open>read_exact\<close> the header, take the payload length
  from its bytes 22 to 26, \<open>read_exact\<close> the payload, decode the whole. The socket is the
  list of bytes still to come; \<open>None\<close> is the failed read or the \<open>expect\<close> on the decoder.
\<close>

definition read_exact :: "nat \<Rightarrow> bytes \<Rightarrow> (bytes \<times> bytes) option" where
  "read_exact n socket = (if length socket < n then None else Some (take n socket, drop n socket))"

definition receive_response :: "bytes \<Rightarrow> (response \<times> bytes) option" where
  "receive_response socket =
     (case read_exact RESPONSE_HEADER_SIZE socket of
        None \<Rightarrow> None
      | Some (header, socket1) \<Rightarrow>
          let payload_len = unat (of_be32 (subslice header 22 26)) in
          (case (if payload_len > 0 then read_exact payload_len socket1 else Some ([], socket1)) of
             None \<Rightarrow> None
           | Some (payload, socket2) \<Rightarrow>
               (case decode_response (header @ payload) of
                  Inl e \<Rightarrow> None
                | Inr resp \<Rightarrow> Some (resp, socket2))))"

subsection \<open>Stream status payloads\<close>

definition encode_stream_status_payload :: "stream_status_payload \<Rightarrow> bytes" where
  "encode_stream_status_payload p =
     be64 (sp_next_stream_lsn p) @ be64 (sp_commit_stream_lsn p) @
     be64 (sp_consumed_stream_lsn p) @ be64 (sp_commit_index p) @ be64 (sp_last_applied p)"

definition decode_stream_status_payload :: "bytes \<Rightarrow> protocol_error + stream_status_payload" where
  "decode_stream_status_payload buf =
     (if length buf < STATUS_PAYLOAD_SIZE then Inl BufferTooSmall
      else Inr \<lparr>sp_next_stream_lsn = of_be64 (subslice buf 0 8),
                sp_commit_stream_lsn = of_be64 (subslice buf 8 16),
                sp_consumed_stream_lsn = of_be64 (subslice buf 16 24),
                sp_commit_index = of_be64 (subslice buf 24 32),
                sp_last_applied = of_be64 (subslice buf 32 40)\<rparr>)"

subsection \<open>Facts about the tags\<close>

lemma op_code_roundtrip [simp]: "op_code_from_u8 (op_code_u8 opc) = Some opc"
  by (cases opc) (simp_all add: op_code_u8_def op_code_from_u8_def)

lemma op_code_from_u8_Some: "op_code_from_u8 v = Some opc \<Longrightarrow> op_code_u8 opc = v"
  by (auto simp: op_code_from_u8_def op_code_u8_def split: if_splits)

lemma status_roundtrip [simp]: "status_from_u8 (status_u8 st) = Some st"
  by (cases st) (simp_all add: status_u8_def status_from_u8_def)

lemma status_from_u8_Some: "status_from_u8 v = Some st \<Longrightarrow> status_u8 st = v"
  by (auto simp: status_from_u8_def status_u8_def split: if_splits)

subsection \<open>The request codec is a frame codec\<close>

definition payload_fits :: "bytes \<Rightarrow> bool" where
  "payload_fits p = (length p < 2 ^ 32)"

definition request_fits :: "request \<Rightarrow> bool" where
  "request_fits r = payload_fits (req_payload r)"

lemma length_encode_request: "length (encode_request r) = 34 + length (req_payload r)"
  by (simp add: encode_request_def)

lemma decode_encode_request:
  "request_fits r \<Longrightarrow>
   decode_request (encode_request r @ rest) = Inr (Some (r, length (encode_request r)))"
  by (simp add: decode_request_def encode_request_def wire_defs byte_simps Let_def
      request_fits_def payload_fits_def)

lemma decode_request_incomplete:
  assumes "request_fits r" and "k < length (encode_request r)"
  shows "decode_request (take k (encode_request r)) = Inr None"
proof (cases "k < 34")
  case False
  define p where "p = take (k - 34) (req_payload r)"
  have "take k (encode_request r) =
    be32 MAGIC @ [VERSION] @ [op_code_u8 (req_op r)] @ be64 (req_stream_id r) @
    be64 (req_epoch r) @ be64 (req_offset r) @ be32 (word_of_nat (length (req_payload r))) @ p"
    using False by (simp add: encode_request_def p_def take_Cons' nat_diff_split)
  moreover have "length p < length (req_payload r)"
    using assms(2) False by (simp add: p_def length_encode_request)
  ultimately show ?thesis
    using assms(1) by (simp add: decode_request_def wire_defs byte_simps Let_def
        request_fits_def payload_fits_def)
qed (simp add: decode_request_def REQUEST_HEADER_SIZE_def min_less_iff_disj)

lemma decode_request_Some:
  assumes "decode_request buf = Inr (Some (r, n))"
  shows "n \<le> length buf" and "34 \<le> n" and "take n buf = encode_request r" and "request_fits r"
proof -
  note dec = assms [unfolded decode_request_def wire_defs Let_def]
  let ?len = "unat (of_be32 (subslice buf 30 34))"
  from dec have n: "n = 34 + ?len" "34 + ?len \<le> length buf" "34 \<le> length buf"
    and hd: "of_be32 (subslice buf 0 4) = 0x57414C53" "buf ! 4 = 1"
      "op_code_u8 (req_op r) = buf ! 5"
    and r: "req_stream_id r = of_be64 (subslice buf 6 14)" "req_epoch r = of_be64 (subslice buf 14 22)"
      "req_offset r = of_be64 (subslice buf 22 30)" "req_payload r = subslice buf 34 (34 + ?len)"
    by (auto split: if_splits option.splits dest: op_code_from_u8_Some)
  show "n \<le> length buf" "34 \<le> n" using n by simp_all
  have len: "length (req_payload r) = ?len" using n r(4) by simp
  show "request_fits r"
    using len unat_less_power [of "of_be32 (subslice buf 30 34)"]
    by (simp add: request_fits_def payload_fits_def)
  have "take n buf = subslice buf 0 4 @ subslice buf 4 5 @ subslice buf 5 6 @ subslice buf 6 14 @
      subslice buf 14 22 @ subslice buf 22 30 @ subslice buf 30 34 @ subslice buf 34 n"
    using n by (simp flip: subslice_split subslice_0 add: subslice_split [symmetric])
  also have "\<dots> = encode_request r"
    using n hd r len nth_subslice_singleton [of 4 buf] nth_subslice_singleton [of 5 buf]
      be_of_be32 [of "subslice buf 0 4"]
    by (simp add: encode_request_def wire_defs be_of_be del: subslice_0)
  finally show "take n buf = encode_request r" .
qed

interpretation reqs: frame_codec encode_request decode_request request_fits
proof unfold_locales
  fix buf r n
  assume "decode_request buf = Inr (Some (r, n))"
  from decode_request_Some [OF this] show "0 < n \<and> n \<le> length buf" by simp
qed (simp_all add: decode_encode_request decode_request_incomplete,
     simp add: decode_request_def REQUEST_HEADER_SIZE_def)

text \<open>
  C28: Whatever the chunks in which TCP delivers the bytes of a list of encoded requests, the
  connection loop decodes exactly these requests, in order and each once, and ends with an
  empty parse buffer (for any handler that keeps the connection open).
\<close>

theorem request_stream_delivery:
  assumes "list_all request_fits rs" and "stays_open h rs"
    and "concat chunks = concat (map encode_request rs)"
  shows "feed_chunks decode_request h [] s chunks = Some ([], handle_all h rs s, NeedMore)"
  using assms by (rule reqs.feed_all)

text \<open>Two requests cut in the middle of a header and in the middle of a payload.\<close>

definition demo_requests :: "request list" where
  "demo_requests = [append_request 7 3 [1, 2, 3], read_request 7 3 0]"

lemma request_stream_delivery_witness:
  "feed_chunks decode_request (\<lambda>r rs. (rs @ [r], True)) []
     [] [take 5 (concat (map encode_request demo_requests)),
         subslice (concat (map encode_request demo_requests)) 5 36,
         drop 36 (concat (map encode_request demo_requests))] =
   Some ([], demo_requests, NeedMore)"
proof -
  let ?wire = "concat (map encode_request demo_requests)"
  have split: "concat [take 5 ?wire, subslice ?wire 5 36, drop 36 ?wire] = ?wire"
    using subslice_split [of 0 5 36 ?wire] append_take_drop_id [of 36 ?wire] by simp
  show ?thesis
    using request_stream_delivery [OF _ _ split, where h = "\<lambda>r rs. (rs @ [r], True)" and s = "[]"]
    by (simp add: demo_requests_def append_request_def read_request_def request_fits_def
        payload_fits_def stays_open_def)
qed

text \<open>
  C34: The connection loop never hangs: whatever bytes a client sends, in whatever chunks, and
  whatever the handler does, decoding and handling the frames of every chunk ends, with the
  buffer waiting for more bytes, a protocol error or the handler's return.
\<close>

theorem connection_loop_terminates:
  "\<exists>buf' s' ending. feed_chunks decode_request h buf s chunks = Some (buf', s', ending)"
  using reqs.feed_total by (metis option.exhaust prod_cases3)

text \<open>
  C30: The request decoder accepts exactly the encodings: it returns a request and a length
  if and only if the buffer starts with the encoding of that request and the length is the
  length of that encoding. So there is one wire form per request and nothing else parses.
\<close>

theorem decode_request_exact:
  "decode_request buf = Inr (Some (r, n)) \<longleftrightarrow>
     request_fits r \<and> n = length (encode_request r) \<and> take n buf = encode_request r"
  (is "?dec \<longleftrightarrow> ?enc")
proof
  assume dec: ?dec
  note facts = decode_request_Some [OF this]
  then have "length (encode_request r) = n" by (metis length_take min.absorb2)
  with facts show ?enc by simp
next
  assume enc: ?enc
  then have "buf = encode_request r @ drop n buf" by (metis append_take_drop_id)
  with enc show ?dec using decode_encode_request [of r "drop n buf"] by simp
qed

subsection \<open>Responses\<close>

lemma decode_encode_response:
  "payload_fits (resp_payload r) \<Longrightarrow> decode_response (encode_response r @ rest) = Inr r"
  by (simp add: decode_response_def encode_response_def wire_defs byte_simps Let_def
      payload_fits_def)

lemma read_exact_append: "n = length xs \<Longrightarrow> read_exact n (xs @ ys) = Some (xs, ys)"
  by (simp add: read_exact_def)

lemma receive_encoded_response:
  assumes "payload_fits (resp_payload r)"
  shows "receive_response (encode_response r @ rest) = Some (r, rest)"
proof -
  define hdr where "hdr = be32 MAGIC @ [VERSION] @ [status_u8 (resp_status r)] @ be64 (resp_epoch r) @
    be64 (resp_offset r) @ be32 (word_of_nat (length (resp_payload r)))"
  have enc: "encode_response r = hdr @ resp_payload r"
    by (simp add: encode_response_def hdr_def)
  have "unat (of_be32 (subslice hdr 22 26)) = length (resp_payload r)"
    using assms by (simp add: hdr_def byte_simps payload_fits_def)
  moreover have "read_exact RESPONSE_HEADER_SIZE (encode_response r @ rest) =
      Some (hdr, resp_payload r @ rest)"
    using read_exact_append [of RESPONSE_HEADER_SIZE hdr "resp_payload r @ rest"]
    by (simp add: enc hdr_def RESPONSE_HEADER_SIZE_def)
  moreover have "decode_response (hdr @ resp_payload r) = Inr r"
    using decode_encode_response [OF assms, of "[]"] by (simp add: enc)
  ultimately show ?thesis
    using read_exact_append [of "length (resp_payload r)" "resp_payload r" rest]
    by (cases "resp_payload r = []") (simp_all add: receive_response_def Let_def)
qed

text \<open>
  A client that reads a response the way \<open>wal_client\<close> and \<open>cluster_bench\<close> do gets
  exactly the response the server encoded and leaves the bytes behind it untouched, so
  responses that follow each other on a connection never run into one another.
\<close>

theorem client_receives_response:
  assumes "payload_fits (resp_payload r)"
  shows "receive_response (encode_response r @ rest) = Some (r, rest)"
  using assms by (rule receive_encoded_response)

lemma client_receives_response_witness:
  "receive_response (encode_response
     \<lparr>resp_status = Ok, resp_epoch = 7, resp_offset = 42, resp_payload = [97, 98]\<rparr> @ [0]) =
   Some (\<lparr>resp_status = Ok, resp_epoch = 7, resp_offset = 42, resp_payload = [97, 98]\<rparr>, [0])"
  by (rule client_receives_response) (simp add: payload_fits_def)

lemma decode_stream_status_roundtrip:
  "decode_stream_status_payload (encode_stream_status_payload p @ rest) = Inr p"
  by (simp add: decode_stream_status_payload_def encode_stream_status_payload_def wire_defs
      byte_simps)

end
