(* ===== verification/Command.thy ===== *)
theory Command
  imports Prelude
begin

text \<open>
  The command that the leader proposes to Raft and every replica applies
  (\<open>raft/command.rs\<close>). The bytes below are what a committed log entry carries.
\<close>

record append_command =
  cmd_request_id :: u64
  cmd_stream_id :: u64
  cmd_epoch :: u64
  cmd_stream_lsn :: u64
  cmd_payload :: bytes

datatype command_error = InvalidTag u8 | CommandTooSmall

definition APPEND_TAG :: u8 where "APPEND_TAG = 1"

definition encode_append_command :: "append_command \<Rightarrow> bytes" where
  "encode_append_command cmd =
     [APPEND_TAG] @ be64 (cmd_request_id cmd) @ be64 (cmd_stream_id cmd) @ be64 (cmd_epoch cmd) @
     be64 (cmd_stream_lsn cmd) @ be32 (word_of_nat (length (cmd_payload cmd))) @ cmd_payload cmd"

definition decode_append_command :: "bytes \<Rightarrow> command_error + append_command" where
  "decode_append_command buf =
     (if length buf < 1 + 8 * 4 + 4 then Inl CommandTooSmall
      else if buf ! 0 \<noteq> APPEND_TAG then Inl (InvalidTag (buf ! 0))
      else let request_id = of_be64 (subslice buf 1 9);
               sid = of_be64 (subslice buf 9 17);
               epoch = of_be64 (subslice buf 17 25);
               lsn = of_be64 (subslice buf 25 33);
               payload_len = unat (of_be32 (subslice buf 33 37))
        in if length buf < 37 + payload_len then Inl CommandTooSmall
           else Inr \<lparr>cmd_request_id = request_id, cmd_stream_id = sid, cmd_epoch = epoch,
                     cmd_stream_lsn = lsn, cmd_payload = subslice buf 37 (37 + payload_len)\<rparr>)"

definition command_fits :: "append_command \<Rightarrow> bool" where
  "command_fits cmd = (length (cmd_payload cmd) + 48 < 2 ^ 32)"

lemma length_encode_append_command:
  "length (encode_append_command cmd) = 37 + length (cmd_payload cmd)"
  by (simp add: encode_append_command_def)

lemma encode_append_command_nonempty [simp]: "encode_append_command cmd \<noteq> []"
  by (simp add: encode_append_command_def)

lemma decode_encode_append_command [simp]:
  "length (cmd_payload cmd) < 2 ^ 32 \<Longrightarrow>
   decode_append_command (encode_append_command cmd @ rest) = Inr cmd"
  by (simp add: decode_append_command_def encode_append_command_def APPEND_TAG_def byte_simps
      Let_def)

lemma decode_encode_command:
  "command_fits cmd \<Longrightarrow> decode_append_command (encode_append_command cmd) = Inr cmd"
  using decode_encode_append_command [of cmd "[]"] by (simp add: command_fits_def)

text \<open>What the decoder accepts starts with the encoding of what it returns.\<close>

lemma decode_append_command_Inr:
  assumes "decode_append_command buf = Inr cmd"
  shows "take (37 + length (cmd_payload cmd)) buf = encode_append_command cmd"
proof -
  let ?len = "unat (of_be32 (subslice buf 33 37))"
  note dec = assms [unfolded decode_append_command_def Let_def]
  from dec have n: "37 + ?len \<le> length buf" "37 \<le> length buf" "buf ! 0 = APPEND_TAG"
    and r: "cmd_request_id cmd = of_be64 (subslice buf 1 9)"
      "cmd_stream_id cmd = of_be64 (subslice buf 9 17)"
      "cmd_epoch cmd = of_be64 (subslice buf 17 25)"
      "cmd_stream_lsn cmd = of_be64 (subslice buf 25 33)"
      "cmd_payload cmd = subslice buf 37 (37 + ?len)"
    by (auto split: if_splits)
  then have len: "length (cmd_payload cmd) = ?len" by simp
  have b0: "subslice buf 0 (Suc 0) = [APPEND_TAG]"
    using n by (cases buf) simp_all
  have "take (37 + ?len) buf = subslice buf 0 1 @ subslice buf 1 9 @ subslice buf 9 17 @
      subslice buf 17 25 @ subslice buf 25 33 @ subslice buf 33 37 @ subslice buf 37 (37 + ?len)"
    by (simp flip: subslice_split subslice_0 add: subslice_split [symmetric])
  also have "\<dots> = encode_append_command cmd"
    using n r len b0
    by (simp add: encode_append_command_def be_of_be del: subslice_0)
  finally show ?thesis by (simp add: len)
qed

end
