(* ===== verification/WalRecord.thy ===== *)
theory WalRecord
  imports Framing
begin

text \<open>
  The on-disk record (\<open>wal/record.rs\<close>). The checksum \<open>crc32fast::hash\<close> is a parameter
  \<open>crc\<close> of every definition: nothing below depends on which function it is. The encoder
  writes the fields in place into a buffer, as the code does; \<open>record_layout\<close> is the
  layout of the comment at the top of the source, and the two are proved equal.
\<close>

record wal_record =
  wr_stream_id :: u64
  wr_epoch :: u64
  wr_entry_id :: u64
  wr_stream_lsn :: u64
  wr_timestamp_ns :: u64
  wr_payload :: bytes

datatype wal_record_error = RecordTooSmall | CrcMismatch u32 u32 | InvalidKeyLen

definition RECORD_HEADER_SIZE :: nat where "RECORD_HEADER_SIZE = 48"

definition encoded_size :: "wal_record \<Rightarrow> nat" where
  "encoded_size r = RECORD_HEADER_SIZE + length (wr_payload r)"

text \<open>\<open>None\<close> is the failed assertion on the size of the buffer.\<close>

definition encode_record :: "(bytes \<Rightarrow> u32) \<Rightarrow> wal_record \<Rightarrow> bytes \<Rightarrow> (bytes \<times> nat) option" where
  "encode_record crc r buf =
     (let total_size = encoded_size r in
      if \<not> length buf \<ge> total_size then None
      else let body_len = word_of_nat (total_size - 8);
               buf = copy_at buf 4 (be32 body_len);
               buf = copy_at buf 8 (be64 (wr_stream_id r));
               buf = copy_at buf 16 (be64 (wr_epoch r));
               buf = copy_at buf 24 (be64 (wr_entry_id r));
               buf = copy_at buf 32 (be64 (wr_stream_lsn r));
               buf = copy_at buf 40 (be64 (wr_timestamp_ns r));
               buf = copy_at buf 48 (wr_payload r);
               c = crc (subslice buf 4 total_size);
               buf = copy_at buf 0 (be32 c)
        in Some (buf, total_size))"

definition encode_to_vec :: "(bytes \<Rightarrow> u32) \<Rightarrow> wal_record \<Rightarrow> bytes option" where
  "encode_to_vec crc r = map_option fst (encode_record crc r (replicate (encoded_size r) 0))"

definition decode_record ::
  "(bytes \<Rightarrow> u32) \<Rightarrow> bytes \<Rightarrow> wal_record_error fault + (wal_record \<times> nat)" where
  "decode_record crc buf =
     (if length buf < RECORD_HEADER_SIZE then Inl (Err RecordTooSmall)
      else let stored_crc = of_be32 (subslice buf 0 4);
               body_len = unat (of_be32 (subslice buf 4 8));
               total_size = 8 + body_len
        in if length buf < total_size then Inl (Err RecordTooSmall)
           else let computed_crc = crc (subslice buf 4 total_size) in
             if stored_crc \<noteq> computed_crc then Inl (Err (CrcMismatch stored_crc computed_crc))
             else if total_size < 48 then Inl Panic \<comment> \<open>\<open>&buf[48..total_size]\<close>\<close>
             else Inr (\<lparr>wr_stream_id = of_be64 (subslice buf 8 16),
                        wr_epoch = of_be64 (subslice buf 16 24),
                        wr_entry_id = of_be64 (subslice buf 24 32),
                        wr_stream_lsn = of_be64 (subslice buf 32 40),
                        wr_timestamp_ns = of_be64 (subslice buf 40 48),
                        wr_payload = subslice buf 48 total_size\<rparr>, total_size))"

subsection \<open>The layout\<close>

definition record_body :: "wal_record \<Rightarrow> bytes" where
  "record_body r =
     be32 (word_of_nat (encoded_size r - 8)) @ be64 (wr_stream_id r) @ be64 (wr_epoch r) @
     be64 (wr_entry_id r) @ be64 (wr_stream_lsn r) @ be64 (wr_timestamp_ns r) @ wr_payload r"

definition record_layout :: "(bytes \<Rightarrow> u32) \<Rightarrow> wal_record \<Rightarrow> bytes" where
  "record_layout crc r = be32 (crc (record_body r)) @ record_body r"

definition record_fits :: "wal_record \<Rightarrow> bool" where
  "record_fits r = (length (wr_payload r) + 40 < 2 ^ 32)"

lemma length_record_layout [simp]: "length (record_layout crc r) = encoded_size r"
  by (simp add: record_layout_def record_body_def encoded_size_def RECORD_HEADER_SIZE_def)

lemma encode_record_layout:
  assumes "encoded_size r \<le> length buf"
  shows "encode_record crc r buf =
    Some (record_layout crc r @ drop (encoded_size r) buf, encoded_size r)"
proof -
  have size: "encoded_size r = 48 + length (wr_payload r)"
    by (simp add: encoded_size_def RECORD_HEADER_SIZE_def)
  define xs ys where "xs = take 4 buf" and "ys = drop 4 buf"
  then have buf: "buf = xs @ ys" and xs: "length xs = 4"
    using assms size by simp_all
  show ?thesis
    using assms xs unfolding buf
    by (simp add: encode_record_def Let_def size copy_at_append copy_at_0 byte_simps
        record_layout_def record_body_def add.commute)
qed

lemma encode_to_vec_layout: "encode_to_vec crc r = Some (record_layout crc r)"
  by (simp add: encode_to_vec_def encode_record_layout)

text \<open>With the length field named, the layout computes without touching the field's value.\<close>

lemma record_body_fields:
  assumes "record_fits r"
  obtains bl where "unat bl = 40 + length (wr_payload r)"
    and "record_body r = be32 bl @ be64 (wr_stream_id r) @ be64 (wr_epoch r) @
      be64 (wr_entry_id r) @ be64 (wr_stream_lsn r) @ be64 (wr_timestamp_ns r) @ wr_payload r"
proof
  have "encoded_size r - 8 = 40 + length (wr_payload r)"
    by (simp add: encoded_size_def RECORD_HEADER_SIZE_def)
  then show "unat (word_of_nat (encoded_size r - 8) :: u32) = 40 + length (wr_payload r)"
    using assms by (subst unat_u32_of_nat) (simp_all add: record_fits_def)
qed (simp add: record_body_def)

lemma decode_record_layout:
  assumes "record_fits r"
  shows "decode_record crc (record_layout crc r @ rest) = Inr (r, encoded_size r)"
proof -
  from record_body_fields [OF assms] obtain bl where
    bl: "unat bl = 40 + length (wr_payload r)" and body: "record_body r = be32 bl @
      be64 (wr_stream_id r) @ be64 (wr_epoch r) @ be64 (wr_entry_id r) @ be64 (wr_stream_lsn r) @
      be64 (wr_timestamp_ns r) @ wr_payload r" .
  show ?thesis
    by (simp add: decode_record_def record_layout_def body bl
        encoded_size_def RECORD_HEADER_SIZE_def byte_simps Let_def)
qed

text \<open>A record cut anywhere, as a crash leaves it, is reported as incomplete.\<close>

lemma decode_record_torn:
  assumes "record_fits r" and "k < encoded_size r"
  shows "decode_record crc (take k (record_layout crc r)) = Inl (Err RecordTooSmall)"
proof (cases "k < 48")
  case False
  from record_body_fields [OF assms(1)] obtain bl where
    bl: "unat bl = 40 + length (wr_payload r)" and body: "record_body r = be32 bl @
      be64 (wr_stream_id r) @ be64 (wr_epoch r) @ be64 (wr_entry_id r) @ be64 (wr_stream_lsn r) @
      be64 (wr_timestamp_ns r) @ wr_payload r" .
  have "take 4 (drop 4 (take k (record_layout crc r))) = be32 bl"
    using False by (simp add: record_layout_def body drop_take min_def)
  then have "of_be32 (subslice (take k (record_layout crc r)) 4 8) = bl"
    by (simp add: subslice_def)
  then show ?thesis
    using False assms(2) bl
    by (simp add: decode_record_def RECORD_HEADER_SIZE_def encoded_size_def Let_def)
qed (simp add: decode_record_def RECORD_HEADER_SIZE_def min_less_iff_disj)

text \<open>Everything the decoder returns is a record laid out at the front of the buffer.\<close>

lemma decode_record_Inr:
  assumes "decode_record crc buf = Inr (r, n)"
  shows "n = encoded_size r" and "n \<le> length buf" and "record_fits r"
    and "take n buf = record_layout crc r"
proof -
  let ?bl = "of_be32 (subslice buf 4 8)"
  note dec = assms [unfolded decode_record_def RECORD_HEADER_SIZE_def Let_def]
  from dec have n: "n = 8 + unat ?bl" "n \<le> length buf" "48 \<le> n"
    and crc: "of_be32 (subslice buf 0 4) = crc (subslice buf 4 n)"
    and r: "wr_stream_id r = of_be64 (subslice buf 8 16)" "wr_epoch r = of_be64 (subslice buf 16 24)"
      "wr_entry_id r = of_be64 (subslice buf 24 32)" "wr_stream_lsn r = of_be64 (subslice buf 32 40)"
      "wr_timestamp_ns r = of_be64 (subslice buf 40 48)" "wr_payload r = subslice buf 48 n"
    by (auto split: if_splits)
  have len: "length (wr_payload r) = n - 48" using n r by simp
  then show size: "n = encoded_size r" and "n \<le> length buf"
    using n by (simp_all add: encoded_size_def RECORD_HEADER_SIZE_def)
  have "n - 8 < 2 ^ 32" using n(1) unat_less_power [of ?bl] by simp
  then show fits: "record_fits r" using len n(3) by (simp add: record_fits_def)
  have bl: "?bl = word_of_nat (encoded_size r - 8)" using n(1) size by simp
  have "subslice buf 4 n = subslice buf 4 8 @ subslice buf 8 16 @ subslice buf 16 24 @
      subslice buf 24 32 @ subslice buf 32 40 @ subslice buf 40 48 @ subslice buf 48 n"
    using n by (simp flip: subslice_split add: subslice_split [symmetric])
  also have "\<dots> = record_body r"
    using n r unfolding record_body_def bl [symmetric] by (simp add: be_of_be)
  finally have body: "subslice buf 4 n = record_body r" .
  have "take n buf = subslice buf 0 4 @ subslice buf 4 n"
    using n subslice_split [of 0 4 n buf] by simp
  also have "subslice buf 0 4 = be32 (of_be32 (subslice buf 0 4))"
    using n by (intro be_of_be32 [symmetric]) simp
  finally show "take n buf = record_layout crc r"
    using crc body by (simp add: record_layout_def)
qed

definition decode_record_opt :: "(bytes \<Rightarrow> u32) \<Rightarrow> bytes \<Rightarrow> (wal_record \<times> nat) option" where
  "decode_record_opt crc buf = (case decode_record crc buf of Inr r \<Rightarrow> Some r | Inl _ \<Rightarrow> None)"

interpretation recs: record_format "record_layout crc" "decode_record_opt crc" record_fits
  for crc
proof unfold_locales
  fix r assume "record_fits r"
  have "0 < length (record_layout crc r)"
    by (simp add: encoded_size_def RECORD_HEADER_SIZE_def)
  then show "record_layout crc r \<noteq> []" by (metis length_0_conv less_irrefl)
qed (simp add: decode_record_opt_def decode_record_layout)

subsection \<open>Properties\<close>

text \<open>
  The in-place encoder writes exactly the documented layout, whatever the buffer held,
  touches nothing behind it, and its checksum covers everything from the length field on;
  it panics exactly on a buffer that is too short.
\<close>

theorem encode_record_exact:
  "encode_record crc r buf =
     (if length buf < encoded_size r then None
      else Some (record_layout crc r @ drop (encoded_size r) buf, encoded_size r))"
  by (cases "length buf < encoded_size r") (simp_all add: encode_record_layout,
      simp add: encode_record_def Let_def)

text \<open>
  C31: The record decoder succeeds on a buffer exactly when a record of the documented layout,
  with a matching checksum, stands at its front; it returns that record and its size. In
  particular a successful read never returns altered bytes unless the checksum collides.
\<close>

theorem decode_record_exact:
  "decode_record crc buf = Inr (r, n) \<longleftrightarrow>
     record_fits r \<and> n = encoded_size r \<and> take n buf = record_layout crc r"
  (is "?dec \<longleftrightarrow> ?enc")
proof
  assume dec: ?dec
  show ?enc using decode_record_Inr [OF dec] by simp
next
  assume enc: ?enc
  then have "buf = record_layout crc r @ drop n buf" by (metis append_take_drop_id)
  with enc show ?dec using decode_record_layout [of r crc "drop n buf"] by simp
qed

text \<open>
  The decoder panics, instead of returning an error, exactly on a buffer whose length
  field claims a body shorter than the fixed fields (below 40 bytes) under a checksum that
  matches: the slice \<open>&buf[48..total_size]\<close> then has its end before its start.
\<close>

theorem decode_record_panics_iff:
  "decode_record crc buf = Inl Panic \<longleftrightarrow>
     48 \<le> length buf \<and> unat (of_be32 (subslice buf 4 8)) < 40 \<and>
     of_be32 (subslice buf 0 4) = crc (subslice buf 4 (8 + unat (of_be32 (subslice buf 4 8))))"
  by (auto simp: decode_record_def RECORD_HEADER_SIZE_def Let_def)

end
