(* ===== verification/Disk.thy ===== *)
theory Disk
  imports Containers
begin

text \<open>
  The operating system's side of a data directory, as far as the server uses it: a flat
  directory of files (in \<open>read_dir\<close> order), positioned reads and writes, \<open>create_new\<close>,
  \<open>rename\<close>, \<open>remove_file\<close>, \<open>sync_data\<close>. Every call can fail: \<open>dk_faults\<close> lists the
  outcomes of the calls to come (once it is used up, calls succeed), and a failing write may
  have written a front part of its data. An open file is represented by its name; the server
  drops its handle of a file before it unlinks the file, so the difference is not observable.

  What a file holds (\<open>dk_files\<close>) survives the end of the process, but only what was synced
  (\<open>dk_synced\<close>: for a file, the length of its synced front part) is sure to survive a power
  failure. A file that was created, rewritten or renamed and not synced since has no such part.
\<close>

datatype io_error = IoFault | FileNotFound | AlreadyExists | UnexpectedEof

datatype io_outcome = IoOk | IoFail nat

record disk =
  dk_exists :: bool
  dk_files :: "(string, bytes) hash_map"
  dk_faults :: "io_outcome list"
  dk_synced :: "string \<rightharpoonup> nat"

definition next_outcome :: "disk \<Rightarrow> io_outcome \<times> disk" where
  "next_outcome d = (case dk_faults d of [] \<Rightarrow> (IoOk, d) | f # fs \<Rightarrow> (f, d\<lparr>dk_faults := fs\<rparr>))"

definition io_guard ::
  "(disk \<Rightarrow> (io_error + 'a) \<times> disk) \<Rightarrow> disk \<Rightarrow> (io_error + 'a) \<times> disk" where
  "io_guard f d =
     (case next_outcome d of (IoFail n, d') \<Rightarrow> (Inl IoFault, d') | (IoOk, d') \<Rightarrow> f d')"

definition put_file :: "string \<Rightarrow> bytes \<Rightarrow> disk \<Rightarrow> disk" where
  "put_file name content d =
     d\<lparr>dk_files := hm_insert name content (dk_files d), dk_synced := (dk_synced d)(name := None)\<rparr>"

definition io_create_dir_all :: "disk \<Rightarrow> (io_error + unit) \<times> disk" where
  "io_create_dir_all = io_guard (\<lambda>d. (Inr (), d\<lparr>dk_exists := True\<rparr>))"

definition io_read_dir :: "disk \<Rightarrow> (io_error + string list) \<times> disk" where
  "io_read_dir = io_guard (\<lambda>d. (Inr (hm_keys (dk_files d)), d))"

definition io_read :: "string \<Rightarrow> disk \<Rightarrow> (io_error + bytes) \<times> disk" where
  "io_read name = io_guard (\<lambda>d. (case hm_get (dk_files d) name of
      None \<Rightarrow> (Inl FileNotFound, d) | Some content \<Rightarrow> (Inr content, d)))"

definition io_file_len :: "string \<Rightarrow> disk \<Rightarrow> (io_error + nat) \<times> disk" where
  "io_file_len name = io_guard (\<lambda>d. (case hm_get (dk_files d) name of
      None \<Rightarrow> (Inl FileNotFound, d) | Some content \<Rightarrow> (Inr (length content), d)))"

definition io_open :: "string \<Rightarrow> disk \<Rightarrow> (io_error + string) \<times> disk" where
  "io_open name = io_guard (\<lambda>d. (case hm_get (dk_files d) name of
      None \<Rightarrow> (Inl FileNotFound, d) | Some _ \<Rightarrow> (Inr name, d)))"

definition io_create_new :: "string \<Rightarrow> disk \<Rightarrow> (io_error + string) \<times> disk" where
  "io_create_new name = io_guard (\<lambda>d. (case hm_get (dk_files d) name of
      Some _ \<Rightarrow> (Inl AlreadyExists, d) | None \<Rightarrow> (Inr name, put_file name [] d)))"

text \<open>Bytes written at an offset; a gap behind the end of the file reads as zeros.\<close>

definition write_at :: "bytes \<Rightarrow> nat \<Rightarrow> bytes \<Rightarrow> bytes" where
  "write_at content off src =
     take off (content @ replicate (off - length content) 0) @ src @ drop (off + length src) content"

definition write_file_at :: "string \<Rightarrow> nat \<Rightarrow> bytes \<Rightarrow> disk \<Rightarrow> disk" where
  "write_file_at name off src d =
     (case hm_get (dk_files d) name of
        None \<Rightarrow> d
      | Some content \<Rightarrow>
          d\<lparr>dk_files := hm_insert name (write_at content off src) (dk_files d),
            dk_synced := (dk_synced d)(name := map_option (min off) (dk_synced d name))\<rparr>)"

definition io_write_all_at :: "string \<Rightarrow> bytes \<Rightarrow> nat \<Rightarrow> disk \<Rightarrow> (io_error + unit) \<times> disk" where
  "io_write_all_at name src off d =
     (case next_outcome d of
        (IoFail n, d') \<Rightarrow> (Inl IoFault, write_file_at name off (take n src) d')
      | (IoOk, d') \<Rightarrow> (Inr (), write_file_at name off src d'))"

definition io_read_exact_at :: "string \<Rightarrow> nat \<Rightarrow> nat \<Rightarrow> disk \<Rightarrow> (io_error + bytes) \<times> disk" where
  "io_read_exact_at name off len = io_guard (\<lambda>d. (case hm_get (dk_files d) name of
      None \<Rightarrow> (Inl FileNotFound, d)
    | Some content \<Rightarrow>
        if length content < off + len then (Inl UnexpectedEof, d)
        else (Inr (subslice content off (off + len)), d)))"

definition io_sync_data :: "string \<Rightarrow> disk \<Rightarrow> (io_error + unit) \<times> disk" where
  "io_sync_data name = io_guard (\<lambda>d. (case hm_get (dk_files d) name of
      None \<Rightarrow> (Inr (), d)
    | Some content \<Rightarrow> (Inr (), d\<lparr>dk_synced := (dk_synced d)(name \<mapsto> length content)\<rparr>)))"

definition io_remove_file :: "string \<Rightarrow> disk \<Rightarrow> (io_error + unit) \<times> disk" where
  "io_remove_file name = io_guard (\<lambda>d. (case hm_get (dk_files d) name of
      None \<Rightarrow> (Inl FileNotFound, d)
    | Some _ \<Rightarrow> (Inr (), d\<lparr>dk_files := hm_remove name (dk_files d),
        dk_synced := (dk_synced d)(name := None)\<rparr>)))"

text \<open>\<open>std::fs::write\<close>: create or truncate, then write all; a failure leaves a front part.\<close>

definition io_write_file :: "string \<Rightarrow> bytes \<Rightarrow> disk \<Rightarrow> (io_error + unit) \<times> disk" where
  "io_write_file name content d =
     (case next_outcome d of
        (IoFail n, d') \<Rightarrow> (Inl IoFault, put_file name (take n content) d')
      | (IoOk, d') \<Rightarrow> (Inr (), put_file name content d'))"

definition io_rename :: "string \<Rightarrow> string \<Rightarrow> disk \<Rightarrow> (io_error + unit) \<times> disk" where
  "io_rename src dst = io_guard (\<lambda>d. (case hm_get (dk_files d) src of
      None \<Rightarrow> (Inl FileNotFound, d)
    | Some content \<Rightarrow>
        (Inr (), put_file dst content (d\<lparr>dk_files := hm_remove src (dk_files d),
           dk_synced := (dk_synced d)(src := None)\<rparr>))))"

text \<open>
  A power failure: of a file some front part is left, at least the synced one; a file without a
  synced part may be gone altogether. (The bytes of a file are taken to reach the disk in their
  order, and the name of a synced file to survive; names and removals of files are never synced
  by the program.) The end of the process alone leaves the files as they are, which is the case
  that nothing is lost.
\<close>

definition power_loss :: "disk \<Rightarrow> disk \<Rightarrow> bool" where
  "power_loss d d' =
     (hm_ok (dk_files d') \<and> dk_exists d' = dk_exists d \<and>
      (\<forall>name. case hm_get (dk_files d) name of
         None \<Rightarrow> hm_get (dk_files d') name = None
       | Some content \<Rightarrow>
           (dk_synced d name = None \<and> hm_get (dk_files d') name = None) \<or>
           (\<exists>n. (case dk_synced d name of None \<Rightarrow> True | Some m \<Rightarrow> m \<le> n) \<and>
              hm_get (dk_files d') name = Some (take n content))))"

subsection \<open>What the calls do\<close>

definition disk_ok :: "disk \<Rightarrow> bool" where
  "disk_ok d = hm_ok (dk_files d)"

definition disk_file :: "disk \<Rightarrow> string \<Rightarrow> bytes option" where
  "disk_file d name = hm_get (dk_files d) name"

lemma next_outcome_disk:
  "next_outcome d = (out, d') \<Longrightarrow> dk_files d' = dk_files d \<and> dk_exists d' = dk_exists d"
  by (auto simp: next_outcome_def split: list.splits)

lemma next_outcome_no_fault [simp]: "dk_faults d = [] \<Longrightarrow> next_outcome d = (IoOk, d)"
  by (simp add: next_outcome_def)

lemma io_guard_no_fault [simp]: "dk_faults d = [] \<Longrightarrow> io_guard f d = f d"
  by (simp add: io_guard_def)

lemma io_guard_Inr:
  "io_guard f d = (Inr a, d') \<longleftrightarrow> (\<exists>d1. next_outcome d = (IoOk, d1) \<and> f d1 = (Inr a, d'))"
  by (auto simp: io_guard_def split: prod.splits io_outcome.splits)

lemma put_file_simps [simp]:
  "dk_exists (put_file name c d) = dk_exists d" "dk_faults (put_file name c d) = dk_faults d"
  "disk_ok d \<Longrightarrow> disk_ok (put_file name c d)"
  "disk_ok d \<Longrightarrow> disk_file (put_file name c d) x = (if x = name then Some c else disk_file d x)"
  by (simp_all add: put_file_def disk_ok_def disk_file_def)

lemma write_at_end: "off = length content \<Longrightarrow> write_at content off src = content @ src"
  by (simp add: write_at_def)

lemma write_file_at_simps [simp]:
  "dk_exists (write_file_at name off src d) = dk_exists d"
  "dk_faults (write_file_at name off src d) = dk_faults d"
  "disk_ok d \<Longrightarrow> disk_ok (write_file_at name off src d)"
  "disk_ok d \<Longrightarrow> disk_file (write_file_at name off src d) x =
     (if x = name then map_option (\<lambda>c. write_at c off src) (disk_file d name)
      else disk_file d x)"
  by (auto simp: write_file_at_def disk_file_def disk_ok_def split: option.splits)

lemma power_loss_file:
  assumes "power_loss d d'"
  shows "disk_file d name = None \<Longrightarrow> disk_file d' name = None"
    and "disk_file d name = Some c \<Longrightarrow> dk_synced d name = Some m \<Longrightarrow> \<exists>n \<ge> m. disk_file d' name = Some (take n c)"
    and "disk_file d name = Some c \<Longrightarrow> disk_file d' name = None \<or> (\<exists>n. disk_file d' name = Some (take n c))"
    and "disk_ok d'" and "dk_exists d' = dk_exists d"
proof -
  have *: "case hm_get (dk_files d) name of
         None \<Rightarrow> hm_get (dk_files d') name = None
       | Some content \<Rightarrow>
           (dk_synced d name = None \<and> hm_get (dk_files d') name = None) \<or>
           (\<exists>n. (case dk_synced d name of None \<Rightarrow> True | Some m \<Rightarrow> m \<le> n) \<and>
              hm_get (dk_files d') name = Some (take n content))"
    and "disk_ok d'" "dk_exists d' = dk_exists d"
    using assms unfolding power_loss_def disk_ok_def by blast+
  then show "disk_ok d'" "dk_exists d' = dk_exists d" by simp_all
  show "disk_file d name = None \<Longrightarrow> disk_file d' name = None" using * by (simp add: disk_file_def)
  show "disk_file d name = Some c \<Longrightarrow> dk_synced d name = Some m \<Longrightarrow> \<exists>n \<ge> m. disk_file d' name = Some (take n c)"
    using * by (auto simp: disk_file_def)
  show "disk_file d name = Some c \<Longrightarrow> disk_file d' name = None \<or> (\<exists>n. disk_file d' name = Some (take n c))"
    using * by (auto simp: disk_file_def)
qed

text \<open>Two extreme cases: nothing is lost, as at the end of the process; or nothing was synced, and
  all is lost.\<close>

lemma nothing_lost:
  assumes "disk_ok d"
  shows "power_loss d (d\<lparr>dk_faults := fs, dk_synced := sy\<rparr>)"
proof -
  have "(case m of None \<Rightarrow> True | Some k \<Rightarrow> k \<le> max (length c) (case m of None \<Rightarrow> 0 | Some k \<Rightarrow> k)) \<and>
      c = take (max (length c) (case m of None \<Rightarrow> 0 | Some k \<Rightarrow> k)) c" for m and c :: bytes
    by (simp split: option.split)
  then have "\<exists>n. (case m of None \<Rightarrow> True | Some k \<Rightarrow> k \<le> n) \<and> c = take n c" for m and c :: bytes by blast
  with assms show ?thesis
    unfolding power_loss_def disk_ok_def by (auto split: option.split)
qed

lemma all_lost:
  "(\<And>name. disk_file d name \<noteq> None \<Longrightarrow> dk_synced d name = None) \<Longrightarrow>
   power_loss d \<lparr>dk_exists = dk_exists d, dk_files = [], dk_faults = fs, dk_synced = sy\<rparr>"
  by (auto simp: power_loss_def disk_file_def hm_ok_def hm_get_def split: option.split)

lemma one_file_lost:
  assumes "disk_ok d" and "dk_synced d name = None"
  shows "power_loss d (d\<lparr>dk_files := hm_remove name (dk_files d), dk_faults := fs, dk_synced := sy\<rparr>)"
proof -
  have "(case m of None \<Rightarrow> True | Some k \<Rightarrow> k \<le> max (length c) (case m of None \<Rightarrow> 0 | Some k \<Rightarrow> k)) \<and>
      c = take (max (length c) (case m of None \<Rightarrow> 0 | Some k \<Rightarrow> k)) c" for m and c :: bytes
    by (simp split: option.split)
  then have "\<exists>n. (case m of None \<Rightarrow> True | Some k \<Rightarrow> k \<le> n) \<and> c = take n c" for m and c :: bytes by blast
  with assms show ?thesis
    unfolding power_loss_def disk_ok_def by (auto split: option.split)
qed

text \<open>
  Two disks agree when only the schedule of faults differs: what a call that reads leaves
  behind.
\<close>

definition same_files :: "disk \<Rightarrow> disk \<Rightarrow> bool" where
  "same_files d d' = (dk_files d' = dk_files d \<and> dk_exists d' = dk_exists d)"

lemma same_files_refl [simp]: "same_files d d"
  by (simp add: same_files_def)

lemma same_files_trans: "same_files a b \<Longrightarrow> same_files b c \<Longrightarrow> same_files a c"
  by (simp add: same_files_def)

lemma same_files_facts:
  "same_files d d' \<Longrightarrow> disk_ok d' = disk_ok d"
  "same_files d d' \<Longrightarrow> disk_file d' = disk_file d"
  by (simp_all add: same_files_def disk_ok_def disk_file_def fun_eq_iff)

lemma next_outcome_same: "next_outcome d = (out, d') \<Longrightarrow> same_files d d'"
  by (auto dest: next_outcome_disk simp: same_files_def)

lemma sync_data_no_fault:
  "dk_faults d = [] \<Longrightarrow> \<exists>d'. io_sync_data name d = (Inr (), d') \<and> same_files d d' \<and> dk_faults d' = []"
  by (auto simp: io_sync_data_def same_files_def split: option.split)

lemma read_calls_same:
  "io_read_dir d = (r1, d') \<Longrightarrow> same_files d d'"
  "io_read name d = (r2, d') \<Longrightarrow> same_files d d'"
  "io_file_len name d = (r3, d') \<Longrightarrow> same_files d d'"
  "io_open name d = (r4, d') \<Longrightarrow> same_files d d'"
  "io_read_exact_at name off len d = (r5, d') \<Longrightarrow> same_files d d'"
  "io_sync_data name d = (r6, d') \<Longrightarrow> same_files d d'"
  by (auto simp: io_read_dir_def io_read_def io_file_len_def io_open_def io_read_exact_at_def
      io_sync_data_def io_guard_def same_files_def split: prod.splits io_outcome.splits option.splits if_splits
      dest: next_outcome_disk)

lemma read_calls_Inr:
  "io_read_dir d = (Inr names, d') \<Longrightarrow> names = hm_keys (dk_files d)"
  "io_read name d = (Inr c, d') \<Longrightarrow> disk_file d name = Some c"
  "io_file_len name d = (Inr n, d') \<Longrightarrow> \<exists>c. disk_file d name = Some c \<and> n = length c"
  "io_open name d = (Inr h, d') \<Longrightarrow> h = name \<and> disk_file d name \<noteq> None"
  "io_read_exact_at name off len d = (Inr bs, d') \<Longrightarrow>
     \<exists>c. disk_file d name = Some c \<and> off + len \<le> length c \<and> bs = subslice c off (off + len)"
  by (auto simp: io_read_dir_def io_read_def io_file_len_def io_open_def io_read_exact_at_def
      io_guard_def disk_file_def split: prod.splits io_outcome.splits option.splits if_splits
      dest: next_outcome_disk)

lemma io_create_new_Inr:
  "io_create_new name d = (Inr h, d') \<Longrightarrow>
     h = name \<and> disk_file d name = None \<and>
     (\<exists>d1. same_files d d1 \<and> d' = put_file name [] d1)"
  by (auto simp: io_create_new_def io_guard_def disk_file_def
      split: prod.splits io_outcome.splits option.splits dest: next_outcome_disk next_outcome_same)

lemma io_write_all_at_Inr:
  "io_write_all_at name src off d = (Inr u, d') \<Longrightarrow>
     \<exists>d1. same_files d d1 \<and> d' = write_file_at name off src d1"
  by (auto simp: io_write_all_at_def split: prod.splits io_outcome.splits dest: next_outcome_same)

lemma io_remove_file_Inr:
  "io_remove_file name d = (Inr u, d') \<Longrightarrow>
     dk_files d' = hm_remove name (dk_files d) \<and> dk_exists d' = dk_exists d"
  by (auto simp: io_remove_file_def io_guard_def
      split: prod.splits io_outcome.splits option.splits dest: next_outcome_disk)

end
