(* ===== verification/Segment.thy ===== *)
theory Segment
  imports Disk
begin

text \<open>
  Segment files (\<open>wal/segment.rs\<close>): their names \<open>{shard_id:04}_{segment_id:020}.wal\<close>,
  their 64-byte header, and the listing of the segments of a shard. A file name is a
  \<^typ>\<open>string\<close>; \<open>format!\<close>, \<open>strip_suffix\<close>, \<open>split_once\<close> and \<open>parse\<close> are modelled as
  the standard library documents them.
\<close>

subsection \<open>Decimal numbers\<close>

definition digit_char :: "nat \<Rightarrow> char" where
  "digit_char d = char_of (48 + d)"

fun dec_digits :: "nat \<Rightarrow> string" where
  "dec_digits n = (if n < 10 then [digit_char n] else dec_digits (n div 10) @ [digit_char (n mod 10)])"

declare dec_digits.simps [simp del]

text \<open>\<open>{:0w}\<close>: at least \<open>w\<close> characters, padded with zeros on the left.\<close>

definition format_padded :: "nat \<Rightarrow> nat \<Rightarrow> string" where
  "format_padded w n = replicate (w - length (dec_digits n)) (digit_char 0) @ dec_digits n"

definition digit_val :: "char \<Rightarrow> nat option" where
  "digit_val c = (let v = of_char c in if 48 \<le> v \<and> v < 58 then Some (v - 48) else None)"

fun parse_digits :: "nat \<Rightarrow> string \<Rightarrow> nat option" where
  "parse_digits acc [] = Some acc"
| "parse_digits acc (c # cs) =
     (case digit_val c of None \<Rightarrow> None | Some d \<Rightarrow> parse_digits (10 * acc + d) cs)"

text \<open>\<open>str::parse\<close> for an unsigned integer below \<open>bound\<close>: an optional plus sign, then at
  least one digit and nothing else; out of range is an error.\<close>

definition parse_unsigned :: "nat \<Rightarrow> string \<Rightarrow> nat option" where
  "parse_unsigned bound s =
     (let digits = (case s of [] \<Rightarrow> [] | c # cs \<Rightarrow> if c = CHR ''+'' then cs else s) in
      if digits = [] then None
      else case parse_digits 0 digits of
          None \<Rightarrow> None
        | Some n \<Rightarrow> if n < bound then Some n else None)"

definition strip_suffix :: "string \<Rightarrow> string \<Rightarrow> string option" where
  "strip_suffix suffix s =
     (let n = length s - length suffix in
      if length suffix \<le> length s \<and> drop n s = suffix then Some (take n s) else None)"

definition split_once :: "char \<Rightarrow> string \<Rightarrow> (string \<times> string) option" where
  "split_once c s =
     (case dropWhile (\<lambda>x. x \<noteq> c) s of
        [] \<Rightarrow> None | _ # rest \<Rightarrow> Some (takeWhile (\<lambda>x. x \<noteq> c) s, rest))"

subsection \<open>Names and headers\<close>

definition SEGMENT_MAGIC :: u32 where "SEGMENT_MAGIC = 0x57534547"
definition SEGMENT_HEADER_SIZE :: nat where "SEGMENT_HEADER_SIZE = 64"

definition segment_filename :: "u16 \<Rightarrow> u64 \<Rightarrow> string" where
  "segment_filename shard_id segment_id =
     format_padded 4 (unat shard_id) @ ''_'' @ format_padded 20 (unat segment_id) @ ''.wal''"

definition parse_segment_filename :: "string \<Rightarrow> (u16 \<times> u64) option" where
  "parse_segment_filename name =
     (case strip_suffix ''.wal'' name of
        None \<Rightarrow> None
      | Some name \<Rightarrow>
          (case split_once (CHR ''_'') name of
             None \<Rightarrow> None
           | Some (shard_str, lsn_str) \<Rightarrow>
               (case parse_unsigned (2 ^ 16) shard_str of
                  None \<Rightarrow> None
                | Some shard_id \<Rightarrow>
                    (case parse_unsigned (2 ^ 64) lsn_str of
                       None \<Rightarrow> None
                     | Some segment_id \<Rightarrow> Some (word_of_nat shard_id, word_of_nat segment_id)))))"

datatype segment_error = SegmentIo io_error | BadSegmentMagic u32 | BadSegmentVersion u8

definition encode_segment_header :: "u16 \<Rightarrow> u64 \<Rightarrow> u64 \<Rightarrow> bytes" where
  "encode_segment_header shard_id segment_id created_ts_ns =
     (let hdr = replicate 64 0;
          hdr = copy_at hdr 0 (be32 SEGMENT_MAGIC);
          hdr = hdr[4 := 1];
          hdr = copy_at hdr 5 (be16 shard_id);
          hdr = copy_at hdr 8 (be64 segment_id);
          hdr = copy_at hdr 16 (be64 created_ts_ns)
      in hdr)"

definition decode_segment_header :: "bytes \<Rightarrow> segment_error + (u16 \<times> u64 \<times> u64)" where
  "decode_segment_header hdr =
     (let magic = of_be32 (subslice hdr 0 4) in
      if magic \<noteq> SEGMENT_MAGIC then Inl (BadSegmentMagic magic)
      else let version = hdr ! 4 in
        if version \<noteq> 1 then Inl (BadSegmentVersion version)
        else Inr (of_be16 (subslice hdr 5 7), of_be64 (subslice hdr 8 16),
                  of_be64 (subslice hdr 16 24)))"

definition segments_of :: "u16 \<Rightarrow> string list \<Rightarrow> (u64 \<times> string) list" where
  "segments_of shard_id names =
     List.map_filter (\<lambda>name. case parse_segment_filename name of
         Some (sid, segment_id) \<Rightarrow> if sid = shard_id then Some (segment_id, name) else None
       | None \<Rightarrow> None) names"

definition list_segments :: "u16 \<Rightarrow> disk \<Rightarrow> (io_error + (u64 \<times> string) list) \<times> disk" where
  "list_segments shard_id d =
     (if \<not> dk_exists d then (Inr [], d)
      else and_then (io_read_dir d) (\<lambda>names d. (Inr (sort_key fst (segments_of shard_id names)), d)))"

subsection \<open>Decimal facts\<close>

lemma digit_val_digit_char [simp]: "d < 10 \<Longrightarrow> digit_val (digit_char d) = Some d"
  by (simp add: digit_val_def digit_char_def Let_def)

lemma parse_digits_append:
  "parse_digits acc (xs @ ys) =
     (case parse_digits acc xs of None \<Rightarrow> None | Some n \<Rightarrow> parse_digits n ys)"
  by (induction xs arbitrary: acc) (auto split: option.splits)

lemma parse_digits_zeros [simp]: "parse_digits 0 (replicate k (digit_char 0)) = Some 0"
  by (induction k) simp_all

lemma parse_dec_digits: "parse_digits 0 (dec_digits n) = Some n"
proof (induction n rule: dec_digits.induct)
  case (1 n)
  then show ?case
    by (cases "n < 10") (simp_all add: dec_digits.simps [of n] parse_digits_append)
qed

lemma parse_format_padded: "parse_digits 0 (format_padded w n) = Some n"
  by (simp add: format_padded_def parse_digits_append parse_dec_digits)

definition is_digit_char :: "char \<Rightarrow> bool" where
  "is_digit_char c = (digit_val c \<noteq> None)"

lemma digit_chars_dec: "list_all is_digit_char (dec_digits n)"
proof (induction n rule: dec_digits.induct)
  case (1 n)
  then show ?case
    by (cases "n < 10") (simp_all add: dec_digits.simps [of n] is_digit_char_def)
qed

lemma digit_chars_padded: "list_all is_digit_char (format_padded w n)"
  using digit_chars_dec [of n] by (auto simp: format_padded_def list_all_iff is_digit_char_def)

lemma dec_digits_nonempty: "dec_digits n \<noteq> []"
  by (subst dec_digits.simps) simp

lemma not_digit_chars: "\<not> is_digit_char (CHR ''_'')" "\<not> is_digit_char (CHR ''+'')"
  by (simp_all add: is_digit_char_def digit_val_def)

lemma parse_unsigned_padded:
  assumes "n < bound"
  shows "parse_unsigned bound (format_padded w n) = Some n"
proof -
  obtain c cs where s: "format_padded w n = c # cs"
    using dec_digits_nonempty [of n] by (cases "format_padded w n") (auto simp: format_padded_def)
  then have "c \<noteq> CHR ''+''"
    using digit_chars_padded [of w n] not_digit_chars by auto
  then show ?thesis
    using assms parse_format_padded [of w n] by (simp add: parse_unsigned_def s)
qed

lemma strip_suffix_append: "strip_suffix suffix (s @ suffix) = Some s"
  by (simp add: strip_suffix_def)

lemma split_once_first: "c \<notin> set xs \<Longrightarrow> split_once c (xs @ c # ys) = Some (xs, ys)"
proof -
  assume "c \<notin> set xs"
  then have "dropWhile (\<lambda>x. x \<noteq> c) (xs @ c # ys) = c # ys \<and>
      takeWhile (\<lambda>x. x \<noteq> c) (xs @ c # ys) = xs"
    by (induction xs) auto
  then show ?thesis by (simp add: split_once_def)
qed

lemma parse_segment_filename_roundtrip [simp]:
  "parse_segment_filename (segment_filename shard_id segment_id) = Some (shard_id, segment_id)"
proof -
  have "CHR ''_'' \<notin> set (format_padded 4 (unat shard_id))"
    using digit_chars_padded [of 4 "unat shard_id"] not_digit_chars by (auto simp: list_all_iff)
  then have split: "split_once (CHR ''_'') (format_padded 4 (unat shard_id) @ ''_'' @
      format_padded 20 (unat segment_id)) =
    Some (format_padded 4 (unat shard_id), format_padded 20 (unat segment_id))"
    using split_once_first by simp
  have strip: "strip_suffix ''.wal'' (segment_filename shard_id segment_id) =
    Some (format_padded 4 (unat shard_id) @ ''_'' @ format_padded 20 (unat segment_id))"
    using strip_suffix_append [of "''.wal''" "format_padded 4 (unat shard_id) @ ''_'' @
      format_padded 20 (unat segment_id)"] by (simp add: segment_filename_def)
  show ?thesis
    using unat_less_power [of shard_id] unat_less_power [of segment_id]
    by (simp add: parse_segment_filename_def split strip parse_unsigned_padded
        del: append.simps)
qed

lemma segment_filename_inject [simp]:
  "segment_filename s i = segment_filename t j \<longleftrightarrow> s = t \<and> i = j"
  by (metis parse_segment_filename_roundtrip prod.inject option.inject)

subsection \<open>Header facts\<close>

lemma encode_segment_header_layout:
  "encode_segment_header shard_id segment_id ts =
     be32 SEGMENT_MAGIC @ [1] @ be16 shard_id @ [0] @ be64 segment_id @ be64 ts @ replicate 40 0"
  by (simp add: encode_segment_header_def Let_def copy_at_append copy_at_0 list_update_append
      numeral_eq_Suc copy_at_def)

lemma length_segment_header [simp]: "length (encode_segment_header s i ts) = 64"
  by (simp add: encode_segment_header_layout)

lemma decode_segment_header_roundtrip [simp]:
  "decode_segment_header (encode_segment_header s i ts) = Inr (s, i, ts)"
  by (simp add: decode_segment_header_def encode_segment_header_layout byte_simps Let_def)

end
