(* ===== verification/WalIndex.thy ===== *)
theory WalIndex
  imports Containers
begin

text \<open>
  The in-memory index from (stream, stream LSN) to a place in a segment file
  (\<open>wal/index.rs\<close>): a \<open>HashMap\<close> of \<open>BTreeMap\<close>s. The two-level structure is shown to be
  one key-value map over pairs, which is all that recovery, reads and garbage collection
  rely on.
\<close>

record record_location =
  loc_segment_id :: u64
  loc_offset :: u64
  loc_size :: u32

record stream_log_index =
  idx_entries :: "(u64, (u64, record_location) btree_map) hash_map"

definition index_new :: stream_log_index where
  "index_new = \<lparr>idx_entries = []\<rparr>"

text \<open>The inner map of a stream; \<open>entry(..).or_default()\<close> makes an empty one.\<close>

definition index_stream :: "stream_log_index \<Rightarrow> u64 \<Rightarrow> (u64, record_location) btree_map" where
  "index_stream idx sid = (case hm_get (idx_entries idx) sid of Some m \<Rightarrow> m | None \<Rightarrow> [])"

definition index_insert ::
  "u64 \<Rightarrow> u64 \<Rightarrow> record_location \<Rightarrow> stream_log_index \<Rightarrow> stream_log_index" where
  "index_insert sid lsn loc idx =
     idx\<lparr>idx_entries := hm_insert sid (bt_insert lsn loc (index_stream idx sid)) (idx_entries idx)\<rparr>"

definition index_lookup :: "stream_log_index \<Rightarrow> u64 \<Rightarrow> u64 \<Rightarrow> record_location option" where
  "index_lookup idx sid lsn =
     (case hm_get (idx_entries idx) sid of None \<Rightarrow> None | Some m \<Rightarrow> bt_get m lsn)"

definition truncate_stream_before :: "u64 \<Rightarrow> u64 \<Rightarrow> stream_log_index \<Rightarrow> stream_log_index" where
  "truncate_stream_before sid lsn idx =
     (case hm_get (idx_entries idx) sid of
        None \<Rightarrow> idx
      | Some entries \<Rightarrow>
          let keep = snd (bt_split_off lsn entries)
          in idx\<lparr>idx_entries := hm_insert sid keep (idx_entries idx)\<rparr>)"

definition index_len :: "stream_log_index \<Rightarrow> nat" where
  "index_len idx = sum_list (map length (hm_values (idx_entries idx)))"

definition index_is_empty :: "stream_log_index \<Rightarrow> bool" where
  "index_is_empty idx = list_all (\<lambda>m. m = []) (hm_values (idx_entries idx))"

definition index_stream_len :: "stream_log_index \<Rightarrow> u64 \<Rightarrow> nat" where
  "index_stream_len idx sid =
     (case hm_get (idx_entries idx) sid of None \<Rightarrow> 0 | Some m \<Rightarrow> length m)"

definition live_segment_ids :: "stream_log_index \<Rightarrow> u64 set" where
  "live_segment_ids idx =
     set (concat (map (\<lambda>m. map (\<lambda>e. loc_segment_id (snd e)) m) (hm_values (idx_entries idx))))"

subsection \<open>Well-formedness and the map view\<close>

definition index_ok :: "stream_log_index \<Rightarrow> bool" where
  "index_ok idx =
     (hm_ok (idx_entries idx) \<and> (\<forall>sid m. hm_get (idx_entries idx) sid = Some m \<longrightarrow> bt_ok m))"

definition index_keys :: "stream_log_index \<Rightarrow> (u64 \<times> u64) list" where
  "index_keys idx = concat (map (\<lambda>(sid, m). map (Pair sid) (bt_keys m)) (idx_entries idx))"

lemma index_okD:
  assumes "index_ok idx"
  shows "hm_ok (idx_entries idx)" and "bt_ok (index_stream idx sid)"
  using assms by (auto simp: index_ok_def index_stream_def split: option.splits)

lemma index_ok_new [simp]: "index_ok index_new" and index_lookup_new [simp]: "index_lookup index_new s l = None"
  by (simp_all add: index_ok_def index_new_def index_lookup_def)

lemma index_ok_insert [inv_intros]:
  assumes "index_ok idx" shows "index_ok (index_insert sid lsn loc idx)"
  using index_okD [OF assms] assms by (auto simp: index_ok_def index_insert_def split: if_splits)

lemma index_lookup_insert [simp]:
  assumes "index_ok idx"
  shows "index_lookup (index_insert sid lsn loc idx) s l =
    (if s = sid \<and> l = lsn then Some loc else index_lookup idx s l)"
  using index_okD [OF assms]
  by (auto simp: index_lookup_def index_insert_def index_stream_def split: option.splits)

lemma index_ok_truncate [inv_intros]:
  assumes "index_ok idx" shows "index_ok (truncate_stream_before sid lsn idx)"
  using assms by (auto simp: index_ok_def truncate_stream_before_def Let_def
      split: option.splits if_splits)

lemma index_lookup_truncate [simp]:
  assumes "index_ok idx"
  shows "index_lookup (truncate_stream_before sid lsn idx) s l =
    (if s = sid \<and> l < lsn then None else index_lookup idx s l)"
  using assms by (auto simp: index_ok_def index_lookup_def truncate_stream_before_def Let_def
      split: option.splits)

lemma index_lookup_in_entries:
  assumes "index_ok idx"
  shows "index_lookup idx sid lsn = Some loc \<longleftrightarrow>
    (\<exists>m. (sid, m) \<in> set (idx_entries idx) \<and> (lsn, loc) \<in> set m)"
proof -
  have mem: "(sid, m) \<in> set (idx_entries idx) \<longleftrightarrow> hm_get (idx_entries idx) sid = Some m" for m
    using assms by (simp add: index_ok_def hm_get_in_set)
  have "bt_get m lsn = Some loc \<longleftrightarrow> (lsn, loc) \<in> set m" if "hm_get (idx_entries idx) sid = Some m" for m
    using assms that bt_ok_distinct [of m] by (simp add: index_ok_def bt_get_def)
  with mem show ?thesis
    by (cases "hm_get (idx_entries idx) sid") (simp_all add: index_lookup_def)
qed

lemma live_segment_ids_iff:
  assumes "index_ok idx"
  shows "g \<in> live_segment_ids idx \<longleftrightarrow>
    (\<exists>sid lsn loc. index_lookup idx sid lsn = Some loc \<and> loc_segment_id loc = g)"
  by (force simp: live_segment_ids_def hm_values_def index_lookup_in_entries [OF assms])

lemma distinct_index_keys:
  assumes "index_ok idx" shows "distinct (index_keys idx)"
proof -
  have "distinct (concat (map (\<lambda>(sid, m). map (Pair sid) (bt_keys m)) es))"
    if "distinct (map fst es)" "\<forall>(sid, m) \<in> set es. bt_ok m" for es :: "(u64 \<times> (u64 \<times> record_location) list) list"
    using that
  proof (induction es)
    case (Cons e es)
    then have "distinct (map (Pair (fst e)) (bt_keys (snd e)))"
      using btree.distinct_keys [of "snd e"] by (auto simp: distinct_map inj_on_def split: prod.splits)
    with Cons show ?case by (force split: prod.splits)
  qed simp
  moreover have "distinct (map fst (idx_entries idx))" "\<forall>(sid, m) \<in> set (idx_entries idx). bt_ok m"
    using assms by (auto simp: index_ok_def hm_get_in_set hm_ok_def)
  ultimately show ?thesis by (simp add: index_keys_def)
qed

lemma set_index_keys:
  assumes "index_ok idx"
  shows "(s, l) \<in> set (index_keys idx) \<longleftrightarrow> index_lookup idx s l \<noteq> None"
proof -
  have "(s, l) \<in> set (index_keys idx) \<longleftrightarrow>
      (\<exists>m loc. (s, m) \<in> set (idx_entries idx) \<and> (l, loc) \<in> set m)"
    by (force simp: index_keys_def bt_keys_def)
  then show ?thesis using index_lookup_in_entries [OF assms, of s l] by auto
qed

definition index_get :: "stream_log_index \<Rightarrow> u64 \<times> u64 \<Rightarrow> record_location option" where
  "index_get idx k = index_lookup idx (fst k) (snd k)"

definition index_put :: "u64 \<times> u64 \<Rightarrow> record_location \<Rightarrow> stream_log_index \<Rightarrow> stream_log_index" where
  "index_put k loc idx = index_insert (fst k) (snd k) loc idx"

interpretation index_map: kv_map index_get index_put index_keys index_ok
proof unfold_locales
  fix idx :: stream_log_index and k :: "u64 \<times> u64"
  assume "index_ok idx"
  then show "k \<in> set (index_keys idx) \<longleftrightarrow> index_get idx k \<noteq> None"
    using set_index_keys [of idx "fst k" "snd k"] by (simp add: index_get_def)
qed (auto simp: index_get_def index_put_def distinct_index_keys intro: index_ok_insert)

lemma index_len_keys: "index_len idx = length (index_keys idx)"
  by (simp add: index_len_def index_keys_def hm_values_def bt_keys_def length_concat comp_def
      case_prod_beta)

end
