(* ===== verification/StreamState.thy ===== *)
theory StreamState
  imports Containers
begin

text \<open>
  The per-stream state table (\<open>shard/stream_state.rs\<close>): the epoch fence, the allocation and
  commit positions, the consumption watermark, and the tail cache of recent records; and its
  snapshot. A \<open>&mut\<close> obtained by \<open>ensure_stream\<close> is written back with \<open>put_stream\<close>.
\<close>

subsection \<open>Data\<close>

record tail_record =
  tr_stream_lsn :: u64
  tr_entry_id :: u64
  tr_payload :: bytes

record stream_replica_state =
  sr_stream_id :: u64
  sr_max_epoch :: u64
  sr_next_stream_lsn :: u64
  sr_commit_stream_lsn :: u64
  sr_consumed_stream_lsn :: u64
  sr_last_entry_id :: u64
  sr_tail_cache :: "tail_record list"

record stream_status =
  ss_stream_id :: u64
  ss_max_epoch :: u64
  ss_next_stream_lsn :: u64
  ss_commit_stream_lsn :: u64
  ss_consumed_stream_lsn :: u64
  ss_last_entry_id :: u64

datatype epoch_fence_error = Stale u64 u64

record stream_state_table =
  st_streams :: "(u64, stream_replica_state) hash_map"
  st_tail_cache_limit :: nat

definition replica_new :: "u64 \<Rightarrow> stream_replica_state" where
  "replica_new sid =
     \<lparr>sr_stream_id = sid, sr_max_epoch = 0, sr_next_stream_lsn = 0, sr_commit_stream_lsn = 0,
      sr_consumed_stream_lsn = 0, sr_last_entry_id = 0, sr_tail_cache = []\<rparr>"

definition table_new :: "nat \<Rightarrow> stream_state_table" where
  "table_new limit = \<lparr>st_streams = [], st_tail_cache_limit = limit\<rparr>"

subsection \<open>Operations\<close>

definition ensure_stream :: "u64 \<Rightarrow> stream_state_table \<Rightarrow> stream_replica_state" where
  "ensure_stream sid t =
     (case hm_get (st_streams t) sid of Some st \<Rightarrow> st | None \<Rightarrow> replica_new sid)"

definition put_stream ::
  "u64 \<Rightarrow> stream_replica_state \<Rightarrow> stream_state_table \<Rightarrow> stream_state_table" where
  "put_stream sid st t = t\<lparr>st_streams := hm_insert sid st (st_streams t)\<rparr>"

definition allocate_append ::
  "u64 \<Rightarrow> u64 \<Rightarrow> stream_state_table \<Rightarrow> (epoch_fence_error + u64) \<times> stream_state_table" where
  "allocate_append sid epoch t =
     (let st = ensure_stream sid t; stream_lsn = sr_next_stream_lsn st in
      if epoch < sr_max_epoch st
      then (Inl (Stale (sr_max_epoch st) epoch), put_stream sid st t)
      else (Inr stream_lsn,
            put_stream sid (st\<lparr>sr_max_epoch := epoch,
                               sr_next_stream_lsn := sr_next_stream_lsn st + 1\<rparr>) t))"

definition saturating_add :: "u64 \<Rightarrow> u64 \<Rightarrow> u64" where
  "saturating_add a b = (if unat a + unat b < 2 ^ 64 then a + b else - 1)"

definition rollback_uncommitted_append ::
  "u64 \<Rightarrow> u64 \<Rightarrow> stream_state_table \<Rightarrow> stream_state_table" where
  "rollback_uncommitted_append sid stream_lsn t =
     (case hm_get (st_streams t) sid of
        None \<Rightarrow> t
      | Some st \<Rightarrow>
          let expected_next = saturating_add stream_lsn 1 in
          if sr_next_stream_lsn st = expected_next \<and> sr_commit_stream_lsn st \<le> stream_lsn
          then put_stream sid (st\<lparr>sr_next_stream_lsn := stream_lsn\<rparr>) t
          else t)"

text \<open>\<open>while tail_cache.len() > limit { pop_front }\<close>\<close>

fun trim_front :: "nat \<Rightarrow> 'a list \<Rightarrow> 'a list" where
  "trim_front limit [] = []"
| "trim_front limit (x # xs) =
     (if length (x # xs) > limit then trim_front limit xs else x # xs)"

definition mark_appended ::
  "u64 \<Rightarrow> u64 \<Rightarrow> u64 \<Rightarrow> u64 \<Rightarrow> bytes \<Rightarrow> stream_state_table \<Rightarrow> stream_state_table" where
  "mark_appended sid epoch entry_id stream_lsn payload t =
     (let tail_cache_limit = st_tail_cache_limit t;
          st = ensure_stream sid t;
          st = st\<lparr>sr_max_epoch := max (sr_max_epoch st) epoch\<rparr>;
          st = st\<lparr>sr_last_entry_id := max (sr_last_entry_id st) entry_id\<rparr>;
          st = st\<lparr>sr_next_stream_lsn := max (sr_next_stream_lsn st) (stream_lsn + 1)\<rparr>;
          cache = sr_tail_cache st @
            [\<lparr>tr_stream_lsn = stream_lsn, tr_entry_id = entry_id, tr_payload = payload\<rparr>]
      in put_stream sid (st\<lparr>sr_tail_cache := trim_front tail_cache_limit cache\<rparr>) t)"

definition mark_committed :: "u64 \<Rightarrow> u64 \<Rightarrow> u64 \<Rightarrow> stream_state_table \<Rightarrow> stream_state_table" where
  "mark_committed sid entry_id stream_lsn t =
     (let st = ensure_stream sid t;
          st = st\<lparr>sr_last_entry_id := max (sr_last_entry_id st) entry_id\<rparr>;
          st = st\<lparr>sr_commit_stream_lsn := max (sr_commit_stream_lsn st) (stream_lsn + 1)\<rparr>
      in put_stream sid st t)"

definition advance_consumed ::
  "u64 \<Rightarrow> u64 \<Rightarrow> stream_state_table \<Rightarrow> u64 \<times> stream_state_table" where
  "advance_consumed sid consumed t =
     (let st = ensure_stream sid t;
          st = st\<lparr>sr_consumed_stream_lsn := max (sr_consumed_stream_lsn st) consumed\<rparr>;
          st = st\<lparr>sr_tail_cache :=
            dropWhile (\<lambda>r. tr_stream_lsn r < sr_consumed_stream_lsn st) (sr_tail_cache st)\<rparr>
      in (sr_consumed_stream_lsn st, put_stream sid st t))"

definition read_from_tail :: "u64 \<Rightarrow> u64 \<Rightarrow> stream_state_table \<Rightarrow> tail_record option" where
  "read_from_tail sid stream_lsn t =
     (case hm_get (st_streams t) sid of
        None \<Rightarrow> None
      | Some st \<Rightarrow> List.find (\<lambda>r. tr_stream_lsn r = stream_lsn) (sr_tail_cache st))"

definition observe_recovered ::
  "u64 \<Rightarrow> u64 \<Rightarrow> u64 \<Rightarrow> u64 \<Rightarrow> bytes \<Rightarrow> stream_state_table \<Rightarrow> stream_state_table" where
  "observe_recovered sid epoch entry_id stream_lsn payload t =
     (let tail_cache_limit = st_tail_cache_limit t;
          st = ensure_stream sid t;
          st = st\<lparr>sr_max_epoch := max (sr_max_epoch st) epoch\<rparr>;
          st = st\<lparr>sr_last_entry_id := max (sr_last_entry_id st) entry_id\<rparr>;
          st = st\<lparr>sr_next_stream_lsn := max (sr_next_stream_lsn st) (stream_lsn + 1)\<rparr>;
          st = st\<lparr>sr_commit_stream_lsn := max (sr_commit_stream_lsn st) (stream_lsn + 1)\<rparr>;
          cache = sr_tail_cache st @
            [\<lparr>tr_stream_lsn = stream_lsn, tr_entry_id = entry_id, tr_payload = payload\<rparr>]
      in put_stream sid (st\<lparr>sr_tail_cache := trim_front tail_cache_limit cache\<rparr>) t)"

definition status_of :: "stream_replica_state \<Rightarrow> stream_status" where
  "status_of st =
     \<lparr>ss_stream_id = sr_stream_id st, ss_max_epoch = sr_max_epoch st,
      ss_next_stream_lsn = sr_next_stream_lsn st, ss_commit_stream_lsn = sr_commit_stream_lsn st,
      ss_consumed_stream_lsn = sr_consumed_stream_lsn st, ss_last_entry_id = sr_last_entry_id st\<rparr>"

definition stream_status :: "u64 \<Rightarrow> stream_state_table \<Rightarrow> stream_status option" where
  "stream_status sid t = map_option status_of (hm_get (st_streams t) sid)"

definition current_epoch :: "u64 \<Rightarrow> stream_state_table \<Rightarrow> u64" where
  "current_epoch sid t =
     (case map_option sr_max_epoch (hm_get (st_streams t) sid) of Some e \<Rightarrow> e | None \<Rightarrow> 0)"

definition all_statuses :: "stream_state_table \<Rightarrow> stream_status list" where
  "all_statuses t = map status_of (hm_values (st_streams t))"

definition max_entry_id :: "stream_state_table \<Rightarrow> u64 option" where
  "max_entry_id t =
     (case map sr_last_entry_id (hm_values (st_streams t)) of
        [] \<Rightarrow> None | x # xs \<Rightarrow> Some (fold max xs x))"

definition table_len :: "stream_state_table \<Rightarrow> nat" where
  "table_len t = length (st_streams t)"

subsection \<open>Snapshots\<close>

datatype snapshot_error = SnapshotTooSmall | SnapshotTruncated

definition encode_status :: "stream_status \<Rightarrow> bytes" where
  "encode_status s =
     be64 (ss_stream_id s) @ be64 (ss_max_epoch s) @ be64 (ss_next_stream_lsn s) @
     be64 (ss_commit_stream_lsn s) @ be64 (ss_consumed_stream_lsn s) @ be64 (ss_last_entry_id s)"

definition encode_snapshot :: "stream_state_table \<Rightarrow> bytes" where
  "encode_snapshot t =
     (let statuses = all_statuses t
      in be32 (word_of_nat (length statuses)) @ concat (map encode_status statuses))"

text \<open>The loop over the entries; the cursor is the length of what has been dropped.\<close>

primrec decode_entries ::
  "nat \<Rightarrow> bytes \<Rightarrow> nat \<Rightarrow> (u64, stream_replica_state) hash_map \<Rightarrow>
   snapshot_error + (u64, stream_replica_state) hash_map" where
  "decode_entries 0 buf cursor streams = Inr streams"
| "decode_entries (Suc n) buf cursor streams =
     (if length buf < cursor + 48 then Inl SnapshotTruncated
      else let sid = of_be64 (subslice buf cursor (cursor + 8));
               max_epoch = of_be64 (subslice buf (cursor + 8) (cursor + 16));
               next_stream_lsn = of_be64 (subslice buf (cursor + 16) (cursor + 24));
               commit_stream_lsn = of_be64 (subslice buf (cursor + 24) (cursor + 32));
               consumed_stream_lsn = of_be64 (subslice buf (cursor + 32) (cursor + 40));
               last_entry_id = of_be64 (subslice buf (cursor + 40) (cursor + 48))
        in decode_entries n buf (cursor + 48)
             (hm_insert sid
                \<lparr>sr_stream_id = sid, sr_max_epoch = max_epoch,
                 sr_next_stream_lsn = next_stream_lsn, sr_commit_stream_lsn = commit_stream_lsn,
                 sr_consumed_stream_lsn = consumed_stream_lsn, sr_last_entry_id = last_entry_id,
                 sr_tail_cache = []\<rparr> streams))"

definition decode_snapshot :: "nat \<Rightarrow> bytes \<Rightarrow> snapshot_error + stream_state_table" where
  "decode_snapshot tail_cache_limit buf =
     (if buf = [] then Inr (table_new tail_cache_limit)
      else if length buf < 4 then Inl SnapshotTooSmall
      else let count = unat (of_be32 (subslice buf 0 4)) in
        (case decode_entries count buf 4 [] of
           Inl e \<Rightarrow> Inl e
         | Inr streams \<Rightarrow>
             Inr \<lparr>st_streams = streams, st_tail_cache_limit = tail_cache_limit\<rparr>))"

subsection \<open>The table as a function of the stream\<close>

text \<open>
  Every operation rewrites the state of one stream. \<open>ensure_stream x\<close> is the total view of
  stream \<open>x\<close>, fresh if the table does not know it, and the lemmas below are the effect of
  each operation on that view.
\<close>

definition table_ok :: "stream_state_table \<Rightarrow> bool" where
  "table_ok t =
     (hm_ok (st_streams t) \<and>
      (\<forall>sid st. hm_get (st_streams t) sid = Some st \<longrightarrow>
         sr_stream_id st = sid \<and> sr_commit_stream_lsn st \<le> sr_next_stream_lsn st \<and>
         length (sr_tail_cache st) \<le> st_tail_cache_limit t))"

lemma table_ok_new [simp]: "table_ok (table_new limit)"
  by (simp add: table_ok_def table_new_def)

lemma table_okD:
  assumes "table_ok t"
  shows "hm_ok (st_streams t)" and "sr_stream_id (ensure_stream sid t) = sid"
    and "sr_commit_stream_lsn (ensure_stream sid t) \<le> sr_next_stream_lsn (ensure_stream sid t)"
    and "length (sr_tail_cache (ensure_stream sid t)) \<le> st_tail_cache_limit t"
  using assms by (auto simp: table_ok_def ensure_stream_def replica_new_def split: option.splits)

lemma put_stream_simps [simp]:
  "st_tail_cache_limit (put_stream sid st t) = st_tail_cache_limit t"
  "hm_ok (st_streams t) \<Longrightarrow> hm_ok (st_streams (put_stream sid st t))"
  "hm_ok (st_streams t) \<Longrightarrow>
     hm_get (st_streams (put_stream sid st t)) x =
       (if x = sid then Some st else hm_get (st_streams t) x)"
  "hm_ok (st_streams t) \<Longrightarrow>
     ensure_stream x (put_stream sid st t) = (if x = sid then st else ensure_stream x t)"
  by (simp_all add: put_stream_def ensure_stream_def)

lemma table_ok_put:
  assumes "table_ok t" and "sr_stream_id st = sid" and "sr_commit_stream_lsn st \<le> sr_next_stream_lsn st"
    and "length (sr_tail_cache st) \<le> st_tail_cache_limit t"
  shows "table_ok (put_stream sid st t)"
  using assms by (auto simp: table_ok_def)

lemma current_epoch_ensure: "current_epoch sid t = sr_max_epoch (ensure_stream sid t)"
  by (simp add: current_epoch_def ensure_stream_def replica_new_def split: option.splits)

lemma trim_front_drop: "trim_front limit xs = drop (length xs - limit) xs"
  by (induction xs) (auto simp: Suc_diff_le not_less_eq_eq)

lemma length_trim_front: "length (trim_front limit xs) \<le> limit"
  by (simp add: trim_front_drop)

lemma table_ok_allocate [inv_intros]:
  assumes "table_ok t" and "unat (sr_next_stream_lsn (ensure_stream sid t)) + 1 < 2 ^ 64"
  shows "table_ok (snd (allocate_append sid epoch t))"
proof -
  note st = table_okD [OF assms(1)]
  have "sr_next_stream_lsn (ensure_stream sid t) \<le> sr_next_stream_lsn (ensure_stream sid t) + 1"
    using assms(2) by (simp add: word_le_nat_alt unat_word_ariths)
  then show ?thesis
    using st(2-4) [of sid] unfolding allocate_append_def Let_def
    by (auto intro!: table_ok_put [OF assms(1)] intro: order_trans)
qed

lemma table_ok_rollback [inv_intros]:
  "table_ok t \<Longrightarrow> table_ok (rollback_uncommitted_append sid lsn t)"
  unfolding rollback_uncommitted_append_def Let_def
  by (auto simp: table_ok_def split: option.splits if_splits)

lemma table_ok_advance [inv_intros]:
  assumes "table_ok t"
  shows "table_ok (snd (advance_consumed sid consumed t))"
  using table_okD(2-4) [OF assms, of sid] unfolding advance_consumed_def Let_def
  by (auto intro!: table_ok_put [OF assms] order_trans [OF length_dropWhile_le])

text \<open>Recovery marks a record exactly as applying it does: as appended and as committed.\<close>

lemma observe_recovered_applied:
  assumes "hm_ok (st_streams t)"
  shows "observe_recovered sid epoch entry lsn payload t =
    mark_committed sid entry lsn (mark_appended sid epoch entry lsn payload t)"
proof -
  have insert_twice: "hm_insert k v (hm_insert k w m) = hm_insert k v m" for k v w and m :: "('a, 'b) hash_map"
    by (induction m) auto
  show ?thesis
    using assms by (simp add: observe_recovered_def mark_committed_def mark_appended_def Let_def)
      (cases "ensure_stream sid t", simp add: put_stream_def insert_twice)
qed

lemma table_ok_observe [inv_intros]:
  assumes "table_ok t"
  shows "table_ok (observe_recovered sid epoch entry lsn payload t)"
  using table_okD(2-4) [OF assms, of sid] length_trim_front unfolding observe_recovered_def Let_def
  by (intro table_ok_put [OF assms]) (auto simp: le_max_iff_disj)

lemma table_ok_applied [inv_intros]:
  "table_ok t \<Longrightarrow>
   table_ok (mark_committed sid entry lsn (mark_appended sid epoch entry lsn payload t))"
  using table_ok_observe observe_recovered_applied table_okD(1) by metis

lemma ensure_observe:
  assumes "hm_ok (st_streams t)"
  shows "ensure_stream x (observe_recovered sid epoch entry lsn payload t) =
    (if x \<noteq> sid then ensure_stream x t
     else let st = ensure_stream sid t in
       st\<lparr>sr_max_epoch := max (sr_max_epoch st) epoch,
          sr_next_stream_lsn := max (sr_next_stream_lsn st) (lsn + 1),
          sr_commit_stream_lsn := max (sr_commit_stream_lsn st) (lsn + 1),
          sr_last_entry_id := max (sr_last_entry_id st) entry,
          sr_tail_cache := trim_front (st_tail_cache_limit t) (sr_tail_cache st @
            [\<lparr>tr_stream_lsn = lsn, tr_entry_id = entry, tr_payload = payload\<rparr>])\<rparr>)"
  using assms by (cases "ensure_stream sid t") (simp add: observe_recovered_def Let_def)

lemma ensure_allocate:
  assumes "hm_ok (st_streams t)"
  shows "ensure_stream x (snd (allocate_append sid epoch t)) =
    (if x = sid \<and> \<not> epoch < sr_max_epoch (ensure_stream sid t)
     then (ensure_stream sid t)\<lparr>sr_max_epoch := epoch,
            sr_next_stream_lsn := sr_next_stream_lsn (ensure_stream sid t) + 1\<rparr>
     else ensure_stream x t)"
  using assms by (auto simp: allocate_append_def Let_def)

lemma fst_allocate:
  "fst (allocate_append sid epoch t) =
    (if epoch < sr_max_epoch (ensure_stream sid t)
     then Inl (Stale (sr_max_epoch (ensure_stream sid t)) epoch)
     else Inr (sr_next_stream_lsn (ensure_stream sid t)))"
  by (simp add: allocate_append_def Let_def)

lemma ensure_rollback:
  assumes "hm_ok (st_streams t)"
  shows "sr_max_epoch (ensure_stream x (rollback_uncommitted_append sid lsn t)) =
      sr_max_epoch (ensure_stream x t)"
  using assms by (auto simp: rollback_uncommitted_append_def Let_def ensure_stream_def
      split: option.splits)

lemma ensure_advance:
  assumes "hm_ok (st_streams t)"
  shows "ensure_stream x (snd (advance_consumed sid consumed t)) =
    (if x \<noteq> sid then ensure_stream x t
     else let st = ensure_stream sid t; c = max (sr_consumed_stream_lsn st) consumed in
       st\<lparr>sr_consumed_stream_lsn := c,
          sr_tail_cache := dropWhile (\<lambda>r. tr_stream_lsn r < c) (sr_tail_cache st)\<rparr>)"
  using assms by (simp add: advance_consumed_def Let_def)

lemma hm_ok_table_ops [simp]:
  assumes "hm_ok (st_streams t)"
  shows "hm_ok (st_streams (snd (allocate_append sid epoch t)))"
    and "hm_ok (st_streams (rollback_uncommitted_append sid lsn t))"
    and "hm_ok (st_streams (observe_recovered sid epoch entry lsn payload t))"
    and "hm_ok (st_streams (snd (advance_consumed sid consumed t)))"
    and "hm_ok (st_streams (mark_appended sid epoch entry lsn payload t))"
    and "hm_ok (st_streams (mark_committed sid entry lsn t))"
  using assms by (auto simp: allocate_append_def rollback_uncommitted_append_def
      observe_recovered_def advance_consumed_def mark_appended_def mark_committed_def Let_def
      split: option.splits)

subsection \<open>Histories of calls\<close>

text \<open>The calls a shard makes on its table, a record being applied or recovered as one call.\<close>

datatype table_call =
  Allocate u64 u64
| Rollback u64 u64
| Applied u64 u64 u64 u64 bytes
| Consume u64 u64

fun table_step :: "table_call \<Rightarrow> stream_state_table \<Rightarrow> stream_state_table" where
  "table_step (Allocate sid epoch) t = snd (allocate_append sid epoch t)"
| "table_step (Rollback sid lsn) t = rollback_uncommitted_append sid lsn t"
| "table_step (Applied sid epoch entry lsn payload) t =
     mark_committed sid entry lsn (mark_appended sid epoch entry lsn payload t)"
| "table_step (Consume sid lsn) t = snd (advance_consumed sid lsn t)"

lemma hm_ok_table_step: "hm_ok (st_streams t) \<Longrightarrow> hm_ok (st_streams (table_step c t))"
  by (cases c) simp_all

lemma max_epoch_step:
  assumes "hm_ok (st_streams t)"
  shows "sr_max_epoch (ensure_stream x t) \<le> sr_max_epoch (ensure_stream x (table_step c t))"
  using assms by (cases c) (auto simp: ensure_allocate ensure_rollback ensure_advance
      observe_recovered_applied [symmetric] ensure_observe Let_def)

lemma max_epoch_history:
  "hm_ok (st_streams t) \<Longrightarrow>
   sr_max_epoch (ensure_stream x t) \<le> sr_max_epoch (ensure_stream x (fold table_step calls t))"
proof (induction calls arbitrary: t)
  case (Cons c calls)
  show ?case
    using max_epoch_step [OF Cons.prems] Cons.IH [OF hm_ok_table_step [OF Cons.prems]]
    by (auto intro: order_trans)
qed simp

lemma hm_ok_history: "hm_ok (st_streams t) \<Longrightarrow> hm_ok (st_streams (fold table_step calls t))"
  by (induction calls arbitrary: t) (auto simp: hm_ok_table_step)

text \<open>
  Epoch fencing over whole histories. Once an append of stream \<open>sid\<close> was admitted at
  epoch \<open>e\<close>, then after any further calls on the table (allocations, rollbacks, applied
  records, acknowledgements, of any stream) an append with a smaller epoch is refused, the
  refusal names an epoch of at least \<open>e\<close>, and the refused call changes no stream's state.
\<close>

theorem epoch_fence_history:
  assumes "hm_ok (st_streams t)"
    and "allocate_append sid e t = (Inr lsn, t1)"
    and "e' < e"
  shows "\<exists>cur. fst (allocate_append sid e' (fold table_step calls t1)) = Inl (Stale cur e') \<and>
      e \<le> cur \<and>
      (\<forall>x. ensure_stream x (snd (allocate_append sid e' (fold table_step calls t1))) =
           ensure_stream x (fold table_step calls t1))"
proof -
  define t2 where "t2 = fold table_step calls t1"
  have t1: "t1 = snd (allocate_append sid e t)" using assms(2) by simp
  have ok1: "hm_ok (st_streams t1)" using assms(1) t1 by simp
  have "\<not> e < sr_max_epoch (ensure_stream sid t)"
    using assms(2) fst_allocate [of sid e t] by (auto split: if_splits)
  then have "sr_max_epoch (ensure_stream sid t1) = e"
    using ensure_allocate [OF assms(1), of sid sid e] t1 by simp
  then have "e \<le> sr_max_epoch (ensure_stream sid t2)"
    using max_epoch_history [OF ok1, of sid calls] by (simp add: t2_def)
  moreover from this have "e' < sr_max_epoch (ensure_stream sid t2)"
    using assms(3) by order
  moreover have "hm_ok (st_streams t2)" using hm_ok_history [OF ok1] by (simp add: t2_def)
  ultimately show ?thesis
    unfolding t2_def [symmetric] by (simp add: fst_allocate ensure_allocate)
qed

lemma epoch_fence_history_witness:
  "\<exists>cur. fst (allocate_append 7 3 (fold table_step [Consume 7 1, Applied 7 4 9 0 [1]]
      (snd (allocate_append 7 5 (table_new 2))))) = Inl (Stale cur 3) \<and> 5 \<le> cur"
proof -
  let ?t1 = "snd (allocate_append 7 5 (table_new 2))"
  have "allocate_append 7 5 (table_new 2) = (Inr 0, ?t1)"
    by (simp add: table_new_def allocate_append_def ensure_stream_def replica_new_def Let_def)
  from epoch_fence_history [OF _ this, of 3 "[Consume 7 1, Applied 7 4 9 0 [1]]"]
  show ?thesis by (auto simp: table_new_def)
qed

text \<open>Allocations of several streams, one after the other, with the answers.\<close>

primrec allocate_all ::
  "(u64 \<times> u64) list \<Rightarrow> stream_state_table \<Rightarrow>
   (u64 \<times> (epoch_fence_error + u64)) list \<times> stream_state_table" where
  "allocate_all [] t = ([], t)"
| "allocate_all (r # rs) t =
     (case allocate_append (fst r) (snd r) t of (res, t1) \<Rightarrow>
        case allocate_all rs t1 of (ress, t2) \<Rightarrow> ((fst r, res) # ress, t2))"

definition allocated_lsns :: "u64 \<Rightarrow> (u64 \<times> (epoch_fence_error + u64)) list \<Rightarrow> u64 list" where
  "allocated_lsns sid ress =
     List.map_filter (\<lambda>(s, res). if s = sid then (case res of Inr l \<Rightarrow> Some l | Inl _ \<Rightarrow> None)
       else None) ress"

lemma count_up_Suc:
  "map (\<lambda>i. n + word_of_nat i) [0..<Suc k] = n # map (\<lambda>i. n + 1 + word_of_nat i) [0..<k]"
  for n :: u64
proof -
  have "map (\<lambda>i. n + word_of_nat i) [0..<Suc k] = n # map (\<lambda>i. n + word_of_nat i) [Suc 0..<Suc k]"
    by (simp add: upt_conv_Cons del: upt_Suc)
  also have "map (\<lambda>i. n + word_of_nat i) [Suc 0..<Suc k] = map (\<lambda>i. n + 1 + word_of_nat i) [0..<k]"
    by (simp add: map_Suc_upt [symmetric] comp_def add.assoc del: upt_Suc)
  finally show ?thesis .
qed

text \<open>
  The stream LSNs handed out for one stream form a gapless sequence that starts at the
  stream's next LSN, whatever is allocated for other streams in between and however many
  stale requests are refused in between; no LSN is skipped or handed out twice (up to the
  \<open>2^64\<close> wrap), and the table's next LSN is the one behind the sequence.
\<close>

theorem allocations_gapless:
  assumes "hm_ok (st_streams t)"
  shows "allocated_lsns sid (fst (allocate_all rs t)) =
      map (\<lambda>i. sr_next_stream_lsn (ensure_stream sid t) + word_of_nat i)
        [0..<length (allocated_lsns sid (fst (allocate_all rs t)))] \<and>
    sr_next_stream_lsn (ensure_stream sid (snd (allocate_all rs t))) =
      sr_next_stream_lsn (ensure_stream sid t) +
      word_of_nat (length (allocated_lsns sid (fst (allocate_all rs t))))"
  using assms
proof (induction rs arbitrary: t)
  case Nil
  show ?case by (simp add: allocated_lsns_def map_filter_simps)
next
  case (Cons r rs)
  obtain res t1 where alloc: "allocate_append (fst r) (snd r) t = (res, t1)" by fastforce
  have t1: "t1 = snd (allocate_append (fst r) (snd r) t)" using alloc by simp
  have res: "res = fst (allocate_append (fst r) (snd r) t)" using alloc by simp
  have "hm_ok (st_streams t1)" using Cons.prems t1 by simp
  note IH = Cons.IH [OF this]
  show ?case
  proof (cases "fst r = sid \<and> \<not> snd r < sr_max_epoch (ensure_stream sid t)")
    case True
    then have "sr_next_stream_lsn (ensure_stream sid t1) =
        sr_next_stream_lsn (ensure_stream sid t) + 1"
      and "res = Inr (sr_next_stream_lsn (ensure_stream sid t))"
      using ensure_allocate [OF Cons.prems] t1 res fst_allocate by auto
    then have next1: "sr_next_stream_lsn (ensure_stream sid t1) =
        sr_next_stream_lsn (ensure_stream sid t) + 1"
      and lsns: "allocated_lsns sid (fst (allocate_all (r # rs) t)) =
        sr_next_stream_lsn (ensure_stream sid t) # allocated_lsns sid (fst (allocate_all rs t1))"
      and end_t: "snd (allocate_all (r # rs) t) = snd (allocate_all rs t1)"
      using True alloc by (simp_all add: allocated_lsns_def map_filter_simps case_prod_beta)
    show ?thesis
      using IH unfolding lsns end_t next1 list.size count_up_Suc
      by (simp add: count_up_Suc add.assoc del: upt_Suc)
  next
    case False
    then have "ensure_stream sid t1 = ensure_stream sid t"
      and "fst r = sid \<Longrightarrow> \<exists>e. res = Inl e"
      using ensure_allocate [OF Cons.prems] t1 res fst_allocate by auto
    with IH alloc show ?thesis
      by (auto simp: allocated_lsns_def map_filter_simps case_prod_beta)
  qed
qed

lemma allocations_gapless_witness:
  "allocated_lsns 7 (fst (allocate_all [(7, 2), (8, 1), (7, 1), (7, 2)] (table_new 4))) =
     map (\<lambda>i. 0 + word_of_nat i) [0..<2]"
proof -
  have "length (allocated_lsns 7 (fst (allocate_all [(7, 2), (8, 1), (7, 1), (7, 2)] (table_new 4)))) = 2"
    by (simp add: allocated_lsns_def map_filter_simps allocate_append_def ensure_stream_def
        table_new_def replica_new_def put_stream_def hm_get_def Let_def)
  then show ?thesis
    using allocations_gapless [of "table_new 4" 7 "[(7, 2), (8, 1), (7, 1), (7, 2)]"]
    by (simp add: ensure_stream_def table_new_def replica_new_def hm_get_def)
qed

subsection \<open>The snapshot round trip\<close>

definition restored :: "stream_status \<Rightarrow> stream_replica_state" where
  "restored s =
     \<lparr>sr_stream_id = ss_stream_id s, sr_max_epoch = ss_max_epoch s,
      sr_next_stream_lsn = ss_next_stream_lsn s, sr_commit_stream_lsn = ss_commit_stream_lsn s,
      sr_consumed_stream_lsn = ss_consumed_stream_lsn s, sr_last_entry_id = ss_last_entry_id s,
      sr_tail_cache = []\<rparr>"

lemma status_of_restored [simp]: "status_of (restored s) = s"
  by (simp add: status_of_def restored_def)

lemma length_encode_status [simp]: "length (encode_status s) = 48"
  by (simp add: encode_status_def)

lemma length_encode_snapshot: "length (encode_snapshot t) = 4 + 48 * length (st_streams t)"
proof -
  have "length (concat (map encode_status ss)) = 48 * length ss" for ss
    by (induction ss) simp_all
  moreover have "length (all_statuses t) = length (st_streams t)"
    by (simp add: all_statuses_def hm_values_def)
  ultimately show ?thesis by (simp add: encode_snapshot_def Let_def)
qed

lemma decode_entries_encoded:
  "length pre = cursor \<Longrightarrow>
   decode_entries (length ss) (pre @ concat (map encode_status ss) @ rest) cursor m =
     Inr (fold (\<lambda>(k, v). hm_insert k v) (map (\<lambda>s. (ss_stream_id s, restored s)) ss) m)"
proof (induction ss arbitrary: pre cursor m)
  case (Cons s ss)
  have "decode_entries (length ss) ((pre @ encode_status s) @ concat (map encode_status ss) @ rest)
      (cursor + 48) (hm_insert (ss_stream_id s) (restored s) m) =
    Inr (fold (\<lambda>(k, v). hm_insert k v) (map (\<lambda>s. (ss_stream_id s, restored s)) ss)
      (hm_insert (ss_stream_id s) (restored s) m))"
    using Cons.prems by (intro Cons.IH) simp
  then show ?case
    using Cons.prems by (simp add: encode_status_def [of s] byte_simps Let_def restored_def)
qed simp

lemma decode_entries_short:
  "length buf < cursor + 48 * n \<Longrightarrow> 0 < n \<Longrightarrow> decode_entries n buf cursor m = Inl SnapshotTruncated"
proof (induction n arbitrary: cursor m)
  case (Suc n)
  then show ?case by (cases "n = 0") (auto simp: Let_def)
qed simp

lemma map_of_rev_distinct: "distinct (map fst kvs) \<Longrightarrow> map_of (rev kvs) = map_of kvs"
  by (intro map_of_inject_set [THEN iffD2]) (simp_all add: rev_map [symmetric])

text \<open>
  C32: A snapshot restores every stream: decoding the encoding of a well-formed table gives a
  table in which each stream has the status it had (identity, epoch fence, next, committed and
  consumed LSN, last entry), no other stream exists, the given cache limit is set and every
  tail cache is empty. This holds for every iteration order of the hash map.
\<close>

theorem snapshot_roundtrip:
  assumes "table_ok t" and "length (st_streams t) < 2 ^ 32"
  shows "\<exists>t'. decode_snapshot limit (encode_snapshot t) = Inr t' \<and>
      (\<forall>sid. stream_status sid t' = stream_status sid t) \<and>
      (\<forall>sid. sr_tail_cache (ensure_stream sid t') = []) \<and>
      st_tail_cache_limit t' = limit \<and> table_ok t'"
proof -
  define kvs where "kvs = map (\<lambda>s. (ss_stream_id s, restored s)) (all_statuses t)"
  define m where "m = fold (\<lambda>(k, v). hm_insert k v) kvs []"
  have kvs: "kvs = map (\<lambda>(k, st). (k, restored (status_of st))) (st_streams t)"
    using assms(1) by (auto simp: kvs_def all_statuses_def hm_values_def status_of_def table_ok_def
        hm_get_in_set)
  have distinct: "distinct (map fst kvs)"
    using assms(1) by (simp add: kvs table_ok_def hm_ok_def comp_def case_prod_beta)
  have get: "hm_get m sid = map_option (\<lambda>st. restored (status_of st)) (hm_get (st_streams t) sid)" for sid
    unfolding m_def using hash.get_fold_put [of "[]" kvs sid] map_of_rev_distinct [OF distinct]
    by (simp add: kvs hm_get_def map_of_map option.case_eq_if)
  have ok: "hm_ok m" unfolding m_def by (rule hash.ok_fold_put) simp
  have n: "length (all_statuses t) = length (st_streams t)"
    by (simp add: all_statuses_def hm_values_def)
  have "decode_snapshot limit (encode_snapshot t) =
      Inr \<lparr>st_streams = m, st_tail_cache_limit = limit\<rparr>"
    using decode_entries_encoded [of "be32 (word_of_nat (length (all_statuses t)))" 4
        "all_statuses t" "[]" "[]"] assms(2) length_encode_snapshot [of t]
    by (auto simp: decode_snapshot_def encode_snapshot_def Let_def m_def kvs_def n)
  moreover have "table_ok \<lparr>st_streams = m, st_tail_cache_limit = limit\<rparr>"
    using assms(1) ok get by (auto simp: table_ok_def restored_def status_of_def)
  moreover have "stream_status sid \<lparr>st_streams = m, st_tail_cache_limit = limit\<rparr> =
      stream_status sid t" for sid
    by (simp add: stream_status_def get option.map_comp comp_def)
  moreover have "sr_tail_cache (ensure_stream sid
      \<lparr>st_streams = m, st_tail_cache_limit = limit\<rparr>) = []" for sid
    by (auto simp: ensure_stream_def get restored_def replica_new_def split: option.splits)
  ultimately show ?thesis by simp
qed

text \<open>A table with two streams, a fence, a watermark and a cached record.\<close>

definition demo_table :: stream_state_table where
  "demo_table = fold table_step
     [Applied 7 3 11 0 [97], Applied 9 1 12 0 [98], Consume 7 1] (table_new 2)"

lemma table_ok_step:
  assumes "table_ok t" and "\<And>sid epoch. c = Allocate sid epoch \<Longrightarrow>
      unat (sr_next_stream_lsn (ensure_stream sid t)) + 1 < 2 ^ 64"
  shows "table_ok (table_step c t)"
  using assms by (cases c) (simp_all add: table_ok_allocate table_ok_rollback table_ok_applied
      table_ok_advance)

lemma demo_table_ok: "table_ok demo_table"
  unfolding demo_table_def by (simp add: table_ok_applied table_ok_advance)

lemma snapshot_roundtrip_witness:
  "\<exists>t'. decode_snapshot 5 (encode_snapshot demo_table) = Inr t' \<and>
     (\<forall>sid. stream_status sid t' = stream_status sid demo_table)"
proof -
  have "length (st_streams demo_table) < 2 ^ 32"
    by (simp add: demo_table_def table_new_def mark_appended_def mark_committed_def
        advance_consumed_def ensure_stream_def put_stream_def hm_get_def Let_def)
  from snapshot_roundtrip [OF demo_table_ok this, of 5] show ?thesis by blast
qed

text \<open>
  A snapshot cut short is never mistaken for a smaller one: every proper, non-empty front
  part of an encoded table is refused with an error.
\<close>

theorem snapshot_truncation_detected:
  assumes "length (st_streams t) < 2 ^ 32" and "0 < k" and "k < length (encode_snapshot t)"
  shows "\<exists>e. decode_snapshot limit (take k (encode_snapshot t)) = Inl e"
proof (cases "k < 4")
  case True
  with assms(2,3) show ?thesis by (auto simp: decode_snapshot_def)
next
  case False
  have n: "length (all_statuses t) = length (st_streams t)"
    by (simp add: all_statuses_def hm_values_def)
  have "take 4 (take k (encode_snapshot t)) = be32 (word_of_nat (length (st_streams t)))"
    using False by (simp add: encode_snapshot_def Let_def n min_def)
  moreover have "decode_entries (length (st_streams t)) (take k (encode_snapshot t)) 4 [] =
      Inl SnapshotTruncated"
    using assms(3) False by (intro decode_entries_short) (auto simp: length_encode_snapshot)
  ultimately show ?thesis
    using assms False by (auto simp: decode_snapshot_def Let_def)
qed

lemma snapshot_truncation_detected_witness:
  "\<exists>e. decode_snapshot 5 (take 70 (encode_snapshot demo_table)) = Inl e"
proof -
  have "length (st_streams demo_table) = 2"
    by (simp add: demo_table_def table_new_def mark_appended_def mark_committed_def
        advance_consumed_def ensure_stream_def put_stream_def hm_get_def Let_def)
  then show ?thesis
    by (intro snapshot_truncation_detected) (simp_all add: length_encode_snapshot)
qed

subsection \<open>The tail cache\<close>

lemma find_drop_snoc:
  "k \<le> length xs \<Longrightarrow> P y \<Longrightarrow> (\<And>x. x \<in> set xs \<Longrightarrow> \<not> P x) \<Longrightarrow>
   List.find P (drop k (xs @ [y])) = Some y"
proof -
  assume k: "k \<le> length xs" and y: "P y" and none: "\<And>x. x \<in> set xs \<Longrightarrow> \<not> P x"
  have "List.find P (zs @ [y]) = Some y" if "\<And>x. x \<in> set zs \<Longrightarrow> \<not> P x" for zs
    using that y by (induction zs) auto
  then show ?thesis using k none by (simp add: in_set_dropD)
qed

lemma read_from_tail_ensure:
  "read_from_tail sid lsn t =
     List.find (\<lambda>r. tr_stream_lsn r = lsn) (sr_tail_cache (ensure_stream sid t))"
  by (simp add: read_from_tail_def ensure_stream_def replica_new_def split: option.splits)

lemma read_from_tail_Some:
  "read_from_tail sid lsn t = Some r \<Longrightarrow>
   r \<in> set (sr_tail_cache (ensure_stream sid t)) \<and> tr_stream_lsn r = lsn"
  by (auto simp: read_from_tail_ensure find_Some_iff)

end
