(* ===== verification/Writer.thy ===== *)
theory Writer
  imports WalRecord Segment WalIndex StreamState
begin

text \<open>
  The WAL writer of a shard (\<open>wal/writer.rs\<close>): opening a directory (the replay of every
  segment into the index and the stream table), appending, syncing and rotating. The data
  directory is the disk of theory \<open>Disk\<close>, so the path fields are left out; the clock is an
  argument (\<open>now\<close> for a record, \<open>seg_now\<close> for the header of a segment made on the way).

  The abstract content of a directory, its log, is in theory \<open>WalLog\<close>. Additions wrap, as in
  a release build.
\<close>

datatype wal_writer_error = WriterIo io_error | WriterSegment segment_error

record pending_write =
  pw_connection_id :: u64
  pw_stream_id :: u64
  pw_epoch :: u64
  pw_log_index :: u64
  pw_raft_term :: u64
  pw_stream_lsn :: u64
  pw_location :: record_location
  pw_payload :: bytes

record wal_writer =
  ww_shard_id :: u16
  ww_current_file :: string
  ww_current_segment_id :: u64
  ww_current_offset :: u64
  ww_next_entry_id :: u64
  ww_next_segment_id :: u64
  ww_max_segment_bytes :: u64

abbreviation writer_io :: "(io_error + 'a) \<times> disk \<Rightarrow> (wal_writer_error fault + 'a) \<times> disk" where
  "writer_io \<equiv> map_err (Err \<circ> WriterIo)"

subsection \<open>Writing\<close>

definition create_segment ::
  "u64 \<Rightarrow> u16 \<Rightarrow> u64 \<Rightarrow> disk \<Rightarrow> (wal_writer_error fault + string) \<times> disk" where
  "create_segment seg_now shard_id segment_id d =
     and_then (writer_io (io_create_new (segment_filename shard_id segment_id) d)) (\<lambda>file d.
     and_then (writer_io (io_write_all_at file
       (encode_segment_header shard_id segment_id seg_now) 0 d)) (\<lambda>_ d.
     (Inr file, d)))"

definition writer_sync :: "wal_writer \<Rightarrow> disk \<Rightarrow> (wal_writer_error fault + unit) \<times> disk" where
  "writer_sync w d = writer_io (io_sync_data (ww_current_file w) d)"

definition rotate_segment ::
  "u64 \<Rightarrow> wal_writer \<times> disk \<Rightarrow> (wal_writer_error fault + unit) \<times> wal_writer \<times> disk" where
  "rotate_segment seg_now = (\<lambda>(w, d).
     and_then (beside w (writer_sync w d)) (\<lambda>_ (w, d).
       let new_segment_id = ww_next_segment_id w in
       and_then (beside w (create_segment seg_now (ww_shard_id w) new_segment_id d))
         (\<lambda>file (w, d).
           (Inr (), w\<lparr>ww_next_segment_id := ww_next_segment_id w + 1,
                      ww_current_file := file,
                      ww_current_segment_id := new_segment_id,
                      ww_current_offset := of_nat SEGMENT_HEADER_SIZE\<rparr>, d))))"

definition append_with_log_index ::
  "(bytes \<Rightarrow> u32) \<Rightarrow> u64 \<Rightarrow> u64 \<Rightarrow> u64 \<Rightarrow> u64 \<Rightarrow> u64 \<Rightarrow> u64 \<Rightarrow> bytes \<Rightarrow> wal_writer \<times> disk \<Rightarrow>
   (wal_writer_error fault + u64 \<times> record_location) \<times> wal_writer \<times> disk" where
  "append_with_log_index crc now seg_now sid epoch lsn entry_id payload = (\<lambda>(w, d).
     let w = w\<lparr>ww_next_entry_id := max (ww_next_entry_id w) (entry_id + 1)\<rparr>;
         rec = \<lparr>wr_stream_id = sid, wr_epoch = epoch, wr_entry_id = entry_id,
                wr_stream_lsn = lsn, wr_timestamp_ns = now, wr_payload = payload\<rparr>
     in case encode_to_vec crc rec of
          None \<Rightarrow> (Inl Panic, w, d)
        | Some data \<Rightarrow>
            let offset = ww_current_offset w in
            and_then (beside w (writer_io
              (io_write_all_at (ww_current_file w) data (unat offset) d))) (\<lambda>_ (w, d).
              let loc = \<lparr>loc_segment_id = ww_current_segment_id w, loc_offset = offset,
                         loc_size = of_nat (encoded_size rec)\<rparr>;
                  w = w\<lparr>ww_current_offset := ww_current_offset w + of_nat (encoded_size rec)\<rparr>
              in and_then
                   (if ww_max_segment_bytes w \<le> ww_current_offset w then rotate_segment seg_now (w, d)
                    else (Inr (), w, d))
                   (\<lambda>_ wd. (Inr (entry_id, loc), wd))))"

definition writer_append ::
  "(bytes \<Rightarrow> u32) \<Rightarrow> u64 \<Rightarrow> u64 \<Rightarrow> u64 \<Rightarrow> u64 \<Rightarrow> u64 \<Rightarrow> bytes \<Rightarrow> wal_writer \<times> disk \<Rightarrow>
   (wal_writer_error fault + u64 \<times> record_location) \<times> wal_writer \<times> disk" where
  "writer_append crc now seg_now sid epoch lsn payload = (\<lambda>(w, d).
     let entry_id = ww_next_entry_id w;
         w = w\<lparr>ww_next_entry_id := ww_next_entry_id w + 1\<rparr>
     in append_with_log_index crc now seg_now sid epoch lsn entry_id payload (w, d))"

definition last_entry_id :: "wal_writer \<Rightarrow> u64 option" where
  "last_entry_id w = (if ww_next_entry_id w = 0 then None else Some (ww_next_entry_id w - 1))"

lemma writer_sync_calm:
  "dk_faults d = [] \<Longrightarrow> \<exists>d'. writer_sync w d = (Inr (), d') \<and> same_files d d' \<and> dk_faults d' = []"
  using sync_data_no_fault [of d "ww_current_file w"] by (auto simp: writer_sync_def)

subsection \<open>Opening\<close>

record replay_state =
  rp_next_entry_id :: u64
  rp_index :: stream_log_index
  rp_streams :: stream_state_table

definition replay_record ::
  "u64 \<Rightarrow> record_location \<Rightarrow> wal_record \<Rightarrow> replay_state \<Rightarrow> replay_state" where
  "replay_record replay_from loc r s =
     s\<lparr>rp_next_entry_id :=
         (if rp_next_entry_id s \<le> wr_entry_id r then wr_entry_id r + 1 else rp_next_entry_id s),
       rp_index := index_insert (wr_stream_id r) (wr_stream_lsn r) loc (rp_index s),
       rp_streams :=
         (if replay_from < wr_entry_id r
          then observe_recovered (wr_stream_id r) (wr_epoch r) (wr_entry_id r) (wr_stream_lsn r)
                 (wr_payload r) (rp_streams s)
          else rp_streams s)\<rparr>"

function replay_records ::
  "(bytes \<Rightarrow> u32) \<Rightarrow> u64 \<Rightarrow> u64 \<Rightarrow> bytes \<Rightarrow> nat \<Rightarrow> replay_state \<Rightarrow>
   wal_writer_error fault + replay_state" where
  "replay_records crc replay_from segment_id data offset s =
     (if offset < length data then
        (case decode_record crc (drop offset data) of
           Inr (r, consumed) \<Rightarrow>
             replay_records crc replay_from segment_id data (offset + consumed)
               (replay_record replay_from
                  \<lparr>loc_segment_id = segment_id, loc_offset = of_nat offset,
                   loc_size = of_nat consumed\<rparr> r s)
         | Inl (Err _) \<Rightarrow> Inr s
         | Inl Panic \<Rightarrow> Inl Panic)
      else Inr s)"
  by pat_completeness auto
termination
proof (relation "measure (\<lambda>(crc, from, seg, data, offset, s). length data - offset)")
qed (auto dest!: decode_record_Inr(1) simp: encoded_size_def RECORD_HEADER_SIZE_def)

declare replay_records.simps [simp del]

definition replay_segment ::
  "(bytes \<Rightarrow> u32) \<Rightarrow> u64 \<Rightarrow> u64 \<times> string \<Rightarrow> replay_state \<Rightarrow> disk \<Rightarrow>
   (wal_writer_error fault + replay_state) \<times> disk" where
  "replay_segment crc replay_from seg s d =
     and_then (writer_io (io_read (snd seg) d)) (\<lambda>data d.
       if length data < SEGMENT_HEADER_SIZE then (Inr s, d)
       else (case decode_segment_header (take SEGMENT_HEADER_SIZE data) of
               Inl e \<Rightarrow> (Inl (Err (WriterSegment e)), d)
             | Inr _ \<Rightarrow> (replay_records crc replay_from (fst seg) data SEGMENT_HEADER_SIZE s, d)))"

primrec replay_segments ::
  "(bytes \<Rightarrow> u32) \<Rightarrow> u64 \<Rightarrow> (u64 \<times> string) list \<Rightarrow> replay_state \<Rightarrow> disk \<Rightarrow>
   (wal_writer_error fault + replay_state) \<times> disk" where
  "replay_segments crc replay_from [] s d = (Inr s, d)"
| "replay_segments crc replay_from (seg # segs) s d =
     and_then (replay_segment crc replay_from seg s d)
       (\<lambda>s d. replay_segments crc replay_from segs s d)"

definition writer_open ::
  "(bytes \<Rightarrow> u32) \<Rightarrow> u64 \<Rightarrow> u16 \<Rightarrow> u64 \<Rightarrow> nat \<Rightarrow> stream_state_table option \<Rightarrow> u64 \<Rightarrow> disk \<Rightarrow>
   (wal_writer_error fault + wal_writer \<times> stream_log_index \<times> stream_state_table) \<times> disk" where
  "writer_open crc seg_now shard_id max_segment_bytes tail_cache_entries recovered_streams
       replay_from d =
     and_then (writer_io (io_create_dir_all d)) (\<lambda>_ d.
     let streams = (case recovered_streams of Some t \<Rightarrow> t | None \<Rightarrow> table_new tail_cache_entries) in
     and_then (writer_io (list_segments shard_id d)) (\<lambda>segments d.
     let next_segment_id = (if segments = [] then 0 else fst (last segments) + 1) in
     and_then (replay_segments crc replay_from segments
         \<lparr>rp_next_entry_id = 0, rp_index = index_new, rp_streams = streams\<rparr> d) (\<lambda>s d.
     and_then
       (if segments \<noteq> [] then
          and_then (writer_io (io_file_len (snd (last segments)) d)) (\<lambda>len d.
          and_then (writer_io (io_open (snd (last segments)) d)) (\<lambda>file d.
          (Inr (fst (last segments), file, of_nat len, next_segment_id), d)))
        else
          and_then (create_segment seg_now shard_id next_segment_id d) (\<lambda>file d.
          (Inr (next_segment_id, file, of_nat SEGMENT_HEADER_SIZE, next_segment_id + 1), d)))
       (\<lambda>(segment_id, file, seg_offset, next_segment_id) d.
          (Inr (\<lparr>ww_shard_id = shard_id, ww_current_file = file,
                 ww_current_segment_id = segment_id, ww_current_offset = seg_offset,
                 ww_next_entry_id = rp_next_entry_id s, ww_next_segment_id = next_segment_id,
                 ww_max_segment_bytes = max_segment_bytes\<rparr>, rp_index s, rp_streams s), d)))))"

end
