(* ===== verification/WalLog.thy ===== *)
theory WalLog
  imports Writer
begin

text \<open>
  The log that the segment files of a shard stand for, and the proof that the writer of
  theory \<open>Writer\<close> implements it: an append adds one record to the log (rotation is
  invisible), opening a directory folds over the log, and what a crash leaves behind the last
  complete record is ignored.

  A segment of the log is an id, a creation time, the records and a dead tail: bytes behind
  the last record that no decoder accepts, as a torn write leaves them.
\<close>

record segment =
  sg_id :: u64
  sg_created :: u64
  sg_records :: "wal_record list"
  sg_tail :: bytes

definition dead_tail :: "(bytes \<Rightarrow> u32) \<Rightarrow> bytes \<Rightarrow> bool" where
  "dead_tail crc t = (t = [] \<or> (\<exists>e. decode_record crc t = Inl (Err e)))"

definition records_bytes :: "(bytes \<Rightarrow> u32) \<Rightarrow> wal_record list \<Rightarrow> bytes" where
  "records_bytes crc rs = concat (map (record_layout crc) rs)"

definition segment_bytes :: "(bytes \<Rightarrow> u32) \<Rightarrow> u16 \<Rightarrow> segment \<Rightarrow> bytes" where
  "segment_bytes crc shard s =
     encode_segment_header shard (sg_id s) (sg_created s) @ records_bytes crc (sg_records s) @ sg_tail s"

definition segment_fits :: "(bytes \<Rightarrow> u32) \<Rightarrow> segment \<Rightarrow> bool" where
  "segment_fits crc s = (list_all record_fits (sg_records s) \<and> dead_tail crc (sg_tail s))"

text \<open>Where the records of a segment are.\<close>

primrec locate :: "u64 \<Rightarrow> nat \<Rightarrow> wal_record list \<Rightarrow> (record_location \<times> wal_record) list" where
  "locate g off [] = []"
| "locate g off (r # rs) =
     (\<lparr>loc_segment_id = g, loc_offset = of_nat off, loc_size = of_nat (encoded_size r)\<rparr>, r) #
     locate g (off + encoded_size r) rs"

definition segment_log :: "segment \<Rightarrow> (record_location \<times> wal_record) list" where
  "segment_log s = locate (sg_id s) SEGMENT_HEADER_SIZE (sg_records s)"

definition wal_log :: "segment list \<Rightarrow> (record_location \<times> wal_record) list" where
  "wal_log segs = concat (map segment_log segs)"

definition replay_log ::
  "u64 \<Rightarrow> (record_location \<times> wal_record) list \<Rightarrow> replay_state \<Rightarrow> replay_state" where
  "replay_log from l = fold (\<lambda>(loc, r). replay_record from loc r) l"

definition replay_init :: "stream_state_table \<Rightarrow> replay_state" where
  "replay_init t = \<lparr>rp_next_entry_id = 0, rp_index = index_new, rp_streams = t\<rparr>"

text \<open>A directory holds the segments of a shard: exactly these files, with these contents.\<close>

definition stores :: "(bytes \<Rightarrow> u32) \<Rightarrow> u16 \<Rightarrow> segment list \<Rightarrow> disk \<Rightarrow> bool" where
  "stores crc shard segs d =
     (disk_ok d \<and> dk_exists d \<and> sorted_wrt (<) (map sg_id segs) \<and>
      (\<forall>s \<in> set segs. segment_fits crc s \<and>
         disk_file d (segment_filename shard (sg_id s)) = Some (segment_bytes crc shard s)) \<and>
      (\<forall>name g. parse_segment_filename name = Some (shard, g) \<longrightarrow> disk_file d name \<noteq> None \<longrightarrow>
         name = segment_filename shard g \<and> g \<in> sg_id ` set segs))"

subsection \<open>Listing\<close>

definition seg_names :: "u16 \<Rightarrow> segment list \<Rightarrow> (u64 \<times> string) list" where
  "seg_names shard segs = map (\<lambda>s. (sg_id s, segment_filename shard (sg_id s))) segs"

lemma stores_same: "same_files d d' \<Longrightarrow> stores crc shard segs d \<Longrightarrow> stores crc shard segs d'"
  unfolding stores_def by (simp add: same_files_facts) (simp add: same_files_def)

lemma set_segments_of:
  "(g, name) \<in> set (segments_of shard names) \<longleftrightarrow>
     name \<in> set names \<and> parse_segment_filename name = Some (shard, g)"
  by (induction names) (auto simp: segments_of_def map_filter_simps split: option.splits)

lemma snd_segments_of:
  "map snd (segments_of shard names) =
     filter (\<lambda>n. map_option fst (parse_segment_filename n) = Some shard) names"
  by (induction names) (auto simp: segments_of_def map_filter_simps split: option.splits)

text \<open>The segment files of a shard in a directory are those of the ids \<open>gs\<close>, whatever they hold.\<close>

definition lists :: "u16 \<Rightarrow> u64 list \<Rightarrow> disk \<Rightarrow> bool" where
  "lists shard gs d =
     (disk_ok d \<and> dk_exists d \<and> sorted_wrt (<) gs \<and>
      (\<forall>g \<in> set gs. disk_file d (segment_filename shard g) \<noteq> None) \<and>
      (\<forall>name g. parse_segment_filename name = Some (shard, g) \<longrightarrow> disk_file d name \<noteq> None \<longrightarrow>
         name = segment_filename shard g \<and> g \<in> set gs))"

lemma stores_lists: "stores crc shard segs d \<Longrightarrow> lists shard (map sg_id segs) d"
  by (auto simp: stores_def lists_def)

lemma sort_segments_lists:
  assumes st: "lists shard gs d"
  shows "sort_key fst (segments_of shard (hm_keys (dk_files d))) = map (\<lambda>g. (g, segment_filename shard g)) gs"
proof -
  define xs where "xs = segments_of shard (hm_keys (dk_files d))"
  define f where "f = (\<lambda>g. (g, segment_filename shard g))"
  have ok: "hm_ok (dk_files d)" using st by (simp add: lists_def disk_ok_def)
  have mem: "(g, name) \<in> set xs \<longleftrightarrow> name = segment_filename shard g \<and> g \<in> set gs" for g name
    using st hash.keys_get [OF ok, of name]
    by (auto simp: xs_def set_segments_of lists_def disk_file_def)
  then have f: "x \<in> set xs \<Longrightarrow> x = f (fst x)" for x by (cases x) (simp add: f_def)
  have "map snd xs = map (segment_filename shard) (map fst xs)"
    using f by (auto simp: f_def)
  moreover have "distinct (map snd xs)"
    using hash.distinct_keys [OF ok] by (simp add: xs_def snd_segments_of)
  ultimately have "distinct (map (segment_filename shard) (map fst xs))" by (simp only:)
  then have dist: "distinct (map fst xs)" by (rule distinct_map [THEN iffD1, THEN conjunct1])
  have "fst ` set xs = set gs"
  proof (intro equalityI subsetI)
    fix g assume "g \<in> set gs"
    then have "(g, segment_filename shard g) \<in> set xs" by (simp add: mem)
    then show "g \<in> fst ` set xs" by force
  qed (use mem in auto)
  then have "set (map fst (sort_key fst xs)) = set gs" by simp
  moreover have "sorted (map fst (sort_key fst xs))" by simp
  moreover have "distinct (map fst (sort_key fst xs))"
    using dist by (simp add: distinct_map inj_on_def distinct_sort)
  moreover have "sorted gs" "distinct gs"
    using st by (simp_all add: lists_def strict_sorted_iff)
  ultimately have ids: "map fst (sort_key fst xs) = gs"
    by (metis sorted_distinct_set_unique)
  have "sort_key fst xs = map f (map fst (sort_key fst xs))"
    unfolding map_map using f by (intro map_idI [symmetric]) simp
  then have "sort_key fst xs = map f gs" by (simp only: ids)
  then show ?thesis by (simp add: f_def xs_def)
qed

lemma sort_segments_of:
  assumes "stores crc shard segs d"
  shows "sort_key fst (segments_of shard (hm_keys (dk_files d))) = seg_names shard segs"
  using sort_segments_lists [OF stores_lists [OF assms]] by (simp add: seg_names_def comp_def)

lemma list_segments_stores:
  assumes "stores crc shard segs d"
  shows "list_segments shard d = (Inr l, d') \<Longrightarrow> l = seg_names shard segs \<and> same_files d d'"
    and "dk_faults d = [] \<Longrightarrow> list_segments shard d = (Inr (seg_names shard segs), d)"
proof -
  have ex: "dk_exists d" using assms by (simp add: stores_def)
  show "list_segments shard d = (Inr l, d') \<Longrightarrow> l = seg_names shard segs \<and> same_files d d'"
    using ex sort_segments_of [OF assms]
    by (auto simp: list_segments_def and_then_Inr dest: read_calls_Inr(1) read_calls_same(1))
  show "dk_faults d = [] \<Longrightarrow> list_segments shard d = (Inr (seg_names shard segs), d)"
    using ex sort_segments_of [OF assms] by (simp add: list_segments_def io_read_dir_def)
qed

subsection \<open>Replaying\<close>

lemma replay_log_simps [simp]:
  "replay_log from [] s = s"
  "replay_log from (e # l) s = replay_log from l (replay_record from (fst e) (snd e) s)"
  "replay_log from (l @ l') s = replay_log from l' (replay_log from l s)"
  by (simp_all add: replay_log_def case_prod_beta)

lemma records_bytes_simps [simp]:
  "records_bytes crc [] = []" "records_bytes crc (r # rs) = record_layout crc r @ records_bytes crc rs"
  "records_bytes crc (rs @ rs') = records_bytes crc rs @ records_bytes crc rs'"
  by (simp_all add: records_bytes_def)

lemma encoded_size_pos [simp]: "0 < encoded_size r"
  by (simp add: encoded_size_def RECORD_HEADER_SIZE_def)

lemma replay_records_bytes:
  assumes "list_all record_fits rs" and "dead_tail crc t" and "length pre = off"
  shows "replay_records crc from g (pre @ records_bytes crc rs @ t) off s =
    Inr (replay_log from (locate g off rs) s)"
  using assms
proof (induction rs arbitrary: pre off s)
  case Nil
  then show ?case by (auto simp: dead_tail_def replay_records.simps)
next
  case (Cons r rs)
  have "replay_records crc from g ((pre @ record_layout crc r) @ records_bytes crc rs @ t)
      (off + encoded_size r) s' = Inr (replay_log from (locate g (off + encoded_size r) rs) s')" for s'
    using Cons.prems by (intro Cons.IH) simp_all
  then show ?case
    using Cons.prems decode_record_layout [of r crc "records_bytes crc rs @ t"]
    by (subst replay_records.simps) simp
qed

lemma segment_bytes_length:
  "length (segment_bytes crc shard s) = 64 + length (records_bytes crc (sg_records s)) + length (sg_tail s)"
  by (simp add: segment_bytes_def)

lemma replay_segment_bytes:
  assumes "segment_fits crc s"
  shows "replay_records crc from (sg_id s) (segment_bytes crc shard s) SEGMENT_HEADER_SIZE rs =
    Inr (replay_log from (segment_log s) rs)"
  using assms unfolding segment_bytes_def segment_log_def segment_fits_def
  by (intro replay_records_bytes) (simp_all add: SEGMENT_HEADER_SIZE_def)

lemma replay_segment_stores:
  assumes "segment_fits crc s" and "disk_file d name = Some (segment_bytes crc shard s)"
  shows "replay_segment crc from (sg_id s, name) rs d = (Inr rs', d') \<Longrightarrow>
      rs' = replay_log from (segment_log s) rs \<and> same_files d d'"
    and "dk_faults d = [] \<Longrightarrow>
      replay_segment crc from (sg_id s, name) rs d = (Inr (replay_log from (segment_log s) rs), d)"
proof -
  have big: "\<not> length (segment_bytes crc shard s) < SEGMENT_HEADER_SIZE"
    by (simp add: segment_bytes_length SEGMENT_HEADER_SIZE_def)
  have hdr: "decode_segment_header (take SEGMENT_HEADER_SIZE (segment_bytes crc shard s)) =
      Inr (shard, sg_id s, sg_created s)"
    by (simp add: segment_bytes_def SEGMENT_HEADER_SIZE_def)
  note run = big hdr replay_segment_bytes [OF assms(1), of "from" shard]
  show "replay_segment crc from (sg_id s, name) rs d = (Inr rs', d') \<Longrightarrow>
      rs' = replay_log from (segment_log s) rs \<and> same_files d d'"
    unfolding replay_segment_def result_iffs
  proof (elim exE conjE)
    fix data d1
    assume "io_read (snd (sg_id s, name)) d = (Inr data, d1)"
    then have data: "data = segment_bytes crc shard s" and same: "same_files d d1"
      using read_calls_Inr(2) read_calls_same(2) assms(2) by fastforce+
    assume "(if length data < SEGMENT_HEADER_SIZE then (Inr rs, d1) else
      case decode_segment_header (take SEGMENT_HEADER_SIZE data) of
        Inl e \<Rightarrow> (Inl (Err (WriterSegment e)), d1)
      | Inr _ \<Rightarrow> (replay_records crc from (fst (sg_id s, name)) data SEGMENT_HEADER_SIZE rs, d1)) =
      (Inr rs', d')"
    with same show "rs' = replay_log from (segment_log s) rs \<and> same_files d d'"
      by (simp add: data run)
  qed
  show "dk_faults d = [] \<Longrightarrow>
      replay_segment crc from (sg_id s, name) rs d = (Inr (replay_log from (segment_log s) rs), d)"
    using assms(2) by (simp add: replay_segment_def io_read_def run flip: disk_file_def)
qed

lemma replay_segments_stores:
  assumes "\<forall>s \<in> set segs. segment_fits crc s \<and>
      disk_file d (segment_filename shard (sg_id s)) = Some (segment_bytes crc shard s)"
  shows "replay_segments crc from (seg_names shard segs) rs d = (Inr rs', d') \<Longrightarrow>
      rs' = replay_log from (wal_log segs) rs \<and> same_files d d'"
    and "dk_faults d = [] \<Longrightarrow> replay_segments crc from (seg_names shard segs) rs d =
      (Inr (replay_log from (wal_log segs) rs), d)"
  using assms
proof (induction segs arbitrary: rs d)
  case (Cons s segs)
  { case 1
    then obtain rs1 d1 where 
      s: "replay_segment crc from (sg_id s, segment_filename shard (sg_id s)) rs d = (Inr rs1, d1)" and
      ss: "replay_segments crc from (seg_names shard segs) rs1 d1 = (Inr rs', d')"
      by (auto simp: seg_names_def and_then_Inr)
    have d1: "rs1 = replay_log from (segment_log s) rs" "same_files d d1"
      using replay_segment_stores(1) [OF _ _ s] 1 by auto
    with Cons.IH(1) [OF ss] 1 show ?case
      by (auto simp: same_files_facts wal_log_def intro: same_files_trans)
  next
    case 2
    then show ?case
      using Cons.IH(2) [of d] replay_segment_stores(2) [of crc s d]
      by (simp add: seg_names_def wal_log_def)
  }
qed (simp_all add: seg_names_def wal_log_def)


subsection \<open>Opening\<close>

text \<open>The writer stands at the end of the last segment.\<close>

definition stands_at :: "(bytes \<Rightarrow> u32) \<Rightarrow> wal_writer \<Rightarrow> segment \<Rightarrow> bool" where
  "stands_at crc w s =
     (ww_current_segment_id w = sg_id s \<and>
      ww_current_file w = segment_filename (ww_shard_id w) (sg_id s) \<and>
      ww_current_offset w = of_nat (length (segment_bytes crc (ww_shard_id w) s)) \<and>
      ww_next_segment_id w = sg_id s + 1)"

definition writer_at :: "(bytes \<Rightarrow> u32) \<Rightarrow> segment list \<Rightarrow> wal_writer \<times> disk \<Rightarrow> bool" where
  "writer_at crc segs wd =
     (stores crc (ww_shard_id (fst wd)) segs (snd wd) \<and> segs \<noteq> [] \<and>
      stands_at crc (fst wd) (last segs))"

lemma stores_create_dir:
  assumes "stores crc shard segs d"
  shows "io_create_dir_all d = (Inr u, d1) \<Longrightarrow> same_files d d1"
    and "dk_faults d = [] \<Longrightarrow> io_create_dir_all d = (Inr (), d)"
  using assms by (auto simp: io_create_dir_all_def io_guard_def stores_def same_files_def
      split: prod.splits io_outcome.splits dest: next_outcome_disk)

lemma seg_names_simps [simp]:
  "seg_names shard segs = [] \<longleftrightarrow> segs = []"
  "segs \<noteq> [] \<Longrightarrow> last (seg_names shard segs) =
     (sg_id (last segs), segment_filename shard (sg_id (last segs)))"
  by (simp_all add: seg_names_def last_map)

definition recovered_from :: "nat \<Rightarrow> stream_state_table option \<Rightarrow> stream_state_table" where
  "recovered_from limit rec = (case rec of Some t \<Rightarrow> t | None \<Rightarrow> table_new limit)"

definition opened ::
  "(bytes \<Rightarrow> u32) \<Rightarrow> u16 \<Rightarrow> u64 \<Rightarrow> segment \<Rightarrow> replay_state \<Rightarrow> wal_writer" where
  "opened crc shard max_bytes s rs =
     \<lparr>ww_shard_id = shard, ww_current_file = segment_filename shard (sg_id s),
      ww_current_segment_id = sg_id s,
      ww_current_offset = of_nat (length (segment_bytes crc shard s)),
      ww_next_entry_id = rp_next_entry_id rs, ww_next_segment_id = sg_id s + 1,
      ww_max_segment_bytes = max_bytes\<rparr>"

lemma stands_at_opened [simp]: "stands_at crc (opened crc shard max_bytes s rs) s"
  by (simp add: stands_at_def opened_def)

lemma writer_open_stores:
  assumes st: "stores crc shard segs d" and ne: "segs \<noteq> []"
    and rs: "rs = replay_log from (wal_log segs) (replay_init (recovered_from limit rec))"
  shows "writer_open crc now shard max_bytes limit rec from d = (Inr (w, idx, t), d') \<Longrightarrow>
      idx = rp_index rs \<and> t = rp_streams rs \<and> w = opened crc shard max_bytes (last segs) rs \<and>
      stores crc shard segs d'"
    and "dk_faults d = [] \<Longrightarrow> writer_open crc now shard max_bytes limit rec from d =
      (Inr (opened crc shard max_bytes (last segs) rs, rp_index rs, rp_streams rs), d)"
proof -
  have last: "disk_file d (segment_filename shard (sg_id (last segs))) =
      Some (segment_bytes crc shard (last segs))"
    using st ne by (auto simp: stores_def)
  have files: "\<forall>s \<in> set segs. segment_fits crc s \<and>
      disk_file d (segment_filename shard (sg_id s)) = Some (segment_bytes crc shard s)"
    using st by (simp add: stores_def)
  show "dk_faults d = [] \<Longrightarrow> writer_open crc now shard max_bytes limit rec from d =
      (Inr (opened crc shard max_bytes (last segs) rs, rp_index rs, rp_streams rs), d)"
    using last ne st files
    by (simp add: writer_open_def stores_create_dir list_segments_stores(2)
        replay_segments_stores(2) io_file_len_def io_open_def opened_def rs replay_init_def
        recovered_from_def flip: disk_file_def)
  assume run: "writer_open crc now shard max_bytes limit rec from d = (Inr (w, idx, t), d')"
  then obtain u d1 l d2 where
    d1: "io_create_dir_all d = (Inr u, d1)" and l: "list_segments shard d1 = (Inr l, d2)"
    by (auto simp: writer_open_def result_iffs Let_def)
  from stores_create_dir(1) [OF st d1] have s1: "same_files d d1" .
  with l stores_same [OF s1 st] have l_eq: "l = seg_names shard segs" and s2: "same_files d d2"
    using list_segments_stores(1) same_files_trans by blast+
  from run d1 l obtain rs' d3 len d4 fname where
    d3: "replay_segments crc from l (replay_init (recovered_from limit rec)) d2 = (Inr rs', d3)"
    and d4: "io_file_len (snd (last l)) d3 = (Inr len, d4)"
    and d5: "io_open (snd (last l)) d4 = (Inr fname, d')"
    and w: "idx = rp_index rs'" "t = rp_streams rs'"
      "w = \<lparr>ww_shard_id = shard, ww_current_file = fname,
            ww_current_segment_id = fst (last l), ww_current_offset = of_nat len,
            ww_next_entry_id = rp_next_entry_id rs', ww_next_segment_id = fst (last l) + 1,
            ww_max_segment_bytes = max_bytes\<rparr>"
    using ne l_eq by (auto simp: writer_open_def result_iffs Let_def replay_init_def
        recovered_from_def)
  have "rs' = rs" and s3: "same_files d d3"
    using replay_segments_stores(1) [of segs crc d2 shard "from" _ rs' d3] d3 files s2
    by (auto simp: l_eq rs same_files_facts intro: same_files_trans)
  moreover have s4: "same_files d d4" and s5: "same_files d d'"
    using s3 d4 d5 by (auto intro: same_files_trans dest: read_calls_same(3,4))
  moreover have "len = length (segment_bytes crc shard (last segs))"
    using d4 last ne by (auto simp: l_eq same_files_facts [OF s3] dest: read_calls_Inr(3))
  moreover have "fname = segment_filename shard (sg_id (last segs))"
    using d5 ne by (auto simp: l_eq dest: read_calls_Inr(4))
  ultimately show "idx = rp_index rs \<and> t = rp_streams rs \<and>
      w = opened crc shard max_bytes (last segs) rs \<and> stores crc shard segs d'"
    using w ne st by (auto simp: opened_def l_eq intro: stores_same)
qed


text \<open>An empty directory gets its first segment.\<close>

lemma write_at_0 [simp]: "write_at [] 0 src = src"
  by (simp add: write_at_def)

definition new_segment :: "u64 \<Rightarrow> u64 \<Rightarrow> segment" where
  "new_segment g now = \<lparr>sg_id = g, sg_created = now, sg_records = [], sg_tail = []\<rparr>"

lemma new_segment_simps [simp]:
  "sg_id (new_segment g now) = g" "sg_records (new_segment g now) = []" "sg_tail (new_segment g now) = []"
  "segment_fits crc (new_segment g now)" "segment_log (new_segment g now) = []"
  "segment_bytes crc shard (new_segment g now) = encode_segment_header shard g now"
  by (simp_all add: new_segment_def segment_fits_def dead_tail_def segment_log_def segment_bytes_def)

lemma stores_create:
  assumes "stores crc shard segs d" and "\<forall>s \<in> set segs. sg_id s < g"
    and "same_files d d1"
    and "d2 = put_file (segment_filename shard g) [] d1" and "same_files d2 d3"
    and "d' = write_file_at (segment_filename shard g) 0 (encode_segment_header shard g now) d3"
  shows "stores crc shard (segs @ [new_segment g now]) d'"
proof -
  have ok: "disk_ok d" "disk_ok d1" "disk_ok d3"
    using assms by (auto simp: stores_def same_files_facts)
  have ex: "dk_exists d'"
    using assms by (simp add: stores_def same_files_def)
  have content: "disk_file d' name = (if name = segment_filename shard g
      then Some (encode_segment_header shard g now) else disk_file d name)" for name
    using ok assms by (simp add: same_files_facts)
  have "disk_ok d'" using ok assms by simp
  then show ?thesis
    using assms(1,2) ex unfolding stores_def
    by (auto simp: content sorted_wrt_append)
qed

lemma create_segment_stores:
  assumes "stores crc shard segs d" and "\<forall>s \<in> set segs. sg_id s < g"
  shows "create_segment now shard g d = (Inr fname, d') \<Longrightarrow>
      fname = segment_filename shard g \<and> stores crc shard (segs @ [new_segment g now]) d'"
    and "dk_faults d = [] \<Longrightarrow> \<exists>d'. dk_faults d' = [] \<and>
      create_segment now shard g d = (Inr (segment_filename shard g), d')"
proof -
  assume "create_segment now shard g d = (Inr fname, d')"
  then obtain d1 u where new: "io_create_new (segment_filename shard g) d = (Inr fname, d1)"
    and wr: "io_write_all_at fname (encode_segment_header shard g now) 0 d1 = (Inr u, d')"
    by (auto simp: create_segment_def result_iffs)
  from io_create_new_Inr [OF new] obtain d0 where f: "fname = segment_filename shard g"
    and d0: "same_files d d0" "d1 = put_file (segment_filename shard g) [] d0" by auto
  from io_write_all_at_Inr [OF wr] obtain d2 where d2: "same_files d1 d2"
    "d' = write_file_at fname 0 (encode_segment_header shard g now) d2" by auto
  with stores_create [OF assms d0 d2(1)] f show "fname = segment_filename shard g \<and>
      stores crc shard (segs @ [new_segment g now]) d'"
    by simp
next
  assume nf: "dk_faults d = []"
  have "disk_file d (segment_filename shard g) = None"
  proof (rule ccontr)
    assume "disk_file d (segment_filename shard g) \<noteq> None"
    then have "g \<in> sg_id ` set segs"
      using assms(1) unfolding stores_def by (metis parse_segment_filename_roundtrip)
    with assms(2) show False by auto
  qed
  then show "\<exists>d'. dk_faults d' = [] \<and>
      create_segment now shard g d = (Inr (segment_filename shard g), d')"
    using nf by (auto simp: create_segment_def io_create_new_def io_write_all_at_def disk_file_def)
qed

subsection \<open>Appending\<close>

lemma segment_id_sorted:
  "sorted_wrt (<) (map sg_id (segs @ [s])) \<longleftrightarrow>
     sorted_wrt (<) (map sg_id segs) \<and> (\<forall>x \<in> set segs. sg_id x < sg_id s)"
  by (auto simp: sorted_wrt_append)

text \<open>Bytes written behind the last segment change that segment only.\<close>

lemma stores_extend:
  assumes st: "stores crc shard (segs @ [s]) d" and "same_files d d1"
    and "sg_id s' = sg_id s" and "segment_fits crc s'"
    and "segment_bytes crc shard s' = segment_bytes crc shard s @ bs"
  shows "stores crc shard (segs @ [s'])
    (write_file_at (segment_filename shard (sg_id s)) (length (segment_bytes crc shard s)) bs d1)"
proof -
  define d' where
    "d' = write_file_at (segment_filename shard (sg_id s)) (length (segment_bytes crc shard s)) bs d1"
  have ok: "disk_ok d1" and ex: "dk_exists d1"
    using st assms(2) by (auto simp: stores_def same_files_facts) (simp add: same_files_def)
  have last: "disk_file d (segment_filename shard (sg_id s)) = Some (segment_bytes crc shard s)"
    using st by (simp add: stores_def)
  have "disk_file d' name = (if name = segment_filename shard (sg_id s)
      then Some (segment_bytes crc shard s') else disk_file d name)" for name
    using ok last assms(2,5) by (simp add: d'_def same_files_facts write_at_end)
  moreover have "disk_ok d'" "dk_exists d'" using ok ex by (simp_all add: d'_def)
  ultimately show ?thesis
    using st assms(3,4) unfolding stores_def segment_id_sorted d'_def [symmetric]
    by (auto simp: sorted_wrt_append)
qed

definition add_record :: "wal_record \<Rightarrow> segment \<Rightarrow> segment" where
  "add_record r s = s\<lparr>sg_records := sg_records s @ [r]\<rparr>"

lemma locate_append:
  "locate g off (rs @ rs') = locate g off rs @ locate g (off + sum_list (map encoded_size rs)) rs'"
  by (induction rs arbitrary: off) (simp_all add: add.assoc)

lemma length_records_bytes: "length (records_bytes crc rs) = sum_list (map encoded_size rs)"
  by (induction rs) simp_all

lemma add_record_simps:
  assumes "segment_fits crc s" and "sg_tail s = []" and "record_fits r"
  shows "sg_id (add_record r s) = sg_id s" "sg_tail (add_record r s) = []"
    and "segment_fits crc (add_record r s)"
    and "segment_bytes crc shard (add_record r s) = segment_bytes crc shard s @ record_layout crc r"
    and "segment_log (add_record r s) = segment_log s @
      [(\<lparr>loc_segment_id = sg_id s, loc_offset = of_nat (length (segment_bytes crc shard s)),
         loc_size = of_nat (encoded_size r)\<rparr>, r)]"
  using assms by (simp_all add: add_record_def segment_fits_def segment_bytes_def segment_log_def
      locate_append length_records_bytes SEGMENT_HEADER_SIZE_def)

lemma wal_log_snoc: "wal_log (segs @ [s]) = wal_log segs @ segment_log s"
  by (simp add: wal_log_def)

lemma rotate_writer_at:
  assumes "writer_at crc segs (w, d)" and "ww_next_segment_id w \<noteq> 0"
    and "rotate_segment now (w, d) = (Inr u, w', d')"
  shows "\<exists>g. writer_at crc (segs @ [new_segment g now]) (w', d') \<and>
      ww_shard_id w' = ww_shard_id w \<and> ww_next_entry_id w' = ww_next_entry_id w \<and>
      ww_next_segment_id w' = ww_next_segment_id w + 1 \<and>
      ww_max_segment_bytes w' = ww_max_segment_bytes w"
proof -
  define g where "g = ww_next_segment_id w"
  from assms(3) obtain d1 fname where sync: "io_sync_data (ww_current_file w) d = (Inr (), d1)"
    and new: "create_segment now (ww_shard_id w) g d1 = (Inr fname, d')"
    and w': "w' = w\<lparr>ww_next_segment_id := g + 1, ww_current_file := fname,
      ww_current_segment_id := g, ww_current_offset := 64\<rparr>"
    by (auto simp: rotate_segment_def result_iffs writer_sync_def Let_def g_def SEGMENT_HEADER_SIZE_def)
  have st: "stores crc (ww_shard_id w) segs d" and last: "segs \<noteq> []" "g = sg_id (last segs) + 1"
    using assms(1) by (auto simp: writer_at_def stands_at_def g_def)
  then have "sg_id (last segs) < g"
    using assms(2) unatSuc [of "sg_id (last segs)"]
    by (simp add: g_def word_less_nat_alt add.commute)
  moreover have "sg_id s \<le> sg_id (last segs)" if "s \<in> set segs" for s
    using st last(1) that by (cases segs rule: rev_cases)
      (auto simp: stores_def sorted_wrt_append intro: less_imp_le)
  ultimately have "\<forall>s \<in> set segs. sg_id s < g" by force
  from create_segment_stores(1) [OF stores_same [OF read_calls_same(6) [OF sync] st] this new]
  show ?thesis
    using w' by (intro exI [of _ g]) (auto simp: writer_at_def stands_at_def g_def [symmetric])
qed


record log_write =
  lw_now :: u64
  lw_seg_now :: u64
  lw_stream_id :: u64
  lw_epoch :: u64
  lw_stream_lsn :: u64
  lw_entry_id :: u64
  lw_payload :: bytes

definition lw_record :: "log_write \<Rightarrow> wal_record" where
  "lw_record x = \<lparr>wr_stream_id = lw_stream_id x, wr_epoch = lw_epoch x,
     wr_entry_id = lw_entry_id x, wr_stream_lsn = lw_stream_lsn x,
     wr_timestamp_ns = lw_now x, wr_payload = lw_payload x\<rparr>"

definition append_write ::
  "(bytes \<Rightarrow> u32) \<Rightarrow> log_write \<Rightarrow> wal_writer \<times> disk \<Rightarrow>
   (wal_writer_error fault + u64 \<times> record_location) \<times> wal_writer \<times> disk" where
  "append_write crc x = append_with_log_index crc (lw_now x) (lw_seg_now x) (lw_stream_id x)
     (lw_epoch x) (lw_stream_lsn x) (lw_entry_id x) (lw_payload x)"

definition lw_fits :: "log_write \<Rightarrow> bool" where
  "lw_fits x = (length (lw_payload x) + 48 < 2 ^ 32)"

lemma lw_fits_record: "lw_fits x \<Longrightarrow> record_fits (lw_record x)"
  by (simp add: lw_fits_def record_fits_def lw_record_def)

definition advanced :: "log_write \<Rightarrow> wal_writer \<Rightarrow> wal_writer" where
  "advanced x w = w\<lparr>ww_next_entry_id := max (ww_next_entry_id w) (lw_entry_id x + 1),
     ww_current_offset := ww_current_offset w + of_nat (encoded_size (lw_record x))\<rparr>"

definition located :: "log_write \<Rightarrow> wal_writer \<Rightarrow> record_location" where
  "located x w = \<lparr>loc_segment_id = ww_current_segment_id w, loc_offset = ww_current_offset w,
     loc_size = of_nat (encoded_size (lw_record x))\<rparr>"

lemma append_write_Inr:
  "append_write crc x (w, d) = (Inr (e, loc), wd') \<longleftrightarrow>
     e = lw_entry_id x \<and> loc = located x w \<and>
     (\<exists>d1. io_write_all_at (ww_current_file w) (record_layout crc (lw_record x))
         (unat (ww_current_offset w)) d = (Inr (), d1) \<and>
       (if ww_max_segment_bytes w \<le> ww_current_offset (advanced x w)
        then rotate_segment (lw_seg_now x) (advanced x w, d1) = (Inr (), wd')
        else (advanced x w, d1) = wd'))"
proof -
  have *: "w\<lparr>ww_next_entry_id := n, ww_current_offset := off\<rparr> =
      w\<lparr>ww_current_offset := off, ww_next_entry_id := n\<rparr>" for n off
    by (cases w) simp
  show ?thesis
    by (cases wd') (auto simp: append_write_def append_with_log_index_def encode_to_vec_layout Let_def
        result_iffs advanced_def located_def lw_record_def * split: if_splits)
qed

text \<open>What an append leaves behind.\<close>

definition appended ::
  "(bytes \<Rightarrow> u32) \<Rightarrow> log_write \<Rightarrow> record_location \<Rightarrow> segment list \<Rightarrow> wal_writer \<Rightarrow>
   segment list \<Rightarrow> wal_writer \<times> disk \<Rightarrow> bool" where
  "appended crc x loc segs w segs' wd' =
     (writer_at crc segs' wd' \<and> wal_log segs' = wal_log segs @ [(loc, lw_record x)] \<and>
      sg_tail (last segs') = [] \<and> ww_shard_id (fst wd') = ww_shard_id w \<and>
      ww_next_entry_id (fst wd') = max (ww_next_entry_id w) (lw_entry_id x + 1) \<and>
      (segs' = butlast segs @ [add_record (lw_record x) (last segs)] \<and>
         ww_next_segment_id (fst wd') = ww_next_segment_id w \<or>
       (\<exists>g now. segs' = butlast segs @ [add_record (lw_record x) (last segs), new_segment g now]) \<and>
         ww_next_segment_id (fst wd') = ww_next_segment_id w + 1))"

text \<open>An append extends the last segment; a rotation puts an empty one behind it.\<close>

lemma append_write_extends:
  assumes at: "writer_at crc segs (w, d)" and seg: "ww_next_segment_id w \<noteq> 0"
    and room: "length (segment_bytes crc (ww_shard_id w) (last segs)) < 2 ^ 64"
    and s': "sg_id s' = sg_id (last segs)" "segment_fits crc s'"
      "segment_bytes crc (ww_shard_id w) s' =
        segment_bytes crc (ww_shard_id w) (last segs) @ record_layout crc (lw_record x)"
    and run: "append_write crc x (w, d) = (Inr (e, loc), w', d')"
  shows "writer_at crc (butlast segs @ [s']) (w', d') \<and> w' = advanced x w \<and>
      ww_current_offset (advanced x w) < ww_max_segment_bytes w \<or>
    (\<exists>g now. writer_at crc (butlast segs @ [s', new_segment g now]) (w', d') \<and>
      ww_shard_id w' = ww_shard_id w \<and> ww_next_entry_id w' = ww_next_entry_id (advanced x w) \<and>
      ww_next_segment_id w' = ww_next_segment_id w + 1 \<and>
      ww_max_segment_bytes w' = ww_max_segment_bytes w)"
proof -
  define s w1 where "s = last segs" and "w1 = advanced x w"
  have st: "stores crc (ww_shard_id w) (butlast segs @ [s]) d" and w: "stands_at crc w s"
    using at by (auto simp: writer_at_def s_def)
  have off: "unat (ww_current_offset w) = length (segment_bytes crc (ww_shard_id w) s)"
    using w room by (simp add: stands_at_def s_def unat_u64_of_nat)
  from run obtain d1 where
    wr: "io_write_all_at (ww_current_file w) (record_layout crc (lw_record x))
      (unat (ww_current_offset w)) d = (Inr (), d1)"
    and rot: "if ww_max_segment_bytes w \<le> ww_current_offset w1
      then rotate_segment (lw_seg_now x) (w1, d1) = (Inr (), w', d') else (w1, d1) = (w', d')"
    unfolding append_write_Inr w1_def [symmetric] by blast
  from io_write_all_at_Inr [OF wr] off w obtain d0 where "same_files d d0"
    "d1 = write_file_at (segment_filename (ww_shard_id w) (sg_id s))
      (length (segment_bytes crc (ww_shard_id w) s)) (record_layout crc (lw_record x)) d0"
    by (auto simp: stands_at_def)
  with stores_extend [OF st _ s' [folded s_def]] have
    st1: "stores crc (ww_shard_id w) (butlast segs @ [s']) d1" by simp
  have "stands_at crc w1 s'" "ww_shard_id w1 = ww_shard_id w"
    using w s' by (simp_all add: stands_at_def w1_def advanced_def s_def)
  with st1 have at1: "writer_at crc (butlast segs @ [s']) (w1, d1)" by (simp add: writer_at_def)
  show ?thesis
  proof (cases "ww_max_segment_bytes w \<le> ww_current_offset w1")
    case True
    with rot have "rotate_segment (lw_seg_now x) (w1, d1) = (Inr (), w', d')" by simp
    from rotate_writer_at [OF at1 _ this] seg obtain g where
      "writer_at crc ((butlast segs @ [s']) @ [new_segment g (lw_seg_now x)]) (w', d')"
      and "ww_shard_id w' = ww_shard_id w" "ww_next_entry_id w' = ww_next_entry_id w1"
      "ww_next_segment_id w' = ww_next_segment_id w + 1"
      "ww_max_segment_bytes w' = ww_max_segment_bytes w"
      by (auto simp: w1_def advanced_def)
    then show ?thesis unfolding w1_def by auto
  qed (use rot at1 in \<open>auto simp: w1_def\<close>)
qed

lemma append_write_log:
  assumes at: "writer_at crc segs (w, d)" and tail: "sg_tail (last segs) = []"
    and fits: "lw_fits x" and seg: "ww_next_segment_id w \<noteq> 0"
    and room: "length (segment_bytes crc (ww_shard_id w) (last segs)) < 2 ^ 64"
    and run: "append_write crc x (w, d) = (Inr (e, loc), w', d')"
  shows "e = lw_entry_id x \<and> (\<exists>segs'. appended crc x loc segs w segs' (w', d'))"
proof -
  define r where "r = lw_record x"
  have segs: "segs = butlast segs @ [last segs]" and "segment_fits crc (last segs)"
    and w: "stands_at crc w (last segs)"
    using at by (auto simp: writer_at_def stores_def)
  note add = add_record_simps [OF this(2) tail lw_fits_record [OF fits], folded r_def]
  have loc: "e = lw_entry_id x" "loc = located x w"
    using run by (simp_all add: append_write_Inr)
  have "wal_log (butlast segs @ add_record r (last segs) # segs2) =
      wal_log segs @ [(loc, r)] @ wal_log segs2" for segs2
    using w by (subst (2) segs)
      (simp add: wal_log_def add loc located_def stands_at_def r_def [symmetric])
  note log = this
  from append_write_extends [OF at seg room add(1,3,4) [unfolded r_def] run] show ?thesis
  proof (elim disjE conjE exE)
    assume "writer_at crc (butlast segs @ [add_record (lw_record x) (last segs)]) (w', d')"
      and "w' = advanced x w"
    then show ?thesis
      using loc(1) add(2) log [of "[]"]
      by (auto simp: appended_def advanced_def r_def wal_log_def [of "[]"])
  next
    fix g now
    let ?segs = "butlast segs @ [add_record (lw_record x) (last segs), new_segment g now]"
    assume "writer_at crc ?segs (w', d')" "ww_shard_id w' = ww_shard_id w"
      "ww_next_entry_id w' = ww_next_entry_id (advanced x w)"
      "ww_next_segment_id w' = ww_next_segment_id w + 1"
    then have "appended crc x loc segs w ?segs (w', d')"
      using log [of "[new_segment g now]"]
      by (auto simp: appended_def advanced_def r_def wal_log_def [of "[_]"])
    with loc(1) show ?thesis by blast
  qed
qed

subsection \<open>Histories of appends, and a crash in the middle of one\<close>

fun append_all ::
  "(bytes \<Rightarrow> u32) \<Rightarrow> log_write list \<Rightarrow> wal_writer \<times> disk \<Rightarrow>
   (wal_writer_error fault + record_location list) \<times> wal_writer \<times> disk" where
  "append_all crc [] wd = (Inr [], wd)"
| "append_all crc (x # xs) wd =
     and_then (append_write crc x wd) (\<lambda>el wd.
     and_then (append_all crc xs wd) (\<lambda>locs wd. (Inr (snd el # locs), wd)))"

text \<open>Enough room in the 64-bit offsets and segment ids for a list of appends.\<close>

definition room_for :: "(bytes \<Rightarrow> u32) \<Rightarrow> segment list \<Rightarrow> wal_writer \<Rightarrow> log_write list \<Rightarrow> bool" where
  "room_for crc segs w xs =
     (list_all lw_fits xs \<and> ww_next_segment_id w \<noteq> 0 \<and>
      unat (ww_next_segment_id w) + length xs < 2 ^ 64 \<and>
      length (segment_bytes crc (ww_shard_id w) (last segs)) +
        sum_list (map (\<lambda>x. encoded_size (lw_record x)) xs) < 2 ^ 64)"

lemma room_for_step:
  assumes at: "writer_at crc segs (w, d)" and tail: "sg_tail (last segs) = []"
    and room: "room_for crc segs w (x # xs)" and app: "appended crc x loc segs w segs' (w', d')"
  shows "room_for crc segs' w' xs"
proof -
  have fits: "segment_fits crc (last segs)" using at by (auto simp: writer_at_def stores_def)
  have x: "record_fits (lw_record x)" using room by (simp add: room_for_def lw_fits_record)
  have shard: "ww_shard_id w' = ww_shard_id w" using app by (simp add: appended_def)
  have "length (segment_bytes crc (ww_shard_id w) (last segs')) \<le>
      length (segment_bytes crc (ww_shard_id w) (last segs)) + encoded_size (lw_record x)"
  proof -
    from app consider "segs' = butlast segs @ [add_record (lw_record x) (last segs)]"
      | g now where "last segs' = new_segment g now" by (auto simp: appended_def)
    then show ?thesis
    proof cases
      case 1
      then show ?thesis by (simp add: add_record_simps(4) [OF fits tail x])
    next
      case 2
      then show ?thesis by (simp add: segment_bytes_length)
    qed
  qed
  moreover have "unat (ww_next_segment_id w + 1) = Suc (unat (ww_next_segment_id w))"
  proof (rule trans [OF _ unatSuc])
    have "unat (1 + ww_next_segment_id w) \<noteq> 0"
      using room by (simp add: room_for_def unat_word_ariths)
    then show "1 + ww_next_segment_id w \<noteq> 0" by auto
  qed (simp add: add.commute)
  moreover have "ww_next_segment_id w + 1 \<noteq> 0" using calculation(2) by auto
  ultimately show ?thesis
    using room app by (auto simp: room_for_def shard appended_def)
qed

lemma append_all_log:
  assumes "writer_at crc segs (w, d)" and "sg_tail (last segs) = []" and "room_for crc segs w xs"
    and "append_all crc xs (w, d) = (Inr locs, w', d')"
  shows "\<exists>segs'. writer_at crc segs' (w', d') \<and> sg_tail (last segs') = [] \<and>
    ww_shard_id w' = ww_shard_id w \<and> length locs = length xs \<and>
    wal_log segs' = wal_log segs @ zip locs (map lw_record xs) \<and> room_for crc segs' w' []"
  using assms
proof (induction xs arbitrary: segs w d locs)
  case (Cons x xs)
  from Cons.prems(4) obtain e loc w1 d1 locs' where
    x: "append_write crc x (w, d) = (Inr (e, loc), w1, d1)"
    and xs: "append_all crc xs (w1, d1) = (Inr locs', w', d')" and locs: "locs = loc # locs'"
    by (auto simp: result_iffs)
  from append_write_log [OF Cons.prems(1,2) _ _ _ x] Cons.prems(3) obtain segs1 where
    app: "appended crc x loc segs w segs1 (w1, d1)"
    by (auto simp: room_for_def)
  then have "writer_at crc segs1 (w1, d1)" "sg_tail (last segs1) = []"
    by (simp_all add: appended_def)
  from Cons.IH [OF this room_for_step [OF Cons.prems(1-3) app] xs] app show ?case
    by (auto simp: locs appended_def)
qed auto


subsection \<open>A torn append\<close>

definition torn :: "bytes \<Rightarrow> segment \<Rightarrow> segment" where
  "torn bs s = s\<lparr>sg_tail := sg_tail s @ bs\<rparr>"

lemma torn_simps [simp]:
  "sg_id (torn bs s) = sg_id s" "segment_log (torn bs s) = segment_log s"
  "segment_bytes crc shard (torn bs s) = segment_bytes crc shard s @ bs"
  "sg_tail (torn bs s) = sg_tail s @ bs" "sg_records (torn bs s) = sg_records s"
  by (simp_all add: torn_def segment_log_def segment_bytes_def)

lemma torn_fits:
  assumes "segment_fits crc s" and "dead_tail crc (sg_tail s @ bs)"
  shows "segment_fits crc (torn bs s)"
  using assms by (simp add: segment_fits_def)

lemma dead_tail_front:
  assumes "record_fits r" and "k < encoded_size r"
  shows "dead_tail crc (take k (record_layout crc r))"
  unfolding dead_tail_def decode_record_torn [OF assms] by simp

lemma wal_log_torn: "segs \<noteq> [] \<Longrightarrow> wal_log (butlast segs @ [torn bs (last segs)]) = wal_log segs"
  by (metis append_butlast_last_id torn_simps(2) wal_log_snoc)

lemma append_write_crash:
  assumes at: "writer_at crc segs (w, d)" and tail: "sg_tail (last segs) = []"
    and fits: "lw_fits x" and k: "k < encoded_size (lw_record x)"
    and room: "length (segment_bytes crc (ww_shard_id w) (last segs)) < 2 ^ 64"
    and run: "append_write crc x (w, d\<lparr>dk_faults := [IoFail k]\<rparr>) = (res, w', d')"
  shows "res = Inl (Err (WriterIo IoFault)) \<and> dk_faults d' = [] \<and>
    stores crc (ww_shard_id w)
      (butlast segs @ [torn (take k (record_layout crc (lw_record x))) (last segs)]) d'"
proof -
  define bs where "bs = take k (record_layout crc (lw_record x))"
  have st: "stores crc (ww_shard_id w) (butlast segs @ [last segs]) d"
    and w: "stands_at crc w (last segs)"
    using at by (auto simp: writer_at_def)
  have "unat (ww_current_offset w) = length (segment_bytes crc (ww_shard_id w) (last segs))"
    using w room by (simp add: stands_at_def unat_u64_of_nat)
  with run w have d': "res = Inl (Err (WriterIo IoFault))"
    "d' = write_file_at (segment_filename (ww_shard_id w) (sg_id (last segs)))
      (length (segment_bytes crc (ww_shard_id w) (last segs))) bs (d\<lparr>dk_faults := []\<rparr>)"
    by (auto simp: append_write_def append_with_log_index_def encode_to_vec_layout Let_def
        io_write_all_at_def next_outcome_def stands_at_def bs_def lw_record_def)
  have "segment_fits crc (last segs)" using st by (auto simp: stores_def)
  moreover have "dead_tail crc bs"
    unfolding bs_def using lw_fits_record [OF fits] k by (rule dead_tail_front)
  ultimately have "segment_fits crc (torn bs (last segs))" using tail by (intro torn_fits) simp_all
  then show ?thesis
    using stores_extend [OF st _ _ _ , of "d\<lparr>dk_faults := []\<rparr>" "torn bs (last segs)" bs]
    by (simp add: d' bs_def [symmetric]) (simp add: same_files_def)
qed

end
