(* ===== verification/Recovery.thy ===== *)
theory Recovery
  imports WalLog
begin

text \<open>
  What the WAL promises and where it does not keep the promise: opening is a fold over the
  log, an append adds one record to the log whatever rotation does, a crash in the middle of
  an append loses nothing that was acknowledged before. Two properties state what the code
  does after a crash and a restart: an append behind a torn tail is acknowledged and lost at
  the next restart, and a segment file whose header was never written makes a later restart
  fail.
\<close>

text \<open>
  C17: Opening a directory that holds the segments of a shard, none of whose files was altered
  but for a torn tail, gives exactly the fold of the replay step over the whole log: the
  index, the stream table and the next entry id are those of the records in order, and the
  writer stands at the end of the last file. Without I/O faults opening succeeds and changes
  nothing on disk; with faults it either fails or gives the same result.
\<close>

theorem open_replays_log:
  assumes "stores crc shard segs d" and "segs \<noteq> []"
    and "rs = replay_log base (wal_log segs) (replay_init (recovered_from limit rec))"
  shows "(dk_faults d = [] \<longrightarrow> writer_open crc now shard max_bytes limit rec base d =
        (Inr (opened crc shard max_bytes (last segs) rs, rp_index rs, rp_streams rs), d)) \<and>
    (\<forall>w idx t d'. writer_open crc now shard max_bytes limit rec base d = (Inr (w, idx, t), d') \<longrightarrow>
        idx = rp_index rs \<and> t = rp_streams rs \<and> w = opened crc shard max_bytes (last segs) rs \<and>
        stores crc shard segs d')"
  using writer_open_stores [OF assms] by blast

subsection \<open>A directory to try things on\<close>

definition demo_crc :: "bytes \<Rightarrow> u32" where
  "demo_crc bs = foldr (\<lambda>b acc. acc * 31 + ucast b) bs 1"

definition demo_write :: "u64 \<Rightarrow> log_write" where
  "demo_write n = \<lparr>lw_now = 5, lw_seg_now = 6, lw_stream_id = 7, lw_epoch = 3,
     lw_stream_lsn = n, lw_entry_id = n + 10, lw_payload = replicate 20 97\<rparr>"

definition demo_segment :: segment where
  "demo_segment = \<lparr>sg_id = 2, sg_created = 4, sg_records = [lw_record (demo_write 0)], sg_tail = []\<rparr>"

definition demo_disk :: "segment \<Rightarrow> disk" where
  "demo_disk s = \<lparr>dk_exists = True,
     dk_files = [(segment_filename 1 (sg_id s), segment_bytes demo_crc 1 s)], dk_faults = [],
     dk_synced = [segment_filename 1 (sg_id s) \<mapsto> length (segment_bytes demo_crc 1 s)]\<rparr>"

lemma demo_fits: "lw_fits (demo_write n)"
  by (simp add: lw_fits_def demo_write_def)

lemma stores_one:
  assumes "segment_fits demo_crc s"
  shows "stores demo_crc 1 [s] (demo_disk s)"
  using assms by (simp add: stores_def demo_disk_def disk_ok_def disk_file_def hm_ok_def hm_get_def)

lemma demo_segment_fits: "segment_fits demo_crc demo_segment"
  using lw_fits_record [OF demo_fits] by (simp add: segment_fits_def demo_segment_def dead_tail_def)

lemmas demo_stores = stores_one [OF demo_segment_fits]

lemma open_replays_log_witness:
  "\<exists>w. writer_open demo_crc 9 1 1000 4 None 0 (demo_disk demo_segment) =
     (Inr (w, rp_index (replay_log 0 (segment_log demo_segment) (replay_init (table_new 4))),
        rp_streams (replay_log 0 (segment_log demo_segment) (replay_init (table_new 4)))),
      demo_disk demo_segment) \<and> ww_next_segment_id w = 3"
proof -
  have faults: "dk_faults (demo_disk demo_segment) = []" by (simp add: demo_disk_def)
  have log: "wal_log [demo_segment] = segment_log demo_segment" by (simp add: wal_log_def)
  have next_id: "ww_next_segment_id (opened crc shard m demo_segment rs) = 3" for crc shard m rs
    by (simp add: opened_def demo_segment_def)
  from conjunct1 [OF open_replays_log [OF demo_stores _ refl], THEN mp, OF _ faults]
  have "writer_open demo_crc 9 1 1000 4 None 0 (demo_disk demo_segment) =
      (let rs = replay_log 0 (segment_log demo_segment) (replay_init (table_new 4)) in
       (Inr (opened demo_crc 1 1000 demo_segment rs, rp_index rs, rp_streams rs), demo_disk demo_segment))"
    by (simp only: log last.simps recovered_from_def option.case Let_def not_Cons_self2 if_True simp_thms)
  with next_id show ?thesis unfolding Let_def by blast
qed

text \<open>
  C18: An append that succeeds behind whole records, that is, on a last segment with no torn bytes
  at its end, adds exactly one record to the log, the one that was asked for, at the location
  it returns, whether or not it rotates to a new segment; no torn bytes are left behind it, the
  entry id it returns is the one given, and the next entry id is beyond it. (A crash in the
  middle of a write leaves torn bytes that the next opening keeps; behind them an append is
  not seen by the recovery, which is a property of its own.)
\<close>

theorem append_adds_one_record:
  assumes "writer_at crc segs (w, d)" and "sg_tail (last segs) = []" and "lw_fits x"
    and "ww_next_segment_id w \<noteq> 0"
    and "length (segment_bytes crc (ww_shard_id w) (last segs)) < 2 ^ 64"
    and "append_with_log_index crc (lw_now x) (lw_seg_now x) (lw_stream_id x) (lw_epoch x)
      (lw_stream_lsn x) (lw_entry_id x) (lw_payload x) (w, d) = (Inr (e, loc), w', d')"
  shows "e = lw_entry_id x \<and> ww_next_entry_id w' = max (ww_next_entry_id w) (lw_entry_id x + 1) \<and>
    (\<exists>segs'. writer_at crc segs' (w', d') \<and> sg_tail (last segs') = [] \<and>
       wal_log segs' = wal_log segs @ [(loc, lw_record x)])"
  using append_write_log [OF assms(1-5) assms(6) [folded append_write_def]]
  by (auto simp: appended_def)

definition demo_writer :: wal_writer where
  "demo_writer = \<lparr>ww_shard_id = 1, ww_current_file = segment_filename 1 2,
     ww_current_segment_id = 2, ww_current_offset = 132, ww_next_entry_id = 11,
     ww_next_segment_id = 3, ww_max_segment_bytes = 200\<rparr>"

lemma demo_segment_length: "length (segment_bytes crc shard demo_segment) = 132"
  by (simp add: segment_bytes_length demo_segment_def length_records_bytes encoded_size_def
      RECORD_HEADER_SIZE_def lw_record_def demo_write_def)

lemma demo_writer_at: "writer_at demo_crc [demo_segment] (demo_writer, demo_disk demo_segment)"
  using demo_stores by (simp add: writer_at_def demo_writer_def stands_at_def demo_segment_length)
    (simp add: demo_segment_def)

text \<open>The write fills the segment beyond the 200 bytes of the writer, so it also rotates.\<close>

lemma append_adds_one_record_witness:
  "\<exists>loc w' d' segs'. append_with_log_index demo_crc 5 6 7 3 1 11 (replicate 20 97)
       (demo_writer, demo_disk demo_segment) = (Inr (11, loc), w', d') \<and>
     ww_current_segment_id w' = 3 \<and> writer_at demo_crc segs' (w', d') \<and>
     wal_log segs' = segment_log demo_segment @ [(loc, lw_record (demo_write 1))]"
proof -
  have x: "lw_now (demo_write 1) = 5" "lw_seg_now (demo_write 1) = 6"
    "lw_stream_id (demo_write 1) = 7" "lw_epoch (demo_write 1) = 3" "lw_stream_lsn (demo_write 1) = 1"
    "lw_entry_id (demo_write 1) = 11" "lw_payload (demo_write 1) = replicate 20 97"
    "encoded_size (lw_record (demo_write 1)) = 68"
    by (simp_all add: demo_write_def encoded_size_def RECORD_HEADER_SIZE_def lw_record_def)
  obtain w' d' where run: "append_write demo_crc (demo_write 1) (demo_writer, demo_disk demo_segment) =
      (Inr (11, located (demo_write 1) demo_writer), w', d')" and "ww_current_segment_id w' = 3"
    by (simp add: append_write_Inr advanced_def x demo_writer_def io_write_all_at_def demo_disk_def
        rotate_segment_def writer_sync_def io_sync_data_def create_segment_def io_create_new_def
        Let_def write_file_at_def put_file_def hm_get_def demo_segment_def)
  with append_adds_one_record [OF demo_writer_at _ demo_fits, of 1] show ?thesis
    unfolding append_write_def x
    by (auto simp: demo_segment_length wal_log_def demo_writer_def) (auto simp: demo_segment_def)
qed


subsection \<open>Crash in the middle of an append\<close>

text \<open>What the engine does in memory with an append that succeeded.\<close>

definition run_applied ::
  "log_write \<times> record_location \<Rightarrow> stream_log_index \<times> stream_state_table \<Rightarrow>
   stream_log_index \<times> stream_state_table" where
  "run_applied xl it =
     (index_insert (lw_stream_id (fst xl)) (lw_stream_lsn (fst xl)) (snd xl) (fst it),
      mark_committed (lw_stream_id (fst xl)) (lw_entry_id (fst xl)) (lw_stream_lsn (fst xl))
        (mark_appended (lw_stream_id (fst xl)) (lw_epoch (fst xl)) (lw_entry_id (fst xl))
          (lw_stream_lsn (fst xl)) (lw_payload (fst xl)) (snd it)))"

lemma replay_one:
  assumes "hm_ok (st_streams (rp_streams s))" and "base < lw_entry_id x"
  shows "(rp_index (replay_record base loc (lw_record x) s),
      rp_streams (replay_record base loc (lw_record x) s)) =
      run_applied (x, loc) (rp_index s, rp_streams s)"
    and "hm_ok (st_streams (rp_streams (replay_record base loc (lw_record x) s)))"
  using assms by (simp_all add: replay_record_def lw_record_def run_applied_def
      observe_recovered_applied mark_committed_def mark_appended_def Let_def)

lemma hm_ok_replay:
  "hm_ok (st_streams (rp_streams s)) \<Longrightarrow> hm_ok (st_streams (rp_streams (replay_log base l s)))"
  by (induction l arbitrary: s) (simp_all add: replay_record_def observe_recovered_def Let_def)

lemma replay_as_run:
  assumes "hm_ok (st_streams (rp_streams s))" and "\<forall>x \<in> set xs. base < lw_entry_id x"
    and "length locs = length xs" and "s' = replay_log base (zip locs (map lw_record xs)) s"
  shows "(rp_index s', rp_streams s') = fold run_applied (zip xs locs) (rp_index s, rp_streams s)"
  using assms
proof (induction xs arbitrary: locs s)
  case (Cons x xs)
  then obtain loc locs' where locs: "locs = loc # locs'" by (cases locs) auto
  let ?s = "replay_record base loc (lw_record x) s"
  have "(rp_index s', rp_streams s') = fold run_applied (zip xs locs') (rp_index ?s, rp_streams ?s)"
    using Cons.prems replay_one(2) [of s base x] locs by (intro Cons.IH) auto
  then show ?case using Cons.prems(1,2) locs by (simp add: replay_one(1))
qed simp

subsection \<open>What a restart does to a torn tail\<close>

text \<open>
  C39: Opening does not cut off a torn tail: the writer goes on behind it. A record appended
  there is written, synced and acknowledged, but as long as the torn bytes followed by the
  record do not decode, the next opening stops at the torn bytes: it finds the index and the
  stream table of the first opening, without the acknowledged record.
\<close>

theorem append_behind_torn_tail_lost:
  assumes "stores crc shard segs d" and "segs \<noteq> []"
    and first: "writer_open crc now shard max_bytes limit rec base d = (Inr (w, idx, t), d1)"
    and "ww_next_segment_id w \<noteq> 0" and "length (segment_bytes crc shard (last segs)) < 2 ^ 64"
    and dead: "dead_tail crc (sg_tail (last segs) @ record_layout crc (lw_record x))"
    and run: "append_write crc x (w, d1) = (Inr (e, loc), w', d2)"
    and second: "writer_open crc now' shard max_bytes limit rec base d2 = (Inr (w2, idx2, t2), d3)"
  shows "idx2 = idx \<and> t2 = t"
proof -
  define rs where "rs = replay_log base (wal_log segs) (replay_init (recovered_from limit rec))"
  let ?s = "torn (record_layout crc (lw_record x)) (last segs)"
  from writer_open_stores(1) [OF assms(1,2) rs_def first] have
    o1: "idx = rp_index rs" "t = rp_streams rs" and w: "w = opened crc shard max_bytes (last segs) rs"
    and st1: "stores crc shard segs d1" by auto
  have shard: "ww_shard_id w = shard" by (simp add: w opened_def)
  have at: "writer_at crc segs (w, d1)" using st1 assms(2) shard by (simp add: writer_at_def w)
  have fits: "segment_fits crc ?s"
    using assms(1,2) dead by (intro torn_fits) (auto simp: stores_def)
  have "\<exists>segs'. stores crc shard segs' d2 \<and> segs' \<noteq> [] \<and> wal_log segs' = wal_log segs"
    using append_write_extends [OF at assms(4) _ torn_simps(1) fits _ run] assms(5) shard
      wal_log_torn [OF assms(2), of "record_layout crc (lw_record x)"]
    by (auto simp: writer_at_def wal_log_def advanced_def)
  then obtain segs' where st': "stores crc shard segs' d2" "segs' \<noteq> []"
    and "wal_log segs' = wal_log segs" by blast
  then have "rs = replay_log base (wal_log segs') (replay_init (recovered_from limit rec))"
    by (simp add: rs_def)
  from writer_open_stores(1) [OF st' this second] o1 show ?thesis by simp
qed

definition last_crc :: "bytes \<Rightarrow> u32" where
  "last_crc bs = ucast (last bs)"

definition small_write :: "u64 \<Rightarrow> log_write" where
  "small_write n = \<lparr>lw_now = 5, lw_seg_now = 6, lw_stream_id = 7, lw_epoch = 3,
     lw_stream_lsn = n, lw_entry_id = n + 10, lw_payload = [97]\<rparr>"

lemma be64_3: "be64 3 = [0, 0, 0, 0, 0, 0, 0, 3]"
  by (simp add: be64_def be_bytes_numeral)

lemma small_layout:
  "record_layout last_crc (lw_record (small_write n)) =
     [0, 0, 0, 97, 0, 0, 0, 41] @ be64 7 @ be64 3 @ be64 (n + 10) @ be64 n @ be64 5 @ [97]"
  by (simp add: record_layout_def record_body_def last_crc_def small_write_def encoded_size_def
      RECORD_HEADER_SIZE_def lw_record_def be32_def be_bytes_numeral)

definition torn_demo :: segment where
  "torn_demo = \<lparr>sg_id = 2, sg_created = 4, sg_records = [lw_record (small_write 0)],
     sg_tail = take 30 (record_layout last_crc (lw_record (small_write 1)))\<rparr>"

lemma small_fits: "record_fits (lw_record (small_write n))" "encoded_size (lw_record (small_write n)) = 49"
  by (simp_all add: record_fits_def lw_record_def small_write_def encoded_size_def
      RECORD_HEADER_SIZE_def)

lemma torn_demo_dead: "dead_tail last_crc (sg_tail torn_demo @ record_layout last_crc (lw_record (small_write 2)))"
proof -
  have "decode_record last_crc (sg_tail torn_demo @ record_layout last_crc (lw_record (small_write 2))) =
      Inl (Err (CrcMismatch 97 0))"
    by (simp add: torn_demo_def small_layout be64_3 be64_def be_bytes_numeral decode_record_def
        RECORD_HEADER_SIZE_def of_be32_def last_crc_def subslice_def)
  then show ?thesis by (simp add: dead_tail_def)
qed

lemma torn_demo_stores: "stores last_crc 1 [torn_demo]
    \<lparr>dk_exists = True, dk_files = [(segment_filename 1 2, segment_bytes last_crc 1 torn_demo)],
     dk_faults = [], dk_synced = Map.empty\<rparr>"
proof -
  have "dead_tail last_crc (sg_tail torn_demo)"
    using dead_tail_front [OF small_fits(1)] by (simp add: torn_demo_def small_fits)
  then have "segment_fits last_crc torn_demo" "sg_id torn_demo = 2"
    by (simp_all add: segment_fits_def torn_demo_def small_fits)
  then show ?thesis
    by (simp add: stores_def disk_ok_def disk_file_def hm_ok_def hm_get_def)
qed

lemma append_behind_torn_tail_lost_witness:
  "\<exists>w idx t d1 loc w' d2 w2 d3.
     writer_open last_crc 9 1 1000 4 None 0
       \<lparr>dk_exists = True, dk_files = [(segment_filename 1 2, segment_bytes last_crc 1 torn_demo)],
        dk_faults = [], dk_synced = Map.empty\<rparr> = (Inr (w, idx, t), d1) \<and>
     append_write last_crc (small_write 2) (w, d1) = (Inr (12, loc), w', d2) \<and>
     writer_open last_crc 9 1 1000 4 None 0 d2 = (Inr (w2, idx, t), d3)"
proof -
  define d where "d = \<lparr>dk_exists = True,
    dk_files = [(segment_filename 1 2, segment_bytes last_crc 1 torn_demo)], dk_faults = [], dk_synced = Map.empty\<rparr>"
  define rs where "rs = replay_log 0 (wal_log [torn_demo]) (replay_init (recovered_from 4 None))"
  let ?w = "opened last_crc 1 1000 torn_demo rs"
  note st = torn_demo_stores [folded d_def]
  have id: "sg_id torn_demo = 2" "lw_entry_id (small_write 2) = 12"
    by (simp_all add: torn_demo_def small_write_def)
  have len: "length (segment_bytes last_crc 1 torn_demo) = 143"
    by (simp add: segment_bytes_length torn_demo_def small_fits length_records_bytes)
  have open1: "writer_open last_crc 9 1 1000 4 None 0 d = (Inr (?w, rp_index rs, rp_streams rs), d)"
    using writer_open_stores(2) [OF st _ rs_def, of 9 1000] by (simp add: d_def)
  define d2 where "d2 = write_file_at (segment_filename 1 2) 143
    (record_layout last_crc (lw_record (small_write 2))) d"
  obtain loc where run:
    "append_write last_crc (small_write 2) (?w, d) = (Inr (12, loc), advanced (small_write 2) ?w, d2)"
    by (simp add: append_write_Inr advanced_def opened_def len small_fits io_write_all_at_def id
        d2_def) (simp add: d_def)
  let ?s = "torn (record_layout last_crc (lw_record (small_write 2))) torn_demo"
  have at: "writer_at last_crc [torn_demo] (?w, d)"
    using st by (simp add: writer_at_def) (simp add: opened_def)
  have fits: "segment_fits last_crc ?s"
    using st torn_demo_dead by (intro torn_fits) (simp_all add: stores_def)
  have "stores last_crc 1 [?s] d2"
    using append_write_extends [OF at _ _ _ fits _ run] id len
    by (auto simp: writer_at_def opened_def advanced_def new_segment_def)
  from writer_open_stores(2) [OF this _ refl, of 9 1000 4 None 0] obtain w2 idx2 t2 where open2:
    "writer_open last_crc 9 1 1000 4 None 0 d2 = (Inr (w2, idx2, t2), d2)"
    by (auto simp: d2_def) (simp add: d_def)
  have "ww_next_segment_id ?w \<noteq> 0" by (simp add: opened_def id)
  with append_behind_torn_tail_lost [OF st _ open1 _ _ _ run open2] torn_demo_dead len
  have "idx2 = rp_index rs \<and> t2 = rp_streams rs" by simp
  with open1 run open2 show ?thesis unfolding d_def by blast
qed


subsection \<open>A segment without its header\<close>

definition one_file :: "u16 \<Rightarrow> u64 \<Rightarrow> bytes \<Rightarrow> disk" where
  "one_file shard g content =
     \<lparr>dk_exists = True, dk_files = [(segment_filename shard g, content)], dk_faults = [], dk_synced = Map.empty\<rparr>"

lemma one_file_simps [simp]:
  "dk_faults (one_file shard g content) = []" "dk_exists (one_file shard g content)"
  "hm_get (dk_files (one_file shard g content)) (segment_filename shard g) = Some content"
  "write_file_at (segment_filename shard g) off src (one_file shard g content) =
     one_file shard g (write_at content off src)"
  by (simp_all add: one_file_def hm_get_def write_file_at_def put_file_def)

lemma list_one_file [simp]:
  "list_segments shard (one_file shard g content) =
     (Inr [(g, segment_filename shard g)], one_file shard g content)"
  by (simp add: list_segments_def io_read_dir_def segments_of_def map_filter_simps
      one_file_def hm_keys_def)

lemma open_one_file:
  "writer_open crc now shard max_bytes limit rec base (one_file shard g content) =
     and_then (replay_segment crc base (g, segment_filename shard g)
         (replay_init (recovered_from limit rec)) (one_file shard g content)) (\<lambda>s d.
       and_then (writer_io (io_file_len (segment_filename shard g) d)) (\<lambda>len d.
       and_then (writer_io (io_open (segment_filename shard g) d)) (\<lambda>fname d.
         (Inr (\<lparr>ww_shard_id = shard, ww_current_file = fname, ww_current_segment_id = g,
            ww_current_offset = of_nat len, ww_next_entry_id = rp_next_entry_id s,
            ww_next_segment_id = g + 1, ww_max_segment_bytes = max_bytes\<rparr>,
            rp_index s, rp_streams s), d))))"
proof -
  have "io_create_dir_all (one_file shard g content) = (Inr (), one_file shard g content)"
    by (simp add: io_create_dir_all_def one_file_def)
  then show ?thesis
    by (simp add: writer_open_def replay_init_def recovered_from_def and_then_def map_err_def
        split: prod.splits sum.splits)
qed

definition writer_at_start :: "u16 \<Rightarrow> u64 \<Rightarrow> u64 \<Rightarrow> wal_writer" where
  "writer_at_start shard g max_bytes =
     \<lparr>ww_shard_id = shard, ww_current_file = segment_filename shard g,
      ww_current_segment_id = g, ww_current_offset = 0, ww_next_entry_id = 0,
      ww_next_segment_id = g + 1, ww_max_segment_bytes = max_bytes\<rparr>"

text \<open>
  A crash between creating a segment file and writing its header leaves an empty file.
  The next opening accepts it and places the writer at offset 0, so the first record (here of
  at least 16 payload bytes, not filling the segment) is written where the header belongs and
  acknowledged; the opening after that fails with a bad magic, unless the checksum of the
  record happens to be the magic number.
\<close>

theorem headerless_segment_blocks_restart:
  fixes x :: log_write
  assumes "16 \<le> length (lw_payload x)"
    and "of_nat (encoded_size (lw_record x)) < max_bytes"
    and "crc (record_body (lw_record x)) \<noteq> SEGMENT_MAGIC"
  shows "create_segment now shard g \<lparr>dk_exists = True, dk_files = [], dk_faults = [IoOk, IoFail 0], dk_synced = Map.empty\<rparr> =
      (Inl (Err (WriterIo IoFault)), one_file shard g []) \<and>
    writer_open crc now shard max_bytes limit rec base (one_file shard g []) =
      (Inr (writer_at_start shard g max_bytes, index_new, recovered_from limit rec), one_file shard g []) \<and>
    append_write crc x (writer_at_start shard g max_bytes, one_file shard g []) =
      (Inr (lw_entry_id x, located x (writer_at_start shard g max_bytes)),
       advanced x (writer_at_start shard g max_bytes),
       one_file shard g (record_layout crc (lw_record x))) \<and>
    fst (writer_open crc now' shard max_bytes limit rec base
      (one_file shard g (record_layout crc (lw_record x)))) =
      Inl (Err (WriterSegment (BadSegmentMagic (crc (record_body (lw_record x))))))"
proof (intro conjI)
  show "create_segment now shard g \<lparr>dk_exists = True, dk_files = [], dk_faults = [IoOk, IoFail 0], dk_synced = Map.empty\<rparr> =
      (Inl (Err (WriterIo IoFault)), one_file shard g [])"
    by (simp add: create_segment_def io_create_new_def io_guard_def next_outcome_def
        io_write_all_at_def put_file_def write_file_at_def one_file_def hm_get_def write_at_def)
  show "writer_open crc now shard max_bytes limit rec base (one_file shard g []) =
      (Inr (writer_at_start shard g max_bytes, index_new, recovered_from limit rec), one_file shard g [])"
    by (simp add: open_one_file replay_segment_def io_read_def SEGMENT_HEADER_SIZE_def
        io_file_len_def io_open_def writer_at_start_def replay_init_def)
  show "append_write crc x (writer_at_start shard g max_bytes, one_file shard g []) =
      (Inr (lw_entry_id x, located x (writer_at_start shard g max_bytes)),
       advanced x (writer_at_start shard g max_bytes),
       one_file shard g (record_layout crc (lw_record x)))"
    using assms(2) [folded not_le]
    by (simp add: append_write_Inr io_write_all_at_def advanced_def writer_at_start_def)
  have "take 4 (record_layout crc (lw_record x)) = be32 (crc (record_body (lw_record x)))"
    by (simp add: record_layout_def)
  moreover have "\<not> length (record_layout crc (lw_record x)) < SEGMENT_HEADER_SIZE"
    using assms(1) by (simp add: encoded_size_def SEGMENT_HEADER_SIZE_def RECORD_HEADER_SIZE_def
        lw_record_def)
  ultimately show "fst (writer_open crc now' shard max_bytes limit rec base
      (one_file shard g (record_layout crc (lw_record x)))) =
      Inl (Err (WriterSegment (BadSegmentMagic (crc (record_body (lw_record x))))))"
    using assms(3) by (simp add: open_one_file replay_segment_def io_read_def
        decode_segment_header_def SEGMENT_HEADER_SIZE_def min_def Let_def)
qed

lemma headerless_segment_blocks_restart_witness:
  "fst (writer_open last_crc 9 1 1000 4 None 0
     (one_file 1 2 (record_layout last_crc (lw_record (demo_write 1))))) =
   Inl (Err (WriterSegment (BadSegmentMagic 97)))"
proof -
  have "last_crc (record_body (lw_record (demo_write 1))) = 97"
    by (simp add: last_crc_def record_body_def lw_record_def demo_write_def)
  then show ?thesis
    using headerless_segment_blocks_restart [of "demo_write 1" 1000 last_crc 9 1 2 4 None 0 9]
    by (simp add: demo_write_def SEGMENT_MAGIC_def encoded_size_def lw_record_def
        RECORD_HEADER_SIZE_def)
qed

end
