(* ===== verification/Crash.thy ===== *)
theory Crash
  imports Recovery
begin

text \<open>
  Crashes of a shard. The log is written in batches, each followed by a sync, as the engine does
  with batches of one record; then one more append is interrupted at any of its calls, in the
  middle of the record, in a rotation or in the creation of a segment; the process ends, or
  the power fails; and the directory is opened again.
\<close>

definition log_name :: "u16 \<Rightarrow> segment \<Rightarrow> string" where
  "log_name shard s = segment_filename shard (sg_id s)"

definition files_synced :: "(bytes \<Rightarrow> u32) \<Rightarrow> u16 \<Rightarrow> segment list \<Rightarrow> disk \<Rightarrow> bool" where
  "files_synced crc shard segs d =
     (\<forall>s \<in> set segs. dk_synced d (log_name shard s) = Some (length (segment_bytes crc shard s)))"

lemma files_synced_simps [simp]:
  "files_synced crc shard [] d"
  "files_synced crc shard (segs @ segs') d \<longleftrightarrow> files_synced crc shard segs d \<and> files_synced crc shard segs' d"
  "files_synced crc shard [s] d \<longleftrightarrow> dk_synced d (log_name shard s) = Some (length (segment_bytes crc shard s))"
  by (auto simp: files_synced_def)

lemma files_synced_butlast: "files_synced crc shard segs d \<Longrightarrow> files_synced crc shard (butlast segs) d"
  by (auto simp: files_synced_def dest: in_set_butlastD)

lemma log_name_inj: "log_name shard s = log_name shard s' \<longleftrightarrow> sg_id s = sg_id s'"
  unfolding log_name_def by (metis option.inject parse_segment_filename_roundtrip prod.inject)

subsection \<open>What a call leaves behind, whatever its outcome\<close>

definition same_disk :: "disk \<Rightarrow> disk \<Rightarrow> bool" where
  "same_disk d d' = (same_files d d' \<and> dk_synced d' = dk_synced d)"

lemma next_outcome_same_disk: "next_outcome d = (out, d') \<Longrightarrow> same_disk d d'"
  by (auto simp: next_outcome_def same_disk_def same_files_def split: list.splits)

lemma same_disk_facts:
  "same_disk d d' \<Longrightarrow> disk_ok d' = disk_ok d" "same_disk d d' \<Longrightarrow> disk_file d' = disk_file d"
  "same_disk d d' \<Longrightarrow> dk_exists d' = dk_exists d" "same_disk d d' \<Longrightarrow> dk_synced d' = dk_synced d"
  by (simp_all add: same_disk_def same_files_facts) (simp_all add: same_files_def)

lemma write_any:
  assumes "io_write_all_at name src off d = (res, d')"
  shows "\<exists>k d0. same_disk d d0 \<and> d' = write_file_at name off (take k src) d0 \<and> (res = Inr () \<longrightarrow> length src \<le> k)"
proof -
  obtain f d0 where o: "next_outcome d = (f, d0)" by force
  note same = next_outcome_same_disk [OF o]
  show ?thesis
  proof (cases f)
    case IoOk
    with assms o same show ?thesis by (intro exI [of _ "length src"] exI [of _ d0]) (auto simp: io_write_all_at_def)
  next
    case (IoFail n)
    with assms o same show ?thesis by (intro exI [of _ n] exI [of _ d0]) (auto simp: io_write_all_at_def)
  qed
qed

lemma sync_any:
  assumes "io_sync_data name d = (res, d')" and "disk_file d name = Some c"
  shows "same_files d d' \<and> dk_synced d' = (if res = Inr () then (dk_synced d)(name \<mapsto> length c) else dk_synced d)"
proof -
  obtain f d0 where o: "next_outcome d = (f, d0)" by force
  note same = same_disk_facts(2,4) [OF next_outcome_same_disk [OF o]] next_outcome_same_disk [OF o]
  show ?thesis
    using assms o same unfolding disk_file_def
    by (cases f) (auto simp: io_sync_data_def io_guard_def same_disk_def same_files_def)
qed

lemma create_any:
  assumes "io_create_new name d = (res, d')" and "disk_file d name = None"
  shows "(\<exists>e. res = Inl e) \<and> same_disk d d' \<or> res = Inr name \<and> (\<exists>d0. same_disk d d0 \<and> d' = put_file name [] d0)"
proof -
  obtain f d0 where o: "next_outcome d = (f, d0)" by force
  note same = next_outcome_same_disk [OF o]
  with same_disk_facts(2) [OF this] assms(2) have "hm_get (dk_files d0) name = None" by (metis disk_file_def)
  with assms(1) o same show ?thesis
    by (cases f) (auto simp: io_create_new_def io_guard_def)
qed

lemma write_end_view:
  assumes "disk_ok d" and "disk_file d name = Some c"
  shows "disk_file (write_file_at name (length c) bs d) = (disk_file d)(name \<mapsto> c @ bs)"
    and "dk_synced (write_file_at name (length c) bs d) =
      (dk_synced d)(name := map_option (min (length c)) (dk_synced d name))"
  using assms by (auto simp: fun_eq_iff write_at_end) (simp_all add: write_file_at_def disk_file_def)

lemma rotate_disk:
  "snd (snd (rotate_segment now (w, d))) =
     (case io_sync_data (ww_current_file w) d of (Inl _, d1) \<Rightarrow> d1
      | (Inr _, d1) \<Rightarrow>
     (case io_create_new (segment_filename (ww_shard_id w) (ww_next_segment_id w)) d1 of (Inl _, d2) \<Rightarrow> d2
      | (Inr name, d2) \<Rightarrow>
          snd (io_write_all_at name (encode_segment_header (ww_shard_id w) (ww_next_segment_id w) now) 0 d2)))"
  by (auto simp: rotate_segment_def writer_sync_def create_segment_def Let_def and_then_def beside_def map_err_def
      split: prod.splits sum.splits)

lemma append_disk:
  "snd (snd (append_write crc x (w, d))) =
     (case io_write_all_at (ww_current_file w) (record_layout crc (lw_record x)) (unat (ww_current_offset w)) d of
        (Inl _, d1) \<Rightarrow> d1
      | (Inr _, d1) \<Rightarrow>
          if ww_max_segment_bytes w \<le> ww_current_offset (advanced x w)
          then snd (snd (rotate_segment (lw_seg_now x) (advanced x w, d1))) else d1)"
  by (auto simp: append_write_def append_with_log_index_def encode_to_vec_layout Let_def and_then_def beside_def
      map_err_def advanced_def lw_record_def split: prod.splits sum.splits if_splits)

subsection \<open>An interrupted append\<close>

text \<open>The last segment with the first \<open>k\<close> bytes of a record behind it, and a directory in which the
  next segment file only has the first bytes \<open>bs\<close> of its header.\<close>

definition cut_record :: "(bytes \<Rightarrow> u32) \<Rightarrow> nat \<Rightarrow> log_write \<Rightarrow> segment \<Rightarrow> segment" where
  "cut_record crc k x s =
     (if k < encoded_size (lw_record x) then torn (take k (record_layout crc (lw_record x))) s
      else add_record (lw_record x) s)"

definition stores_part :: "(bytes \<Rightarrow> u32) \<Rightarrow> u16 \<Rightarrow> segment list \<Rightarrow> u64 \<Rightarrow> bytes \<Rightarrow> disk \<Rightarrow> bool" where
  "stores_part crc shard segs g bs d =
     (lists shard (map sg_id segs @ [g]) d \<and>
      (\<forall>s \<in> set segs. segment_fits crc s \<and> disk_file d (log_name shard s) = Some (segment_bytes crc shard s)) \<and>
      disk_file d (segment_filename shard g) = Some bs)"

lemma cut_record_simps:
  assumes "segment_fits crc s" and "sg_tail s = []" and "lw_fits x"
  shows "sg_id (cut_record crc k x s) = sg_id s" and "segment_fits crc (cut_record crc k x s)"
    and "segment_bytes crc shard (cut_record crc k x s) =
      segment_bytes crc shard s @ take k (record_layout crc (lw_record x))"
  using assms add_record_simps [OF assms(1,2) lw_fits_record [OF assms(3)]]
    dead_tail_front [OF lw_fits_record [OF assms(3)], of k crc]
  by (auto simp: cut_record_def intro: torn_fits)

lemma stores_last:
  assumes "stores crc shard (segs @ [s]) d" and "sg_id s' = sg_id s" and "segment_fits crc s'"
    and "disk_ok d'" and "dk_exists d'"
    and "\<And>t. t \<in> set segs \<Longrightarrow> disk_file d' (log_name shard t) = disk_file d (log_name shard t)"
    and "disk_file d' (log_name shard s) = Some (segment_bytes crc shard s')"
    and "\<And>name. disk_file d name = None \<Longrightarrow> disk_file d' name = None"
  shows "stores crc shard (segs @ [s']) d'"
proof -
  have ids: "sg_id ` set (segs @ [s']) = sg_id ` set (segs @ [s])" using assms(2) by simp
  have names: "\<forall>name g. parse_segment_filename name = Some (shard, g) \<longrightarrow> disk_file d name \<noteq> None \<longrightarrow>
      name = segment_filename shard g \<and> g \<in> sg_id ` set (segs @ [s])"
    using assms(1) unfolding stores_def by blast
  have "\<forall>name g. parse_segment_filename name = Some (shard, g) \<longrightarrow> disk_file d' name \<noteq> None \<longrightarrow>
      name = segment_filename shard g \<and> g \<in> sg_id ` set (segs @ [s'])"
    unfolding ids using names assms(8) by metis
  moreover have "sorted_wrt (<) (map sg_id (segs @ [s']))" using assms(1,2) by (simp add: stores_def)
  moreover have "\<forall>t \<in> set (segs @ [s']). segment_fits crc t \<and>
      disk_file d' (segment_filename shard (sg_id t)) = Some (segment_bytes crc shard t)"
  proof
    fix t assume "t \<in> set (segs @ [s'])"
    then consider "t \<in> set segs" | "t = s'" by auto
    then show "segment_fits crc t \<and> disk_file d' (segment_filename shard (sg_id t)) = Some (segment_bytes crc shard t)"
    proof cases
      case 1
      with assms(6) [OF 1] assms(1) show ?thesis by (simp add: stores_def log_name_def)
    next
      case 2
      with assms(2,3,7) show ?thesis by (simp add: log_name_def)
    qed
  qed
  ultimately show ?thesis using assms(4,5) unfolding stores_def by blast
qed

lemma other_log_names:
  assumes "stores crc shard (segs @ [s]) d" and "t \<in> set segs"
  shows "log_name shard t \<noteq> log_name shard s"
  using assms unfolding log_name_inj by (auto simp: stores_def sorted_wrt_append)

lemma next_not_stored:
  assumes "writer_at crc segs (w, d)" and "ww_next_segment_id w \<noteq> 0"
  shows "disk_file d (segment_filename (ww_shard_id w) (ww_next_segment_id w)) = None"
    and "\<forall>s \<in> set segs. sg_id s < ww_next_segment_id w"
proof -
  let ?g = "ww_next_segment_id w"
  have st: "stores crc (ww_shard_id w) segs d" and last: "segs \<noteq> []" "?g = sg_id (last segs) + 1"
    using assms(1) by (auto simp: writer_at_def stands_at_def)
  then have "sg_id (last segs) < ?g"
    using assms(2) unatSuc [of "sg_id (last segs)"] by (simp add: word_less_nat_alt add.commute)
  moreover have "sg_id s \<le> sg_id (last segs)" if "s \<in> set segs" for s
    using st last(1) that by (cases segs rule: rev_cases)
      (auto simp: stores_def sorted_wrt_append intro: less_imp_le)
  ultimately show ids: "\<forall>s \<in> set segs. sg_id s < ?g" by force
  then have "?g \<notin> sg_id ` set segs" by force
  then show "disk_file d (segment_filename (ww_shard_id w) ?g) = None"
    using st unfolding stores_def by (metis parse_segment_filename_roundtrip)
qed

text \<open>What the write of a record leaves, and what a rotation leaves.\<close>

lemma record_write_any:
  assumes at: "writer_at crc segs (w, d)" and tail: "sg_tail (last segs) = []" and x: "lw_fits x"
    and room: "length (segment_bytes crc (ww_shard_id w) (last segs)) < 2 ^ 64"
    and same: "same_disk d da"
    and wr: "io_write_all_at (ww_current_file w) (record_layout crc (lw_record x)) (unat (ww_current_offset w)) da = (res, d1)"
  shows "\<exists>k. stores crc (ww_shard_id w) (butlast segs @ [cut_record crc k x (last segs)]) d1 \<and>
    dk_synced d1 = (dk_synced d)(ww_current_file w := map_option
      (min (length (segment_bytes crc (ww_shard_id w) (last segs)))) (dk_synced d (ww_current_file w))) \<and>
    (res = Inr () \<longrightarrow> cut_record crc k x (last segs) = add_record (lw_record x) (last segs))"
proof -
  let ?shard = "ww_shard_id w" and ?s = "last segs"
  have st: "stores crc ?shard (butlast segs @ [?s]) d" and w: "stands_at crc w ?s"
    using at by (auto simp: writer_at_def)
  have cur: "ww_current_file w = log_name ?shard ?s" using w by (simp add: stands_at_def log_name_def)
  have off: "unat (ww_current_offset w) = length (segment_bytes crc ?shard ?s)"
    using w room by (simp add: stands_at_def unat_u64_of_nat)
  from write_any [OF wr] obtain k d0 where d0: "same_disk da d0"
    "d1 = write_file_at (log_name ?shard ?s) (length (segment_bytes crc ?shard ?s))
      (take k (record_layout crc (lw_record x))) d0"
    and k: "res = Inr () \<longrightarrow> encoded_size (lw_record x) \<le> k"
    unfolding cur off by auto
  have fits: "segment_fits crc ?s" and content: "disk_file d (log_name ?shard ?s) = Some (segment_bytes crc ?shard ?s)"
    and ok: "disk_ok d" "dk_exists d" using st by (auto simp: stores_def log_name_def)
  note eqs = same_disk_facts [OF same] same_disk_facts [OF d0(1)]
  have ok0: "disk_ok d0" "disk_file d0 (log_name ?shard ?s) = Some (segment_bytes crc ?shard ?s)"
    using ok content by (simp_all add: eqs)
  note cut = cut_record_simps [OF fits tail x, where k = k]
  note view = write_end_view [OF ok0, of "take k (record_layout crc (lw_record x))"]
  have "stores crc ?shard (butlast segs @ [cut_record crc k x ?s]) d1"
  proof (rule stores_last [OF st cut(1,2)])
    show "disk_ok d1" "dk_exists d1" using ok0 ok by (simp_all add: d0(2) eqs)
    show "disk_file d1 (log_name ?shard t) = disk_file d (log_name ?shard t)" if "t \<in> set (butlast segs)" for t
      using other_log_names [OF st that] by (simp add: d0(2) view eqs)
  qed (auto simp: d0(2) view cut(3) eqs content)
  moreover have "dk_synced d1 = (dk_synced d)(ww_current_file w := map_option
      (min (length (segment_bytes crc ?shard ?s))) (dk_synced d (ww_current_file w)))"
    by (simp add: d0(2) view eqs cur)
  ultimately show ?thesis using k by (intro exI [of _ k]) (auto simp: cut_record_def)
qed

lemma rotation_any:
  assumes at: "writer_at crc segs (w, d)" and seg: "ww_next_segment_id w \<noteq> 0"
    and others: "files_synced crc (ww_shard_id w) (butlast segs) d"
    and d': "d' = snd (snd (rotate_segment now (w, d)))"
  shows "stores crc (ww_shard_id w) segs d' \<and> files_synced crc (ww_shard_id w) (butlast segs) d' \<and>
      (dk_synced d' = dk_synced d \<or> files_synced crc (ww_shard_id w) segs d') \<or>
    (\<exists>k. stores_part crc (ww_shard_id w) segs (ww_next_segment_id w)
        (take k (encode_segment_header (ww_shard_id w) (ww_next_segment_id w) now)) d' \<and>
      files_synced crc (ww_shard_id w) segs d')"
proof -
  let ?shard = "ww_shard_id w" and ?g = "ww_next_segment_id w"
  let ?hdr = "encode_segment_header ?shard ?g now" and ?G = "segment_filename ?shard ?g"
  have st: "stores crc ?shard segs d" and ne: "segs \<noteq> []" and w: "stands_at crc w (last segs)"
    using at by (auto simp: writer_at_def)
  have cur: "ww_current_file w = log_name ?shard (last segs)" using w by (simp add: stands_at_def log_name_def)
  have content: "disk_file d (ww_current_file w) = Some (segment_bytes crc ?shard (last segs))"
    using st ne by (auto simp: stores_def cur log_name_def)
  obtain r1 d1 where sync: "io_sync_data (ww_current_file w) d = (r1, d1)" by force
  from sync_any [OF sync content] have s1: "same_files d d1"
    and sy: "dk_synced d1 = (if r1 = Inr () then (dk_synced d)(ww_current_file w \<mapsto>
      length (segment_bytes crc ?shard (last segs))) else dk_synced d)" by auto
  have st1: "stores crc ?shard segs d1" by (rule stores_same [OF s1 st])
  have segs: "segs = butlast segs @ [last segs]" using ne by simp
  show ?thesis
  proof (cases r1)
    case (Inl e)
    with st1 sy others show ?thesis by (auto simp: d' rotate_disk sync files_synced_def)
  next
    case (Inr u)
    have names: "log_name ?shard t \<noteq> ww_current_file w" if "t \<in> set (butlast segs)" for t
      using other_log_names [of crc ?shard "butlast segs" "last segs" d] st segs that by (simp add: cur)
    have "files_synced crc ?shard (butlast segs) d1" using others names by (auto simp: sy Inr files_synced_def)
    moreover have "files_synced crc ?shard [last segs] d1" by (simp add: sy Inr cur)
    ultimately have all: "files_synced crc ?shard segs d1" using segs files_synced_simps(2) by metis
    have None: "disk_file d1 ?G = None" using next_not_stored(1) [OF at seg] s1 by (simp add: same_files_facts)
    obtain r2 d2 where new: "io_create_new ?G d1 = (r2, d2)" by force
    from create_any [OF this None] consider (no) e where "r2 = Inl e" "same_disk d1 d2"
      | (yes) d0 where "r2 = Inr ?G" "same_disk d1 d0" "d2 = put_file ?G [] d0" by blast
    then show ?thesis
    proof cases
      case no
      have "same_files d1 d2" using no(2) by (simp add: same_disk_def)
      from stores_same [OF this st1] have "stores crc ?shard segs d2" .
      moreover have "files_synced crc ?shard segs d2"
        using all by (simp add: files_synced_def same_disk_facts(4) [OF no(2)])
      moreover have "d' = d2" using no(1) Inr sync new by (simp add: d' rotate_disk)
      ultimately show ?thesis using files_synced_butlast by blast
    next
      case yes
      obtain r3 d3 where hdr: "io_write_all_at ?G ?hdr 0 d2 = (r3, d3)" by force
      from write_any [OF hdr] obtain k da where da: "same_disk d2 da" "d3 = write_file_at ?G 0 (take k ?hdr) da"
        by blast
      have ok: "disk_ok d1" "dk_exists d1" using st1 by (simp_all add: stores_def)
      have "disk_ok da" "disk_file da ?G = Some []"
        using ok yes by (simp_all add: same_disk_facts [OF da(1)] same_disk_facts [OF yes(2)])
      note view = write_end_view [OF this, of "take k ?hdr"]
      have files: "disk_file d3 = (disk_file d1)(?G \<mapsto> take k ?hdr)"
        using view(1) ok yes by (auto simp: da(2) same_disk_facts [OF da(1)] same_disk_facts [OF yes(2)] fun_eq_iff)
      have synced: "dk_synced d3 = (dk_synced d1)(?G := None)"
        using view(2) yes by (auto simp: da(2) same_disk_facts [OF da(1)] same_disk_facts [OF yes(2)] fun_eq_iff put_file_def)
      have ok3: "disk_ok d3" "dk_exists d3"
        using ok yes by (simp_all add: da(2) same_disk_facts [OF da(1)] same_disk_facts [OF yes(2)])
      note less = next_not_stored(2) [OF at seg]
      have neG: "log_name ?shard s \<noteq> ?G" if "s \<in> set segs" for s
        using less that log_name_inj [of ?shard s "s\<lparr>sg_id := ?g\<rparr>"] by (auto simp: log_name_def)
      have "files_synced crc ?shard segs d3" using all neG by (auto simp: files_synced_def synced)
      moreover have "stores_part crc ?shard segs ?g (take k ?hdr) d3"
        using st1 less neG ok3 unfolding stores_part_def lists_def stores_def
        by (auto simp: files sorted_wrt_append log_name_def)
      ultimately show ?thesis using yes Inr sync new hdr by (auto simp: d' rotate_disk)
    qed
  qed
qed

subsection \<open>Appends that succeed, and syncs\<close>

lemma append_write_cases:
  assumes "append_write crc x (w, d) = (res, w', d')"
    and "io_write_all_at (ww_current_file w) (record_layout crc (lw_record x)) (unat (ww_current_offset w)) d = (r, d1)"
  shows "r \<noteq> Inr () \<Longrightarrow> d' = d1 \<and> (\<exists>e. res = Inl e)"
    and "r = Inr () \<Longrightarrow> ww_current_offset (advanced x w) < ww_max_segment_bytes w \<Longrightarrow> d' = d1"
    and "r = Inr () \<Longrightarrow> ww_max_segment_bytes w \<le> ww_current_offset (advanced x w) \<Longrightarrow>
      d' = snd (snd (rotate_segment (lw_seg_now x) (advanced x w, d1)))"
proof -
  have d': "d' = snd (snd (append_write crc x (w, d)))" using assms(1) by simp
  show "r \<noteq> Inr () \<Longrightarrow> d' = d1 \<and> (\<exists>e. res = Inl e)"
    using d' assms append_write_Inr [of crc x w d] unfolding append_disk
    by (cases r; cases res) auto
  show "r = Inr () \<Longrightarrow> ww_current_offset (advanced x w) < ww_max_segment_bytes w \<Longrightarrow> d' = d1"
    using d' assms(2) unfolding append_disk by simp
  show "r = Inr () \<Longrightarrow> ww_max_segment_bytes w \<le> ww_current_offset (advanced x w) \<Longrightarrow>
      d' = snd (snd (rotate_segment (lw_seg_now x) (advanced x w, d1)))"
    using d' assms(2) unfolding append_disk by simp
qed

lemma advanced_fields [simp]:
  "ww_shard_id (advanced x w) = ww_shard_id w" "ww_next_segment_id (advanced x w) = ww_next_segment_id w"
  "ww_current_file (advanced x w) = ww_current_file w"
  "ww_current_segment_id (advanced x w) = ww_current_segment_id w"
  by (simp_all add: advanced_def)

lemma advanced_at:
  assumes at: "writer_at crc segs (w, d)" and tail: "sg_tail (last segs) = []" and x: "lw_fits x"
    and st: "stores crc (ww_shard_id w) (butlast segs @ [add_record (lw_record x) (last segs)]) d1"
  shows "writer_at crc (butlast segs @ [add_record (lw_record x) (last segs)]) (advanced x w, d1)"
proof -
  have "segment_fits crc (last segs)" and w: "stands_at crc w (last segs)"
    using at by (auto simp: writer_at_def stores_def)
  note add = add_record_simps [OF this(1) tail lw_fits_record [OF x]]
  have "stands_at crc (advanced x w) (add_record (lw_record x) (last segs))"
    using w by (simp add: stands_at_def add advanced_def)
  with st show ?thesis by (simp add: writer_at_def)
qed

lemma next_not_in:
  assumes "stores crc shard (segs @ [s]) d"
  shows "\<not> stores crc shard segs d"
proof
  assume a: "stores crc shard segs d"
  have "disk_file d (segment_filename shard (sg_id s)) \<noteq> None" using assms by (simp add: stores_def)
  with a have "sg_id s \<in> sg_id ` set segs" unfolding stores_def by (metis parse_segment_filename_roundtrip)
  with assms show False by (auto simp: stores_def sorted_wrt_append)
qed

lemma append_synced:
  assumes at: "writer_at crc segs (w, d)" and tail: "sg_tail (last segs) = []" and x: "lw_fits x"
    and seg: "ww_next_segment_id w \<noteq> 0" and room: "length (segment_bytes crc (ww_shard_id w) (last segs)) < 2 ^ 64"
    and others: "files_synced crc (ww_shard_id w) (butlast segs) d"
    and run: "append_write crc x (w, d) = (Inr (e, loc), w', d')"
  shows "\<exists>segs'. appended crc x loc segs w segs' (w', d') \<and> files_synced crc (ww_shard_id w) (butlast segs') d'"
proof -
  let ?shard = "ww_shard_id w" and ?segs = "butlast segs @ [add_record (lw_record x) (last segs)]"
  have st: "stores crc ?shard (butlast segs @ [last segs]) d" and cur: "ww_current_file w = log_name ?shard (last segs)"
    using at by (auto simp: writer_at_def stands_at_def log_name_def)
  from append_write_log [OF at tail x seg room run] obtain segs' where app: "appended crc x loc segs w segs' (w', d')" by blast
  then have st': "stores crc ?shard segs' d'" by (auto simp: appended_def writer_at_def)
  obtain r d1 where wr: "io_write_all_at (ww_current_file w) (record_layout crc (lw_record x)) (unat (ww_current_offset w)) d = (r, d1)"
    by force
  note cases = append_write_cases [OF run wr]
  then have r: "r = Inr ()" by blast
  have refl: "same_disk d d" by (simp add: same_disk_def)
  from record_write_any [OF at tail x room refl wr] r have
    st1: "stores crc ?shard ?segs d1" and sy: "dk_synced d1 = (dk_synced d)(ww_current_file w := map_option
      (min (length (segment_bytes crc ?shard (last segs)))) (dk_synced d (ww_current_file w)))" by auto
  have others1: "files_synced crc ?shard (butlast segs) d1"
    using others other_log_names [OF st] by (auto simp: files_synced_def sy cur)
  show ?thesis
  proof (cases "ww_max_segment_bytes w \<le> ww_current_offset (advanced x w)")
    case False
    then have "d' = d1" using cases(2) r by simp
    with st1 have "\<not> (\<exists>g now. segs' = ?segs @ [new_segment g now])"
      using st' next_not_in by blast
    with app have "butlast segs' = butlast segs" by (auto simp: appended_def)
    with app others1 \<open>d' = d1\<close> show ?thesis by auto
  next
    case True
    then have d': "d' = snd (snd (rotate_segment (lw_seg_now x) (advanced x w, d1)))" using cases(3) r by simp
    from rotation_any [OF advanced_at [OF at tail x st1] _ _ d'] seg others1 have
      "stores crc ?shard ?segs d' \<and> files_synced crc ?shard (butlast segs) d' \<or> files_synced crc ?shard ?segs d'" by auto
    then show ?thesis
    proof
      assume a: "stores crc ?shard ?segs d' \<and> files_synced crc ?shard (butlast segs) d'"
      then have "\<not> (\<exists>g now. segs' = ?segs @ [new_segment g now])" using st' next_not_in by blast
      with app have "butlast segs' = butlast segs" by (auto simp: appended_def)
      with app a show ?thesis by auto
    next
      assume a: "files_synced crc ?shard ?segs d'"
      from app have "butlast segs' = butlast segs \<or> butlast segs' = ?segs"
        by (auto simp: appended_def butlast_append)
      with app a show ?thesis by auto
    qed
  qed
qed

lemma sync_synced:
  assumes at: "writer_at crc segs (w, d)" and others: "files_synced crc (ww_shard_id w) (butlast segs) d"
    and sync: "writer_sync w d = (Inr u, d')"
  shows "writer_at crc segs (w, d') \<and> files_synced crc (ww_shard_id w) segs d'"
proof -
  let ?shard = "ww_shard_id w"
  have st: "stores crc ?shard segs d" and segs: "segs = butlast segs @ [last segs]"
    and cur: "ww_current_file w = log_name ?shard (last segs)"
    using at by (auto simp: writer_at_def stands_at_def log_name_def)
  then have content: "disk_file d (ww_current_file w) = Some (segment_bytes crc ?shard (last segs))"
    using at by (auto simp: stores_def log_name_def writer_at_def)
  have run: "io_sync_data (ww_current_file w) d = (Inr (), d')" using sync by (auto simp: writer_sync_def map_err_Inr)
  from sync_any [OF this content] have s: "same_files d d'" "dk_synced d' = (dk_synced d)(ww_current_file w \<mapsto>
    length (segment_bytes crc ?shard (last segs)))" by auto
  have names: "log_name ?shard t \<noteq> ww_current_file w" if "t \<in> set (butlast segs)" for t
    using other_log_names [of crc ?shard "butlast segs" "last segs" d] st segs that by (simp add: cur)
  have "files_synced crc ?shard (butlast segs) d'" using others names by (auto simp: s files_synced_def)
  moreover have "files_synced crc ?shard [last segs] d'" by (simp add: s cur)
  ultimately have "files_synced crc ?shard segs d'" using segs files_synced_simps(2) by metis
  with at stores_same [OF s(1) st] show ?thesis by (simp add: writer_at_def)
qed

text \<open>Batches: some appends, and a sync.\<close>

fun log_batches ::
  "(bytes \<Rightarrow> u32) \<Rightarrow> log_write list list \<Rightarrow> wal_writer \<times> disk \<Rightarrow>
   (wal_writer_error fault + record_location list) \<times> wal_writer \<times> disk" where
  "log_batches crc [] wd = (Inr [], wd)"
| "log_batches crc (xs # xss) wd =
     and_then (append_all crc xs wd) (\<lambda>locs (w, d).
     and_then (beside w (writer_sync w d)) (\<lambda>_ wd.
     and_then (log_batches crc xss wd) (\<lambda>locs' wd. (Inr (locs @ locs'), wd))))"

text \<open>The writer at the end of segments of which all but the last, or all, are synced.\<close>

definition written :: "(bytes \<Rightarrow> u32) \<Rightarrow> segment list \<Rightarrow> log_write list \<Rightarrow> wal_writer \<times> disk \<Rightarrow> bool" where
  "written crc segs xs = (\<lambda>(w, d). writer_at crc segs (w, d) \<and> sg_tail (last segs) = [] \<and>
     room_for crc segs w xs \<and> files_synced crc (ww_shard_id w) (butlast segs) d)"

lemma room_forD:
  "room_for crc segs w (x # xs) \<Longrightarrow>
   lw_fits x \<and> ww_next_segment_id w \<noteq> 0 \<and> length (segment_bytes crc (ww_shard_id w) (last segs)) < 2 ^ 64"
  by (simp add: room_for_def)

lemma append_written:
  assumes "written crc segs (x # xs) (w, d)" and "append_write crc x (w, d) = (Inr (e, loc), w', d')"
  shows "\<exists>segs'. written crc segs' xs (w', d') \<and> ww_shard_id w' = ww_shard_id w \<and>
    wal_log segs' = wal_log segs @ [(loc, lw_record x)]"
proof -
  from assms(1) have at: "writer_at crc segs (w, d)" and tail: "sg_tail (last segs) = []"
    and room: "room_for crc segs w (x # xs)" and sy: "files_synced crc (ww_shard_id w) (butlast segs) d"
    by (simp_all add: written_def)
  from room_forD [OF room] append_synced [OF at tail _ _ _ sy assms(2)] obtain segs' where
    app: "appended crc x loc segs w segs' (w', d')" and "files_synced crc (ww_shard_id w) (butlast segs') d'" by blast
  with room_for_step [OF at tail room app] show ?thesis
    by (intro exI [of _ segs']) (auto simp: written_def appended_def)
qed

lemma append_all_written:
  "written crc segs (xs @ ys) (w, d) \<Longrightarrow> append_all crc xs (w, d) = (Inr locs, w', d') \<Longrightarrow>
   \<exists>segs'. written crc segs' ys (w', d') \<and> ww_shard_id w' = ww_shard_id w \<and> length locs = length xs \<and>
     wal_log segs' = wal_log segs @ zip locs (map lw_record xs)"
proof (induction xs arbitrary: segs w d locs)
  case (Cons x xs)
  from Cons.prems(2) obtain e loc w1 d1 locs' where
    x: "append_write crc x (w, d) = (Inr (e, loc), w1, d1)"
    and xs: "append_all crc xs (w1, d1) = (Inr locs', w', d')" and locs: "locs = loc # locs'"
    by (auto simp: result_iffs)
  from append_written [OF _ x, of segs "xs @ ys"] Cons.prems(1) obtain segs1 where
    s1: "written crc segs1 (xs @ ys) (w1, d1)" "ww_shard_id w1 = ww_shard_id w"
      "wal_log segs1 = wal_log segs @ [(loc, lw_record x)]" by auto
  from Cons.IH [OF s1(1) xs] s1(2,3) show ?case by (auto simp: locs)
qed auto

lemma log_batches_written:
  "written crc segs (concat xss @ ys) (w, d) \<Longrightarrow> files_synced crc (ww_shard_id w) segs d \<Longrightarrow>
   log_batches crc xss (w, d) = (Inr locs, w', d') \<Longrightarrow>
   \<exists>segs'. written crc segs' ys (w', d') \<and> files_synced crc (ww_shard_id w') segs' d' \<and>
     ww_shard_id w' = ww_shard_id w \<and> length locs = length (concat xss) \<and>
     wal_log segs' = wal_log segs @ zip locs (map lw_record (concat xss))"
proof (induction xss arbitrary: segs w d locs)
  case (Cons xs xss)
  from Cons.prems(3) obtain locs1 w1 d1 d2 u locs2 where
    xs: "append_all crc xs (w, d) = (Inr locs1, w1, d1)" and sync: "writer_sync w1 d1 = (Inr u, d2)"
    and xss: "log_batches crc xss (w1, d2) = (Inr locs2, w', d')" and locs: "locs = locs1 @ locs2"
    by (auto simp: result_iffs)
  from append_all_written [OF _ xs, of segs "concat xss @ ys"] Cons.prems(1) obtain segs1 where
    s1: "written crc segs1 (concat xss @ ys) (w1, d1)" "ww_shard_id w1 = ww_shard_id w" "length locs1 = length xs"
      "wal_log segs1 = wal_log segs @ zip locs1 (map lw_record xs)" by auto
  then have s2: "writer_at crc segs1 (w1, d2)" "files_synced crc (ww_shard_id w1) segs1 d2"
    using sync_synced [OF _ _ sync, of crc segs1] by (auto simp: written_def)
  then have "written crc segs1 (concat xss @ ys) (w1, d2)"
    using s1(1) by (simp add: written_def files_synced_butlast)
  from Cons.IH [OF this s2(2) xss] s1(2-4) show ?case by (auto simp: locs)
qed auto

subsection \<open>Opening behind an interrupted append\<close>

text \<open>An append that any of its calls may interrupt: a front part of the record is behind the last
  segment, or the record is there and synced, and the next file has a part of its header.\<close>

lemma append_interrupted:
  assumes wr: "written crc segs (x # xs) (w, d)" and sy: "files_synced crc (ww_shard_id w) segs d"
    and run: "append_write crc x (w, d\<lparr>dk_faults := fs\<rparr>) = (res, w', d')"
  shows "(\<exists>k m. stores crc (ww_shard_id w) (butlast segs @ [cut_record crc k x (last segs)]) d' \<and>
      files_synced crc (ww_shard_id w) (butlast segs) d' \<and>
      dk_synced d' (log_name (ww_shard_id w) (last segs)) = Some m \<and>
      length (segment_bytes crc (ww_shard_id w) (last segs)) \<le> m) \<or>
    (\<exists>k g now. stores_part crc (ww_shard_id w) (butlast segs @ [add_record (lw_record x) (last segs)]) g
        (take k (encode_segment_header (ww_shard_id w) g now)) d' \<and>
      files_synced crc (ww_shard_id w) (butlast segs @ [add_record (lw_record x) (last segs)]) d')"
proof -
  let ?shard = "ww_shard_id w" and ?segs = "butlast segs @ [add_record (lw_record x) (last segs)]"
    and ?len = "length (segment_bytes crc (ww_shard_id w) (last segs))"
  from wr have at: "writer_at crc segs (w, d)" and tail: "sg_tail (last segs) = []"
    and room: "room_for crc segs w (x # xs)" by (simp_all add: written_def)
  note x = room_forD [OF room]
  have st: "stores crc ?shard (butlast segs @ [last segs]) d" and cur: "ww_current_file w = log_name ?shard (last segs)"
    and segs: "segs = butlast segs @ [last segs]"
    using at by (auto simp: writer_at_def stands_at_def log_name_def)
  have last: "dk_synced d (ww_current_file w) = Some ?len"
    using sy segs files_synced_simps(2,3) cur by metis
  obtain r d1 where wrt: "io_write_all_at (ww_current_file w) (record_layout crc (lw_record x))
      (unat (ww_current_offset w)) (d\<lparr>dk_faults := fs\<rparr>) = (r, d1)" by force
  have refl: "same_disk d (d\<lparr>dk_faults := fs\<rparr>)" by (simp add: same_disk_def same_files_def)
  from record_write_any [OF at tail _ _ refl wrt] x obtain k where
    st1: "stores crc ?shard (butlast segs @ [cut_record crc k x (last segs)]) d1"
    and sy1: "dk_synced d1 = (dk_synced d)(ww_current_file w \<mapsto> ?len)"
    and whole: "r = Inr () \<Longrightarrow> cut_record crc k x (last segs) = add_record (lw_record x) (last segs)"
    by (auto simp: last)
  have others: "files_synced crc ?shard (butlast segs) d1"
    using files_synced_butlast [OF sy] other_log_names [OF st] by (auto simp: files_synced_def sy1 cur)
  note cases = append_write_cases [OF run wrt]
  have here: ?thesis if "d' = d1"
    using st1 others that by (intro disjI1 exI [of _ k] exI [of _ ?len]) (auto simp: sy1 cur)
  show ?thesis
  proof (cases "r = Inr () \<and> ww_max_segment_bytes w \<le> ww_current_offset (advanced x w)")
    case True
    with cases(3) have d': "d' = snd (snd (rotate_segment (lw_seg_now x) (advanced x w, d1)))" by blast
    have "stores crc ?shard ?segs d1" using st1 whole True by simp
    from rotation_any [OF advanced_at [OF at tail _ this] _ _ d'] x others consider
      (before) "stores crc ?shard ?segs d'" "files_synced crc ?shard (butlast segs) d'" "dk_synced d' = dk_synced d1"
      | (synced) "stores crc ?shard ?segs d'" "files_synced crc ?shard ?segs d'"
      | (next_file) k where "stores_part crc ?shard ?segs (ww_next_segment_id w)
          (take k (encode_segment_header ?shard (ww_next_segment_id w) (lw_seg_now x))) d'"
          "files_synced crc ?shard ?segs d'" by auto
    then show ?thesis
    proof cases
      case before
      with whole True st1 show ?thesis
        by (intro disjI1 exI [of _ k] exI [of _ ?len]) (auto simp: sy1 cur)
    next
      case synced
      have fits: "segment_fits crc (last segs)" using st by (simp add: stores_def)
      note add = add_record_simps [OF fits tail lw_fits_record]
      from synced x whole True show ?thesis
        by (intro disjI1 exI [of _ k] exI [of _ "length (segment_bytes crc ?shard (add_record (lw_record x) (last segs)))"])
          (auto simp: add log_name_def)
    next
      case next_file
      then show ?thesis by blast
    qed
  next
    case False
    with cases here show ?thesis by force
  qed
qed

lemma cut_cut:
  assumes "segment_fits crc s" and "sg_tail s = []" and "lw_fits x" and "length (segment_bytes crc shard s) \<le> n"
  shows "\<exists>k'. take n (segment_bytes crc shard (cut_record crc k x s)) = segment_bytes crc shard (cut_record crc k' x s)"
  by (rule exI [of _ "min (n - length (segment_bytes crc shard s)) k"])
    (use assms(4) in \<open>simp add: cut_record_simps(3) [OF assms(1-3)]\<close>)

text \<open>The power fails: what was synced is there.\<close>

lemma loss_of_record:
  assumes wr: "written crc segs (x # xs) (w, d)"
    and st: "stores crc (ww_shard_id w) (butlast segs @ [cut_record crc k x (last segs)]) d'"
    and sy: "files_synced crc (ww_shard_id w) (butlast segs) d'"
    and m: "dk_synced d' (log_name (ww_shard_id w) (last segs)) = Some m"
      "length (segment_bytes crc (ww_shard_id w) (last segs)) \<le> m"
    and loss: "power_loss d' d''"
  shows "\<exists>k'. stores crc (ww_shard_id w) (butlast segs @ [cut_record crc k' x (last segs)]) d''"
proof -
  let ?shard = "ww_shard_id w" and ?s = "last segs"
  from wr have fits: "segment_fits crc ?s" and tail: "sg_tail ?s = []" and x: "lw_fits x"
    by (auto simp: written_def writer_at_def stores_def room_for_def)
  note cut = cut_record_simps [OF fits tail x]
  note pl = power_loss_file [OF loss]
  have name: "log_name ?shard (cut_record crc k x ?s) = log_name ?shard ?s" by (simp add: log_name_def cut(1))
  have "disk_file d' (log_name ?shard ?s) = Some (segment_bytes crc ?shard (cut_record crc k x ?s))"
    using st by (simp add: stores_def log_name_def cut(1))
  from pl(2) [OF this m(1)] obtain n where "m \<le> n"
    "disk_file d'' (log_name ?shard ?s) = Some (take n (segment_bytes crc ?shard (cut_record crc k x ?s)))" by blast
  with cut_cut [OF fits tail x, where n = n and shard = ?shard and k = k] m(2) obtain k' where
    k': "disk_file d'' (log_name ?shard ?s) = Some (segment_bytes crc ?shard (cut_record crc k' x ?s))" by auto
  have "stores crc ?shard (butlast segs @ [cut_record crc k' x ?s]) d''"
  proof (rule stores_last [OF st])
    fix t assume t: "t \<in> set (butlast segs)"
    then have f: "disk_file d' (log_name ?shard t) = Some (segment_bytes crc ?shard t)"
      using st by (simp add: stores_def log_name_def)
    have "dk_synced d' (log_name ?shard t) = Some (length (segment_bytes crc ?shard t))"
      using sy t by (simp add: files_synced_def)
    from pl(2) [OF f this] f show "disk_file d'' (log_name ?shard t) = disk_file d' (log_name ?shard t)" by auto
  next
    show "dk_exists d''" using pl(5) st by (simp add: stores_def)
  qed (use cut k' pl(1,4) name in simp_all)
  then show ?thesis by blast
qed

lemma loss_of_part:
  assumes st: "stores_part crc shard segs g bs d" and sy: "files_synced crc shard segs d" and loss: "power_loss d d'"
  shows "stores crc shard segs d' \<or> (\<exists>n. stores_part crc shard segs g (take n bs) d')"
proof -
  note pl = power_loss_file [OF loss]
  have files: "\<forall>s \<in> set segs. segment_fits crc s \<and> disk_file d' (log_name shard s) = Some (segment_bytes crc shard s)"
  proof
    fix s assume "s \<in> set segs"
    with st sy have "segment_fits crc s" and f: "disk_file d (log_name shard s) = Some (segment_bytes crc shard s)"
      and "dk_synced d (log_name shard s) = Some (length (segment_bytes crc shard s))"
      by (auto simp: stores_part_def files_synced_def)
    with pl(2) [OF f this(3)] show "segment_fits crc s \<and> disk_file d' (log_name shard s) = Some (segment_bytes crc shard s)"
      by auto
  qed
  have l: "lists shard (map sg_id segs @ [g]) d" and last: "disk_file d (segment_filename shard g) = Some bs"
    using st by (simp_all add: stores_part_def)
  have ok: "disk_ok d'" "dk_exists d'" using l pl(4,5) by (simp_all add: lists_def)
  have names: "name = segment_filename shard g' \<and> g' \<in> set (map sg_id segs @ [g])"
    if "parse_segment_filename name = Some (shard, g')" "disk_file d' name \<noteq> None" for name g'
    using l pl(1) [of name] that unfolding lists_def by metis
  have sorted: "sorted_wrt (<) (map sg_id segs @ [g])" using l by (simp add: lists_def)
  from pl(3) [OF last] show ?thesis
  proof
    assume gone: "disk_file d' (segment_filename shard g) = None"
    have "name = segment_filename shard g' \<and> g' \<in> sg_id ` set segs"
      if "parse_segment_filename name = Some (shard, g')" "disk_file d' name \<noteq> None" for name g'
      using names [OF that] that(2) gone by auto
    then have "stores crc shard segs d'"
      using files ok sorted unfolding stores_def log_name_def by (auto simp: sorted_wrt_append)
    then show ?thesis ..
  next
    assume "\<exists>n. disk_file d' (segment_filename shard g) = Some (take n bs)"
    then obtain n where n: "disk_file d' (segment_filename shard g) = Some (take n bs)" ..
    have "\<forall>h \<in> set (map sg_id segs @ [g]). disk_file d' (segment_filename shard h) \<noteq> None"
      using files n by (auto simp: log_name_def)
    then have "lists shard (map sg_id segs @ [g]) d'"
      using ok names sorted unfolding lists_def by blast
    with files n have "stores_part crc shard segs g (take n bs) d'" by (simp add: stores_part_def)
    then show ?thesis by blast
  qed
qed

lemma replay_segments_append:
  "replay_segments crc from (xs @ ys) s d =
     and_then (replay_segments crc from xs s d) (\<lambda>s d. replay_segments crc from ys s d)"
  by (induction xs arbitrary: s d) (auto simp: and_then_def split: prod.splits sum.splits)

text \<open>A file with less than a header is listed, and skipped by the replay.\<close>

lemma writer_open_part:
  assumes st: "stores_part crc shard segs g bs d" and short: "length bs < SEGMENT_HEADER_SIZE"
    and calm: "dk_faults d = []"
    and rs: "rs = replay_log from (wal_log segs) (replay_init (recovered_from limit rec))"
  shows "\<exists>w. writer_open crc now shard max_bytes limit rec from d = (Inr (w, rp_index rs, rp_streams rs), d)"
proof -
  let ?l = "seg_names shard segs @ [(g, segment_filename shard g)]"
  have l: "lists shard (map sg_id segs @ [g]) d" and part: "disk_file d (segment_filename shard g) = Some bs"
    and files: "\<forall>s \<in> set segs. segment_fits crc s \<and>
      disk_file d (segment_filename shard (sg_id s)) = Some (segment_bytes crc shard s)"
    using st by (simp_all add: stores_part_def log_name_def)
  have ex: "dk_exists d" using l by (simp add: lists_def)
  have dir: "io_create_dir_all d = (Inr (), d)" using calm ex by (simp add: io_create_dir_all_def)
  have list: "list_segments shard d = (Inr ?l, d)"
    using ex calm sort_segments_lists [OF l] by (simp add: list_segments_def io_read_dir_def seg_names_def comp_def)
  have "replay_segments crc from (seg_names shard segs) (replay_init (recovered_from limit rec)) d = (Inr rs, d)"
    using replay_segments_stores(2) [OF files calm] rs by simp
  moreover have "replay_segments crc from [(g, segment_filename shard g)] rs d = (Inr rs, d)"
    using part calm short by (simp add: replay_segment_def io_read_def flip: disk_file_def)
  ultimately have "replay_segments crc from ?l (replay_init (recovered_from limit rec)) d = (Inr rs, d)"
    by (simp add: replay_segments_append)
  then show ?thesis
    using dir list part calm
    by (simp add: writer_open_def replay_init_def recovered_from_def io_file_len_def io_open_def Let_def
        flip: disk_file_def)
qed

lemma stores_whole_part:
  assumes st: "stores_part crc shard segs g (take n (encode_segment_header shard g now)) d" and n: "64 \<le> n"
  shows "stores crc shard (segs @ [new_segment g now]) d"
proof -
  have "disk_file d (segment_filename shard g) = Some (segment_bytes crc shard (new_segment g now))"
    using st n by (simp add: stores_part_def segment_bytes_def new_segment_def)
  moreover have "segment_fits crc (new_segment g now)" by (simp add: segment_fits_def new_segment_def dead_tail_def)
  ultimately show ?thesis
    using st unfolding stores_part_def lists_def stores_def log_name_def
    by (auto simp: new_segment_def)
qed

subsection \<open>Opening syncs nothing\<close>

lemma reading_synced:
  "io_read_dir d = (r1, d') \<Longrightarrow> dk_synced d' = dk_synced d"
  "io_read name d = (r2, d') \<Longrightarrow> dk_synced d' = dk_synced d"
  "io_file_len name d = (r3, d') \<Longrightarrow> dk_synced d' = dk_synced d"
  "io_open name d = (r4, d') \<Longrightarrow> dk_synced d' = dk_synced d"
  "io_create_dir_all d = (r5, d') \<Longrightarrow> dk_synced d' = dk_synced d"
  by (auto simp: io_read_dir_def io_read_def io_file_len_def io_open_def io_create_dir_all_def io_guard_def
      split: prod.splits io_outcome.splits option.splits if_splits
      dest!: next_outcome_same_disk simp: same_disk_def)

lemma replay_segments_synced:
  "replay_segments crc from l s d = (res, d') \<Longrightarrow> dk_synced d' = dk_synced d"
  by (induction l arbitrary: s d res)
    (auto simp: replay_segment_def and_then_def map_err_def dest: reading_synced
      split: prod.splits sum.splits if_splits)

lemma writer_open_synced:
  assumes st: "stores crc shard segs d" and ne: "segs \<noteq> []"
    and run: "writer_open crc now shard max_bytes limit rec from d = (Inr (w, idx, t), d')"
  shows "dk_synced d' = dk_synced d"
proof -
  from run obtain u d1 l d2 where
    d1: "io_create_dir_all d = (Inr u, d1)" and l: "list_segments shard d1 = (Inr l, d2)"
    by (auto simp: writer_open_def result_iffs Let_def)
  from list_segments_stores(1) [OF stores_same [OF stores_create_dir(1) [OF st d1] st] l] ne have "l \<noteq> []" by simp
  with run d1 l obtain s rs d3 n d4 name where
    "replay_segments crc from l s d2 = (Inr rs, d3)" "io_file_len (snd (last l)) d3 = (Inr n, d4)"
    "io_open (snd (last l)) d4 = (Inr name, d')"
    by (auto simp: writer_open_def result_iffs Let_def)
  moreover have "dk_synced d2 = dk_synced d1"
    using l by (auto simp: list_segments_def and_then_Inr dest: reading_synced split: if_splits)
  ultimately show ?thesis
    using reading_synced(3,4,5) replay_segments_synced d1 by metis
qed


lemma calls_keep_ok:
  "io_write_all_at name src off d = (r1, d') \<Longrightarrow> disk_ok d \<Longrightarrow> disk_ok d'"
  "io_sync_data name d = (r2, d') \<Longrightarrow> disk_ok d \<Longrightarrow> disk_ok d'"
  "io_create_new name d = (r3, d') \<Longrightarrow> disk_ok d \<Longrightarrow> disk_ok d'"
proof -
  show "io_write_all_at name src off d = (r1, d') \<Longrightarrow> disk_ok d \<Longrightarrow> disk_ok d'"
    using write_any [of name src off d r1 d'] by (auto simp: same_disk_facts)
  show "io_sync_data name d = (r2, d') \<Longrightarrow> disk_ok d \<Longrightarrow> disk_ok d'"
    using read_calls_same(6) same_files_facts(1) by metis
  show "io_create_new name d = (r3, d') \<Longrightarrow> disk_ok d \<Longrightarrow> disk_ok d'"
    by (auto simp: io_create_new_def io_guard_def split: prod.splits io_outcome.splits option.splits
        dest!: next_outcome_same_disk simp: same_disk_facts)
qed

lemma append_write_keeps_ok:
  assumes "append_write crc x (w, d) = (res, w', d')" and "disk_ok d"
  shows "disk_ok d'"
proof -
  have d': "d' = snd (snd (append_write crc x (w, d)))" using assms(1) by simp
  show ?thesis
    unfolding d' append_disk rotate_disk using assms(2)
    by (auto split: prod.split sum.split dest: calls_keep_ok)
      (metis calls_keep_ok prod.collapse)
qed


end
