(* ===== verification/Reader.thy ===== *)
theory Reader
  imports Recovery
begin

text \<open>
  The WAL reader of a shard (\<open>wal/reader.rs\<close>): the cache of open segment files, the lookup
  of a record through the index, the eviction of a segment. The main property reads every
  record of the log back through the index that opening built.
\<close>

datatype wal_reader_error =
  ReaderIo io_error | ReaderNotFound u64 | ReaderCorrupt wal_record_error

record wal_reader =
  wrd_shard_id :: u16
  wrd_segment_cache :: "(u64, string) hash_map"

definition reader_new :: "u16 \<Rightarrow> wal_reader" where
  "reader_new shard_id = \<lparr>wrd_shard_id = shard_id, wrd_segment_cache = []\<rparr>"

abbreviation reader_io :: "(io_error + 'a) \<times> disk \<Rightarrow> (wal_reader_error fault + 'a) \<times> disk" where
  "reader_io \<equiv> map_err (Err \<circ> ReaderIo)"

definition get_or_open_segment ::
  "u64 \<Rightarrow> wal_reader \<times> disk \<Rightarrow> (wal_reader_error fault + string) \<times> wal_reader \<times> disk" where
  "get_or_open_segment segment_id = (\<lambda>(rd, d).
     case hm_get (wrd_segment_cache rd) segment_id of
       Some fname \<Rightarrow> (Inr fname, rd, d)
     | None \<Rightarrow>
         and_then (beside rd (reader_io (list_segments (wrd_shard_id rd) d))) (\<lambda>segments (rd, d).
           case List.find (\<lambda>s. fst s = segment_id) segments of
             None \<Rightarrow> (Inl (Err (ReaderNotFound segment_id)), rd, d)
           | Some s \<Rightarrow>
               and_then (beside rd (reader_io (io_open (snd s) d))) (\<lambda>fname (rd, d).
                 (Inr fname, rd\<lparr>wrd_segment_cache :=
                    hm_insert segment_id fname (wrd_segment_cache rd)\<rparr>, d))))"

definition read_record ::
  "(bytes \<Rightarrow> u32) \<Rightarrow> u64 \<Rightarrow> u64 \<Rightarrow> stream_log_index \<Rightarrow> wal_reader \<times> disk \<Rightarrow>
   (wal_reader_error fault + wal_record) \<times> wal_reader \<times> disk" where
  "read_record crc sid lsn idx rdd =
     (case index_lookup idx sid lsn of
        None \<Rightarrow> (Inl (Err (ReaderNotFound lsn)), rdd)
      | Some loc \<Rightarrow>
          and_then (get_or_open_segment (loc_segment_id loc) rdd) (\<lambda>fname (rd, d).
          and_then (beside rd (reader_io
            (io_read_exact_at fname (unat (loc_offset loc)) (unat (loc_size loc)) d))) (\<lambda>buf rdd.
          case decode_record crc buf of
            Inl (Err e) \<Rightarrow> (Inl (Err (ReaderCorrupt e)), rdd)
          | Inl Panic \<Rightarrow> (Inl Panic, rdd)
          | Inr (r, _) \<Rightarrow> (Inr r, rdd))))"

definition evict_segment :: "u64 \<Rightarrow> wal_reader \<Rightarrow> wal_reader" where
  "evict_segment segment_id rd =
     rd\<lparr>wrd_segment_cache := hm_remove segment_id (wrd_segment_cache rd)\<rparr>"

subsection \<open>The cache\<close>

text \<open>A cached file is the file of its segment.\<close>

definition reader_ok :: "wal_reader \<Rightarrow> bool" where
  "reader_ok rd = (hm_ok (wrd_segment_cache rd) \<and>
     (\<forall>g fname. hm_get (wrd_segment_cache rd) g = Some fname \<longrightarrow>
        fname = segment_filename (wrd_shard_id rd) g))"

lemma reader_ok_new [simp]: "reader_ok (reader_new shard)"
  by (simp add: reader_ok_def reader_new_def)

lemma reader_ok_evict [inv_intros]: "reader_ok rd \<Longrightarrow> reader_ok (evict_segment g rd)"
  by (simp add: reader_ok_def evict_segment_def)

lemma find_seg_names:
  "s \<in> set segs \<Longrightarrow>
   List.find (\<lambda>x. fst x = sg_id s) (seg_names shard segs) =
     Some (sg_id s, segment_filename shard (sg_id s))"
  by (induction segs) (auto simp: seg_names_def)

lemma get_or_open_segment_stores:
  assumes "stores crc (wrd_shard_id rd) segs d" and "s \<in> set segs" and "reader_ok rd"
    and "dk_faults d = []"
  shows "\<exists>rd'. get_or_open_segment (sg_id s) (rd, d) =
      (Inr (segment_filename (wrd_shard_id rd) (sg_id s)), rd', d) \<and>
    reader_ok rd' \<and> wrd_shard_id rd' = wrd_shard_id rd"
proof (cases "hm_get (wrd_segment_cache rd) (sg_id s)")
  case None
  have "io_open (segment_filename (wrd_shard_id rd) (sg_id s)) d =
      (Inr (segment_filename (wrd_shard_id rd) (sg_id s)), d)"
    using assms by (simp add: io_open_def stores_def disk_file_def)
  with None assms show ?thesis
    by (simp add: get_or_open_segment_def list_segments_stores(2) find_seg_names)
      (auto simp: reader_ok_def)
qed (use assms in \<open>auto simp: get_or_open_segment_def reader_ok_def\<close>)

subsection \<open>Reading a record where the log has it\<close>

lemma in_locate:
  "(loc, r) \<in> set (locate g off rs) \<Longrightarrow>
   \<exists>rs1 rs2. rs = rs1 @ r # rs2 \<and>
     loc = \<lparr>loc_segment_id = g, loc_offset = of_nat (off + sum_list (map encoded_size rs1)),
            loc_size = of_nat (encoded_size r)\<rparr>"
proof (induction rs arbitrary: off)
  case (Cons r' rs)
  show ?case
  proof (cases "(loc, r) \<in> set (locate g (off + encoded_size r') rs)")
    case True
    from Cons.IH [OF this] show ?thesis by (force simp: add.assoc intro: exI [of _ "r' # _"])
  next
    case False
    with Cons.prems show ?thesis by (intro exI [of _ "[]"] exI [of _ rs]) simp
  qed
qed simp

text \<open>A segment whose bytes can be addressed by 64-bit offsets and 32-bit sizes.\<close>

definition addressable :: "(bytes \<Rightarrow> u32) \<Rightarrow> u16 \<Rightarrow> segment \<Rightarrow> bool" where
  "addressable crc shard s =
     (length (segment_bytes crc shard s) < 2 ^ 64 \<and>
      list_all (\<lambda>r. encoded_size r < 2 ^ 32) (sg_records s))"

lemma segment_slice:
  assumes "(loc, r) \<in> set (segment_log s)" and "addressable crc shard s"
  shows "loc_segment_id loc = sg_id s"
    and "unat (loc_offset loc) + unat (loc_size loc) \<le> length (segment_bytes crc shard s)"
    and "subslice (segment_bytes crc shard s) (unat (loc_offset loc))
      (unat (loc_offset loc) + unat (loc_size loc)) = record_layout crc r"
proof -
  from in_locate [OF assms(1) [unfolded segment_log_def]] obtain rs1 rs2 where
    rs: "sg_records s = rs1 @ r # rs2" and
    loc: "loc = \<lparr>loc_segment_id = sg_id s,
      loc_offset = of_nat (64 + sum_list (map encoded_size rs1)),
      loc_size = of_nat (encoded_size r)\<rparr>"
    by (auto simp: SEGMENT_HEADER_SIZE_def)
  define pre where
    "pre = encode_segment_header shard (sg_id s) (sg_created s) @ records_bytes crc rs1"
  have split: "segment_bytes crc shard s = pre @ record_layout crc r @ records_bytes crc rs2 @ sg_tail s"
    by (simp add: segment_bytes_def rs pre_def)
  have pre: "length pre = 64 + sum_list (map encoded_size rs1)"
    by (simp add: pre_def length_records_bytes)
  have "length pre < 2 ^ 64" using assms(2) by (simp add: addressable_def split)
  then have "unat (loc_offset loc) = length pre"
    unfolding loc record_location.select_convs pre [symmetric] by (rule unat_u64_of_nat)
  moreover have "unat (loc_size loc) = encoded_size r"
    using assms(2) by (simp add: loc addressable_def rs)
  ultimately show "loc_segment_id loc = sg_id s"
    "unat (loc_offset loc) + unat (loc_size loc) \<le> length (segment_bytes crc shard s)"
    "subslice (segment_bytes crc shard s) (unat (loc_offset loc))
      (unat (loc_offset loc) + unat (loc_size loc)) = record_layout crc r"
    by (simp_all add: split byte_simps) (simp add: loc)
qed

lemma read_record_stores:
  assumes st: "stores crc (wrd_shard_id rd) segs d" and "reader_ok rd" and "dk_faults d = []"
    and addr: "\<forall>s \<in> set segs. addressable crc (wrd_shard_id rd) s"
    and log: "(loc, r) \<in> set (wal_log segs)" and lookup: "index_lookup idx sid lsn = Some loc"
  shows "\<exists>rd'. read_record crc sid lsn idx (rd, d) = (Inr r, rd', d) \<and>
    reader_ok rd' \<and> wrd_shard_id rd' = wrd_shard_id rd"
proof -
  from log obtain s where s: "s \<in> set segs" "(loc, r) \<in> set (segment_log s)"
    by (auto simp: wal_log_def)
  have file_s: "disk_file d (segment_filename (wrd_shard_id rd) (sg_id s)) =
      Some (segment_bytes crc (wrd_shard_id rd) s)" and "record_fits r"
    using st s in_locate [OF s(2) [unfolded segment_log_def]]
    by (auto simp: stores_def segment_fits_def)
  note slice = segment_slice [OF s(2) bspec [OF addr s(1)]]
  have "io_read_exact_at (segment_filename (wrd_shard_id rd) (sg_id s)) (unat (loc_offset loc))
      (unat (loc_size loc)) d = (Inr (record_layout crc r), d)"
    using file_s slice assms(3) by (simp add: io_read_exact_at_def disk_file_def)
  moreover have "decode_record crc (record_layout crc r) = Inr (r, encoded_size r)"
    using decode_record_layout [OF \<open>record_fits r\<close>, of crc "[]"] by simp
  moreover obtain rd' where "get_or_open_segment (sg_id s) (rd, d) =
      (Inr (segment_filename (wrd_shard_id rd) (sg_id s)), rd', d)"
      "reader_ok rd'" "wrd_shard_id rd' = wrd_shard_id rd"
    using get_or_open_segment_stores [OF st s(1) assms(2,3)] by blast
  ultimately show ?thesis by (simp add: read_record_def lookup slice(1))
qed

subsection \<open>The index that opening builds\<close>

definition record_key :: "wal_record \<Rightarrow> u64 \<times> u64" where
  "record_key r = (wr_stream_id r, wr_stream_lsn r)"

text \<open>The log as a map: the last record with a key.\<close>

definition log_map :: "(record_location \<times> wal_record) list \<Rightarrow> u64 \<times> u64 \<Rightarrow>
  (record_location \<times> wal_record) option" where
  "log_map l = map_of (rev (map (\<lambda>e. (record_key (snd e), e)) l))"

lemma log_map_in: "log_map l k = Some e \<Longrightarrow> e \<in> set l \<and> record_key (snd e) = k"
  unfolding log_map_def by (drule map_of_SomeD) auto

lemma rp_index_replay:
  "rp_index (replay_log base l s) =
     fold (\<lambda>(k, v). index_put k v) (map (\<lambda>e. (record_key (snd e), fst e)) l) (rp_index s)"
  by (induction l arbitrary: s) (simp_all add: replay_record_def index_put_def record_key_def)

lemma map_of_map_value: "map_of (map (\<lambda>e. (f e, g e)) l) k = map_option g (map_of (map (\<lambda>e. (f e, e)) l) k)"
  by (induction l) simp_all

lemma index_lookup_replay:
  "index_lookup (rp_index (replay_log base l (replay_init t))) sid lsn =
     map_option fst (log_map l (sid, lsn))"
proof -
  have "index_get (rp_index (replay_log base l (replay_init t))) (sid, lsn) =
      map_of (rev (map (\<lambda>e. (record_key (snd e), fst e)) l)) (sid, lsn)"
    unfolding rp_index_replay
    by (subst index_map.get_fold_put) (simp_all add: replay_init_def index_get_def split: option.split)
  then show ?thesis
    using map_of_map_value [of "\<lambda>e. record_key (snd e)" fst "rev l" "(sid, lsn)"]
    by (simp only: index_get_def log_map_def rev_map fst_conv snd_conv)
qed


text \<open>
  After opening, the reader agrees with the log at every key: a read of a stream LSN
  returns the last record of the log that has this key, with its payload and epoch, through
  the index, the segment cache and the segment file; and a key no record has is not found.
  This holds for any state of the cache, and the cache stays consistent.
\<close>

theorem reads_agree_with_log:
  assumes "stores crc (wrd_shard_id rd) segs d" and "segs \<noteq> []"
    and "\<forall>s \<in> set segs. addressable crc (wrd_shard_id rd) s"
    and opened: "writer_open crc now (wrd_shard_id rd) max_bytes limit rec base d = (Inr (w, idx, t), d1)"
    and "dk_faults d1 = []" and "reader_ok rd"
  shows "\<exists>rd'. read_record crc sid lsn idx (rd, d1) =
      ((case log_map (wal_log segs) (sid, lsn) of
          None \<Rightarrow> Inl (Err (ReaderNotFound lsn)) | Some (_, r) \<Rightarrow> Inr r), rd', d1) \<and>
    reader_ok rd' \<and> wrd_shard_id rd' = wrd_shard_id rd"
proof -
  from writer_open_stores(1) [OF assms(1,2) refl opened] have st: "stores crc (wrd_shard_id rd) segs d1"
    and lookup: "index_lookup idx sid lsn = map_option fst (log_map (wal_log segs) (sid, lsn))"
    by (auto simp: index_lookup_replay)
  show ?thesis
  proof (cases "log_map (wal_log segs) (sid, lsn)")
    case None
    with lookup assms(6) show ?thesis by (simp add: read_record_def)
  next
    case (Some e)
    with lookup have "index_lookup idx sid lsn = Some (fst e)" by simp
    moreover have "(fst e, snd e) \<in> set (wal_log segs)" using log_map_in [OF Some] by simp
    ultimately show ?thesis
      using read_record_stores [OF st assms(6,5,3)] Some by (auto split: prod.splits)
  qed
qed

lemma reads_agree_with_log_witness:
  "\<exists>w idx t. writer_open demo_crc 9 1 200 4 None 0 (demo_disk demo_segment) =
       (Inr (w, idx, t), demo_disk demo_segment) \<and>
     fst (read_record demo_crc 7 0 idx (reader_new 1, demo_disk demo_segment)) =
       Inr (lw_record (demo_write 0)) \<and>
     fst (read_record demo_crc 7 1 idx (reader_new 1, demo_disk demo_segment)) =
       Inl (Err (ReaderNotFound 1))"
proof -
  have shard: "wrd_shard_id (reader_new 1) = 1" by (simp add: reader_new_def)
  have faults: "dk_faults (demo_disk demo_segment) = []" by (simp add: demo_disk_def)
  have addr: "\<forall>s \<in> set [demo_segment]. addressable demo_crc 1 s"
    by (simp add: addressable_def demo_segment_length)
      (simp add: demo_segment_def encoded_size_def RECORD_HEADER_SIZE_def lw_record_def demo_write_def)
  obtain w idx t where opened: "writer_open demo_crc 9 1 200 4 None 0 (demo_disk demo_segment) =
      (Inr (w, idx, t), demo_disk demo_segment)"
    using writer_open_stores(2) [OF demo_stores _ refl faults] by blast
  note reads = reads_agree_with_log [where rd = "reader_new 1", unfolded shard, OF demo_stores _ addr
      opened faults reader_ok_new]
  have "log_map (wal_log [demo_segment]) (7, 0) = Some (fst (hd (segment_log demo_segment)), lw_record (demo_write 0))"
    "log_map (wal_log [demo_segment]) (7, 1) = None"
    by (simp_all add: log_map_def wal_log_def segment_log_def demo_segment_def record_key_def
        lw_record_def demo_write_def)
  with reads [of 7 0] reads [of 7 1] opened show ?thesis by auto
qed

end
