(* ===== verification/RaftStorage.thy ===== *)
theory RaftStorage
  imports Disk
begin

text \<open>
  The persistent log of a raft group (\<open>raft/storage.rs\<close>): hard state, configuration,
  entries and snapshot in memory, written as one file after every change (to a temporary file
  that is then renamed). The protobuf messages are records with the fields the raft library
  documents; their byte form is third-party code, so the writers and parsers are a parameter
  (\<open>proto\<close>), as is \<open>limit_size\<close>; a configuration is opaque (\<open>'c\<close>). The directory
  holds two names, \<open>raft_state.bin\<close> and \<open>raft_state.tmp\<close>.
\<close>

subsection \<open>Messages and state\<close>

record hard_state =
  hs_term :: u64
  hs_vote :: u64
  hs_commit :: u64

datatype entry_type = EntryNormal | EntryConfChange | EntryConfChangeV2

record raft_entry =
  en_type :: entry_type
  en_term :: u64
  en_index :: u64
  en_data :: bytes
  en_context :: bytes

record 'c snapshot_metadata =
  sm_conf_state :: 'c
  sm_index :: u64
  sm_term :: u64

record 'c raft_snapshot =
  sn_data :: bytes
  sn_metadata :: "'c snapshot_metadata"

record 'c persistent_state =
  ps_hard_state :: hard_state
  ps_conf_state :: 'c
  ps_entries :: "raft_entry list"
  ps_snapshot :: "'c raft_snapshot"

datatype raft_error = Compacted | Unavailable | SnapshotOutOfDate

datatype storage_error =
  StorageIo io_error | StorageProto | StorageRaft raft_error |
  OverwriteCompacted | CompactBeyondLast | TruncatedLength | TruncatedPayload | MissingCount

record 'c proto =
  write_hard_state :: "hard_state \<Rightarrow> bytes option"
  parse_hard_state :: "bytes \<Rightarrow> hard_state option"
  write_conf_state :: "'c \<Rightarrow> bytes option"
  parse_conf_state :: "bytes \<Rightarrow> 'c option"
  write_snapshot :: "'c raft_snapshot \<Rightarrow> bytes option"
  parse_snapshot :: "bytes \<Rightarrow> 'c raft_snapshot option"
  write_entry :: "raft_entry \<Rightarrow> bytes option"
  parse_entry :: "bytes \<Rightarrow> raft_entry option"

definition saturating_sub :: "u64 \<Rightarrow> u64 \<Rightarrow> u64" where
  "saturating_sub a b = (if a < b then 0 else a - b)"

definition snap_index :: "'c persistent_state \<Rightarrow> u64" where
  "snap_index st = sm_index (sn_metadata (ps_snapshot st))"

definition snap_term :: "'c persistent_state \<Rightarrow> u64" where
  "snap_term st = sm_term (sn_metadata (ps_snapshot st))"

definition first_index :: "'c persistent_state \<Rightarrow> u64" where
  "first_index st =
     (case ps_entries st of entry # _ \<Rightarrow> en_index entry | [] \<Rightarrow> snap_index st + 1)"

definition last_index :: "'c persistent_state \<Rightarrow> u64" where
  "last_index st = (if ps_entries st \<noteq> [] then en_index (last (ps_entries st)) else snap_index st)"

definition raft_term :: "'c persistent_state \<Rightarrow> u64 \<Rightarrow> raft_error fault + u64" where
  "raft_term st idx =
     (if idx = snap_index st then Inr (snap_term st)
      else let first = first_index st in
        if idx < saturating_sub first 1 then Inl (Err Compacted)
        else if idx < first then Inr (snap_term st)
        else if last_index st < idx then Inl (Err Unavailable)
        else if unat (idx - first) < length (ps_entries st)
             then Inr (en_term (ps_entries st ! unat (idx - first)))
             else Inl Panic)"

subsection \<open>The file\<close>

definition append_message :: "('m \<Rightarrow> bytes option) \<Rightarrow> 'm \<Rightarrow> bytes \<Rightarrow> storage_error + bytes" where
  "append_message write msg buf =
     (case write msg of
        None \<Rightarrow> Inl StorageProto
      | Some bs \<Rightarrow> Inr (buf @ be32 (of_nat (length bs)) @ bs))"

definition take_message :: "(bytes \<Rightarrow> 'm option) \<Rightarrow> bytes \<Rightarrow> nat \<Rightarrow> storage_error + 'm \<times> nat" where
  "take_message parse input cursor =
     (if length input < cursor + 4 then Inl TruncatedLength
      else let len = unat (of_be32 (subslice input cursor (cursor + 4))); cursor = cursor + 4
        in if length input < cursor + len then Inl TruncatedPayload
           else (case parse (subslice input cursor (cursor + len)) of
                   None \<Rightarrow> Inl StorageProto
                 | Some msg \<Rightarrow> Inr (msg, cursor + len)))"

primrec append_entries :: "'c proto \<Rightarrow> raft_entry list \<Rightarrow> bytes \<Rightarrow> storage_error + bytes" where
  "append_entries p [] buf = Inr buf"
| "append_entries p (e # es) buf =
     (case append_message (write_entry p) e buf of
        Inl err \<Rightarrow> Inl err | Inr buf \<Rightarrow> append_entries p es buf)"

definition encode_state :: "'c proto \<Rightarrow> 'c persistent_state \<Rightarrow> storage_error + bytes" where
  "encode_state p st =
     (case append_message (write_hard_state p) (ps_hard_state st) [] of
        Inl err \<Rightarrow> Inl err
      | Inr buf \<Rightarrow>
     (case append_message (write_conf_state p) (ps_conf_state st) buf of
        Inl err \<Rightarrow> Inl err
      | Inr buf \<Rightarrow>
     (case append_message (write_snapshot p) (ps_snapshot st) buf of
        Inl err \<Rightarrow> Inl err
      | Inr buf \<Rightarrow>
          append_entries p (ps_entries st) (buf @ be32 (of_nat (length (ps_entries st)))))))"

definition STATE_FILE :: string where "STATE_FILE = ''raft_state.bin''"
definition TMP_FILE :: string where "TMP_FILE = ''raft_state.tmp''"

definition persist :: "'c proto \<Rightarrow> 'c persistent_state \<Rightarrow> disk \<Rightarrow> (storage_error fault + unit) \<times> disk" where
  "persist p st d =
     (case encode_state p st of
        Inl err \<Rightarrow> (Inl (Err err), d)
      | Inr buf \<Rightarrow>
          and_then (map_err (Err \<circ> StorageIo) (io_write_file TMP_FILE buf d)) (\<lambda>_ d.
          map_err (Err \<circ> StorageIo) (io_rename TMP_FILE STATE_FILE d)))"

primrec take_entries :: "'c proto \<Rightarrow> nat \<Rightarrow> bytes \<Rightarrow> nat \<Rightarrow> storage_error + raft_entry list" where
  "take_entries p 0 input cursor = Inr []"
| "take_entries p (Suc n) input cursor =
     (case take_message (parse_entry p) input cursor of
        Inl err \<Rightarrow> Inl err
      | Inr (e, cursor) \<Rightarrow>
          (case take_entries p n input cursor of Inl err \<Rightarrow> Inl err | Inr es \<Rightarrow> Inr (e # es)))"

definition decode_state :: "'c proto \<Rightarrow> bytes \<Rightarrow> storage_error + 'c persistent_state" where
  "decode_state p input =
     (case take_message (parse_hard_state p) input 0 of
        Inl err \<Rightarrow> Inl err
      | Inr (hs, cursor) \<Rightarrow>
     (case take_message (parse_conf_state p) input cursor of
        Inl err \<Rightarrow> Inl err
      | Inr (cs, cursor) \<Rightarrow>
     (case take_message (parse_snapshot p) input cursor of
        Inl err \<Rightarrow> Inl err
      | Inr (snap, cursor) \<Rightarrow>
          if length input < cursor + 4 then Inl MissingCount
          else let count = unat (of_be32 (subslice input cursor (cursor + 4))) in
            (case take_entries p count input (cursor + 4) of
               Inl err \<Rightarrow> Inl err
             | Inr es \<Rightarrow> Inr \<lparr>ps_hard_state = hs, ps_conf_state = cs, ps_entries = es,
                             ps_snapshot = snap\<rparr>))))"

definition load_state :: "'c proto \<Rightarrow> disk \<Rightarrow> (storage_error fault + 'c persistent_state) \<times> disk" where
  "load_state p d =
     and_then (map_err (Err \<circ> StorageIo) (io_read STATE_FILE d)) (\<lambda>input d.
       (case decode_state p input of Inl err \<Rightarrow> (Inl (Err err), d) | Inr st \<Rightarrow> (Inr st, d)))"

subsection \<open>Operations\<close>

abbreviation commit_state ::
  "'c proto \<Rightarrow> 'c persistent_state \<Rightarrow> disk \<Rightarrow>
   (storage_error fault + unit) \<times> 'c persistent_state \<times> disk" where
  "commit_state p st d \<equiv> beside st (persist p st d)"

definition bootstrap_state :: "'c \<Rightarrow> 'c persistent_state" where
  "bootstrap_state conf =
     \<lparr>ps_hard_state = \<lparr>hs_term = 1, hs_vote = 0, hs_commit = 1\<rparr>, ps_conf_state = conf,
      ps_entries = [\<lparr>en_type = EntryNormal, en_term = 1, en_index = 1, en_data = [],
                     en_context = []\<rparr>],
      ps_snapshot = \<lparr>sn_data = [], sn_metadata =
        \<lparr>sm_conf_state = conf, sm_index = 0, sm_term = 0\<rparr>\<rparr>\<rparr>"

definition storage_open ::
  "'c proto \<Rightarrow> 'c \<Rightarrow> disk \<Rightarrow> (storage_error fault + 'c persistent_state) \<times> disk" where
  "storage_open p conf d =
     and_then (map_err (Err \<circ> StorageIo) (io_create_dir_all d)) (\<lambda>_ d.
       if disk_file d STATE_FILE \<noteq> None then load_state p d
       else and_then (persist p (bootstrap_state conf) d) (\<lambda>_ d. (Inr (bootstrap_state conf), d)))"

definition set_hardstate ::
  "'c proto \<Rightarrow> hard_state \<Rightarrow> 'c persistent_state \<times> disk \<Rightarrow>
   (storage_error fault + unit) \<times> 'c persistent_state \<times> disk" where
  "set_hardstate p hs = (\<lambda>(st, d). commit_state p (st\<lparr>ps_hard_state := hs\<rparr>) d)"

definition storage_append ::
  "'c proto \<Rightarrow> raft_entry list \<Rightarrow> 'c persistent_state \<times> disk \<Rightarrow>
   (storage_error fault + unit) \<times> 'c persistent_state \<times> disk" where
  "storage_append p ents = (\<lambda>(st, d).
     case ents of
       [] \<Rightarrow> (Inr (), st, d)
     | e # _ \<Rightarrow>
         let first = first_index st in
         if en_index e < first then (Inl (Err OverwriteCompacted), st, d)
         else let kept = (if en_index e \<le> last_index st
                          then take (unat (en_index e - first)) (ps_entries st)
                          else ps_entries st)
           in commit_state p (st\<lparr>ps_entries := kept @ ents\<rparr>) d)"

definition apply_snapshot ::
  "'c proto \<Rightarrow> 'c raft_snapshot \<Rightarrow> 'c persistent_state \<times> disk \<Rightarrow>
   (storage_error fault + unit) \<times> 'c persistent_state \<times> disk" where
  "apply_snapshot p snap = (\<lambda>(st, d).
     let hs = ps_hard_state st; meta = sn_metadata snap in
     commit_state p
       (st\<lparr>ps_snapshot := snap, ps_conf_state := sm_conf_state meta,
           ps_hard_state := hs\<lparr>hs_commit := sm_index meta,
                               hs_term := max (hs_term hs) (sm_term meta)\<rparr>,
           ps_entries := []\<rparr>) d)"

definition create_snapshot ::
  "'c proto \<Rightarrow> u64 \<Rightarrow> bytes \<Rightarrow> 'c persistent_state \<times> disk \<Rightarrow>
   (storage_error fault + unit) \<times> 'c persistent_state \<times> disk" where
  "create_snapshot p index snap_data = (\<lambda>(st, d).
     case raft_term st index of
       Inl Panic \<Rightarrow> (Inl Panic, st, d)
     | Inl (Err e) \<Rightarrow> (Inl (Err (StorageRaft e)), st, d)
     | Inr t \<Rightarrow>
         commit_state p
           (st\<lparr>ps_snapshot := \<lparr>sn_data = snap_data, sn_metadata =
               \<lparr>sm_conf_state = ps_conf_state st, sm_index = index, sm_term = t\<rparr>\<rparr>\<rparr>) d)"

definition compact ::
  "'c proto \<Rightarrow> u64 \<Rightarrow> 'c persistent_state \<times> disk \<Rightarrow>
   (storage_error fault + unit) \<times> 'c persistent_state \<times> disk" where
  "compact p compact_index = (\<lambda>(st, d).
     if compact_index \<le> first_index st then (Inr (), st, d)
     else if last_index st + 1 < compact_index then (Inl (Err CompactBeyondLast), st, d)
     else let n = unat (compact_index - first_index st) in
       if length (ps_entries st) < n then (Inl Panic, st, d)
       else commit_state p (st\<lparr>ps_entries := drop n (ps_entries st)\<rparr>) d)"

text \<open>The reads the raft library makes through its \<open>Storage\<close> trait.\<close>

definition storage_entries ::
  "(raft_entry list \<Rightarrow> u64 option \<Rightarrow> raft_entry list) \<Rightarrow> u64 \<Rightarrow> u64 \<Rightarrow> u64 option \<Rightarrow>
   'c persistent_state \<Rightarrow> raft_error fault + raft_entry list" where
  "storage_entries limit_size low high max_size st =
     (let first = first_index st in
      if low < first then Inl (Err Compacted)
      else if last_index st + 1 < high then Inl (Err Unavailable)
      else if ps_entries st = [] then Inr []
      else let lo = unat (low - first); hi = unat (high - first)
        in if hi < lo \<or> length (ps_entries st) < hi then Inl Panic
           else Inr (limit_size (subslice (ps_entries st) lo hi) max_size))"

definition storage_snapshot :: "u64 \<Rightarrow> 'c persistent_state \<Rightarrow> raft_error fault + 'c raft_snapshot" where
  "storage_snapshot request_index st =
     (if snap_index st < request_index then Inl (Err SnapshotOutOfDate) else Inr (ps_snapshot st))"

definition initial_state :: "'c persistent_state \<Rightarrow> hard_state \<times> 'c" where
  "initial_state st = (ps_hard_state st, ps_conf_state st)"

end
