(* ===== verification/RaftLog.thy ===== *)
theory RaftLog
  imports RaftStorage
begin

text \<open>
  What the persistent raft storage promises: its entries are a contiguous log, which append,
  compaction and snapshots change as the raft library expects; and its file is a faithful and
  crash-safe copy of the state.
\<close>

subsection \<open>Contiguous logs\<close>

primrec contiguous :: "nat \<Rightarrow> raft_entry list \<Rightarrow> bool" where
  "contiguous n [] = True"
| "contiguous n (e # es) = (unat (en_index e) = n \<and> contiguous (Suc n) es)"

definition log_of :: "raft_entry list \<Rightarrow> u64 \<Rightarrow> raft_entry option" where
  "log_of es = map_of (map (\<lambda>e. (en_index e, e)) es)"

lemma log_of_simps [simp]:
  "log_of [] i = None"
  "log_of (e # es) i = (if i = en_index e then Some e else log_of es i)"
  by (simp_all add: log_of_def)

lemma contiguous_append:
  "contiguous n (es @ es') \<longleftrightarrow> contiguous n es \<and> contiguous (n + length es) es'"
  by (induction es arbitrary: n) auto

lemma contiguous_take: "contiguous n es \<Longrightarrow> contiguous n (take k es)"
  by (metis append_take_drop_id contiguous_append)

lemma contiguous_drop: "contiguous n es \<Longrightarrow> k \<le> length es \<Longrightarrow> contiguous (n + k) (drop k es)"
  by (metis append_take_drop_id contiguous_append length_take min.absorb2)

lemma contiguous_nth: "contiguous n es \<Longrightarrow> k < length es \<Longrightarrow> unat (en_index (es ! k)) = n + k"
proof (induction es arbitrary: n k)
  case (Cons e es)
  then show ?case by (cases k) auto
qed simp

lemma contiguous_last: "contiguous n es \<Longrightarrow> es \<noteq> [] \<Longrightarrow> unat (en_index (last es)) + 1 = n + length es"
  using contiguous_nth [of n es "length es - 1"] by (simp add: last_conv_nth)

lemma log_of_contiguous:
  "contiguous n es \<Longrightarrow> log_of es i =
     (if n \<le> unat i \<and> unat i < n + length es then Some (es ! (unat i - n)) else None)"
proof (induction es arbitrary: n)
  case (Cons e es)
  then have e: "unat (en_index e) = n" by simp
  show ?case
  proof (cases "i = en_index e")
    case False
    then have "unat i \<noteq> n" using e by (metis word_unat_eq_iff)
    with False Cons show ?thesis by (auto simp: Suc_diff_le nth_Cons')
  qed (use e in simp)
qed simp

lemma log_of_append: "log_of (es @ es') i = (case log_of es i of None \<Rightarrow> log_of es' i | Some e \<Rightarrow> Some e)"
  by (induction es) auto

text \<open>The log of a state: where it starts, that it has no gap, that its indices do not wrap,
  and that the snapshot reaches up to its start.\<close>

definition log_ok :: "'c persistent_state \<Rightarrow> bool" where
  "log_ok st =
     (contiguous (unat (first_index st)) (ps_entries st) \<and> 0 < unat (first_index st) \<and>
      unat (snap_index st) + 1 < 2 ^ 64 \<and>
      unat (first_index st) \<le> unat (snap_index st) + 1 \<and>
      unat (first_index st) + length (ps_entries st) < 2 ^ 64)"

abbreviation log_entry :: "'c persistent_state \<Rightarrow> u64 \<Rightarrow> raft_entry option" where
  "log_entry st \<equiv> log_of (ps_entries st)"

lemma unat_add_1: "unat w + 1 < 2 ^ 64 \<Longrightarrow> unat (w + 1 :: u64) = unat w + 1"
  by (simp add: unat_word_ariths)

lemma last_index_next:
  assumes "log_ok st"
  shows "unat (last_index st) + 1 = unat (first_index st) + length (ps_entries st)"
  using assms contiguous_last [of "unat (first_index st)" "ps_entries st"]
  by (auto simp: log_ok_def last_index_def first_index_def unat_add_1)

lemma raft_term_log:
  assumes ok: "log_ok st"
  shows "raft_term st i =
     (if i = snap_index st then Inr (snap_term st)
      else if unat i + 1 < unat (first_index st) then Inl (Err Compacted)
      else if unat i + 1 = unat (first_index st) then Inr (snap_term st)
      else case log_entry st i of Some e \<Rightarrow> Inr (en_term e) | None \<Rightarrow> Inl (Err Unavailable))"
proof -
  let ?f = "first_index st"
  have pos: "0 < unat ?f" using ok by (simp add: log_ok_def)
  then have "1 \<le> ?f" by (simp add: word_le_nat_alt)
  then have pred: "unat (saturating_sub ?f 1) = unat ?f - 1"
    by (simp add: saturating_sub_def unat_sub)
  have entry: "log_entry st i = (if unat ?f \<le> unat i \<and> unat i \<le> unat (last_index st)
      then Some (ps_entries st ! (unat i - unat ?f)) else None)"
    using log_of_contiguous [of "unat ?f" "ps_entries st" i] ok last_index_next [OF ok]
    by (auto simp: log_ok_def)
  consider "unat i + 1 < unat ?f" | "unat i + 1 = unat ?f" | "unat ?f \<le> unat i" by linarith
  then show ?thesis
  proof cases
    case 3
    then have "?f \<le> i" by (simp add: word_le_nat_alt)
    then have diff: "unat (i - ?f) = unat i - unat ?f" by (simp add: unat_sub)
    show ?thesis
      using 3 entry last_index_next [OF ok]
      by (auto simp: raft_term_def Let_def word_less_nat_alt pred diff)
  qed (auto simp: raft_term_def Let_def word_less_nat_alt pred)
qed

subsection \<open>The file\<close>

text \<open>What the protobuf library documents: a written message parses back, and is below the
  32-bit length that the code writes in front of it.\<close>

definition message_ok :: "('m \<Rightarrow> bytes option) \<Rightarrow> (bytes \<Rightarrow> 'm option) \<Rightarrow> bool" where
  "message_ok write parse =
     (\<forall>m bs. write m = Some bs \<longrightarrow> parse bs = Some m \<and> length bs < 2 ^ 32)"

definition proto_ok :: "'c proto \<Rightarrow> bool" where
  "proto_ok p =
     (message_ok (write_hard_state p) (parse_hard_state p) \<and>
      message_ok (write_conf_state p) (parse_conf_state p) \<and>
      message_ok (write_snapshot p) (parse_snapshot p) \<and>
      message_ok (write_entry p) (parse_entry p))"

lemma take_appended_message:
  assumes "message_ok write parse" and "append_message write m buf = Inr buf'"
  shows "length buf \<le> length buf'" and "take (length buf) buf' = buf"
    and "take_message parse (buf' @ rest) (length buf) = Inr (m, length buf')"
proof -
  from assms obtain bs where bs: "buf' = buf @ be32 (of_nat (length bs)) @ bs" "parse bs = Some m"
    "length bs < 2 ^ 32"
    by (auto simp: append_message_def message_ok_def split: option.splits)
  then show "length buf \<le> length buf'" "take (length buf) buf' = buf"
    "take_message parse (buf' @ rest) (length buf) = Inr (m, length buf')"
    by (simp_all add: take_message_def Let_def byte_simps)
qed

lemma append_message_prefix:
  "append_message write m buf = Inr buf' \<Longrightarrow> \<exists>bs. buf' = buf @ bs"
  by (auto simp: append_message_def split: option.splits)

lemma append_entries_prefix:
  "append_entries p es buf = Inr buf' \<Longrightarrow> \<exists>bs. buf' = buf @ bs"
proof (induction es arbitrary: buf)
  case (Cons e es)
  then obtain buf1 where "append_message (write_entry p) e buf = Inr buf1"
    "append_entries p es buf1 = Inr buf'" by (auto split: sum.splits)
  with Cons.IH [of buf1] append_message_prefix [of "write_entry p" e buf buf1] show ?case by auto
qed simp

lemma take_appended_entries:
  assumes "message_ok (write_entry p) (parse_entry p)"
  shows "append_entries p es buf = Inr buf' \<Longrightarrow>
    take_entries p (length es) (buf' @ rest) (length buf) = Inr es"
proof (induction es arbitrary: buf)
  case (Cons e es)
  then obtain buf1 where e: "append_message (write_entry p) e buf = Inr buf1"
    and es: "append_entries p es buf1 = Inr buf'"
    by (auto split: sum.splits)
  from append_entries_prefix [OF es] obtain bs where buf': "buf' = buf1 @ bs" by blast
  have "take_message (parse_entry p) (buf' @ rest) (length buf) = Inr (e, length buf1)"
    using take_appended_message(3) [OF assms e, of "bs @ rest"] by (simp add: buf')
  with Cons.IH [OF es] show ?case by simp
qed simp

lemma decode_encode_state:
  assumes "proto_ok p" and "length (ps_entries st) < 2 ^ 32" and "encode_state p st = Inr buf"
  shows "decode_state p buf = Inr st"
proof -
  from assms(3) obtain b1 b2 b3 where
    b1: "append_message (write_hard_state p) (ps_hard_state st) [] = Inr b1" and
    b2: "append_message (write_conf_state p) (ps_conf_state st) b1 = Inr b2" and
    b3: "append_message (write_snapshot p) (ps_snapshot st) b2 = Inr b3" and
    b4: "append_entries p (ps_entries st) (b3 @ be32 (of_nat (length (ps_entries st)))) = Inr buf"
    by (auto simp: encode_state_def split: sum.splits)
  from append_message_prefix [OF b2] append_message_prefix [OF b3] append_entries_prefix [OF b4]
  obtain c2 c3 c4 where c: "b2 = b1 @ c2" "b3 = b2 @ c3"
    "buf = b3 @ be32 (of_nat (length (ps_entries st))) @ c4" by auto
  note ok = assms(1) [unfolded proto_ok_def]
  have t1: "take_message (parse_hard_state p) buf 0 = Inr (ps_hard_state st, length b1)"
    using take_appended_message(3) [OF _ b1] ok by (simp add: c)
  have t2: "take_message (parse_conf_state p) buf (length b1) = Inr (ps_conf_state st, length b2)"
    using take_appended_message(3) [OF _ b2] ok by (simp add: c)
  have t3: "take_message (parse_snapshot p) buf (length b2) = Inr (ps_snapshot st, length b3)"
    using take_appended_message(3) [OF _ b3] ok by (simp add: c)
  have t4: "take_entries p (length (ps_entries st)) buf (length b3 + 4) = Inr (ps_entries st)"
    using take_appended_entries [OF _ b4, of "[]"] ok by simp
  have "subslice buf (length b3) (length b3 + 4) = be32 (of_nat (length (ps_entries st)))"
    by (simp add: c(3) byte_simps)
  moreover have "length b3 + 4 \<le> length buf" by (simp add: c(3))
  ultimately show ?thesis
    using t1 t2 t3 t4 assms(2) by (simp add: decode_state_def Let_def)
qed


text \<open>A directory holds a state: the state file decodes to it.\<close>

definition state_saved :: "'c proto \<Rightarrow> 'c persistent_state \<Rightarrow> disk \<Rightarrow> bool" where
  "state_saved p st d =
     (disk_ok d \<and> (\<exists>buf. disk_file d STATE_FILE = Some buf \<and> decode_state p buf = Inr st))"

lemma tmp_not_state [simp]: "TMP_FILE \<noteq> STATE_FILE" "STATE_FILE \<noteq> TMP_FILE"
  by (simp_all add: TMP_FILE_def STATE_FILE_def)

lemma io_write_file_cases:
  assumes "io_write_file name content d = (res, d')" and "disk_ok d"
  shows "disk_ok d' \<and> (\<forall>x. x \<noteq> name \<longrightarrow> disk_file d' x = disk_file d x) \<and>
    (res = Inr () \<longrightarrow> disk_file d' name = Some content)"
  using assms by (auto simp: io_write_file_def disk_ok_def disk_file_def put_file_def
      split: prod.splits io_outcome.splits dest!: next_outcome_disk)

lemma io_rename_cases:
  assumes "io_rename src dst d = (res, d')" and "disk_ok d" and "src \<noteq> dst"
  shows "disk_ok d' \<and> (disk_file d' dst = disk_file d dst \<or> disk_file d' dst = disk_file d src) \<and>
    (res = Inr () \<longrightarrow> disk_file d' dst = disk_file d src)"
  using assms by (auto simp: io_rename_def io_guard_def disk_ok_def disk_file_def put_file_def
      split: prod.splits io_outcome.splits option.splits dest!: next_outcome_disk)

text \<open>Whatever fails on the way, the state file is the old one or the new one.\<close>

lemma persist_atomic:
  assumes "proto_ok p" and "length (ps_entries st) < 2 ^ 32" and "disk_ok d"
    and run: "persist p st d = (res, d')"
  shows "disk_ok d' \<and> (disk_file d' STATE_FILE = disk_file d STATE_FILE \<or> state_saved p st d') \<and>
    (res = Inr () \<longrightarrow> state_saved p st d')"
proof (cases "encode_state p st")
  case (Inr buf)
  have dec: "decode_state p buf = Inr st" using decode_encode_state [OF assms(1,2) Inr] .
  obtain r1 d1 where w: "io_write_file TMP_FILE buf d = (r1, d1)" by force
  note w1 = io_write_file_cases [OF w assms(3)]
  show ?thesis
  proof (cases r1)
    case (Inr u)
    obtain r2 d2 where r: "io_rename TMP_FILE STATE_FILE d1 = (r2, d2)" by force
    have "disk_ok d1" using w1 by simp
    note r1 = io_rename_cases [OF r this tmp_not_state(1)]
    have "res = Inr () \<longleftrightarrow> r2 = Inr ()" and "d' = d2"
      using run \<open>encode_state p st = Inr buf\<close> w Inr r
      by (auto simp: persist_def map_err_def split: sum.splits)
    with w1 r1 dec Inr show ?thesis by (auto simp: state_saved_def)
  qed (use run Inr w w1 in \<open>auto simp: persist_def\<close>)
qed (use run assms(3) in \<open>auto simp: persist_def\<close>)

subsection \<open>Every operation\<close>

datatype 'c storage_op =
  SetHardState hard_state | AppendEntries "raft_entry list" | ApplySnapshot "'c raft_snapshot" |
  CreateSnapshot u64 bytes | Compact u64

fun storage_call ::
  "'c proto \<Rightarrow> 'c storage_op \<Rightarrow> 'c persistent_state \<times> disk \<Rightarrow>
   (storage_error fault + unit) \<times> 'c persistent_state \<times> disk" where
  "storage_call p (SetHardState hs) = set_hardstate p hs"
| "storage_call p (AppendEntries es) = storage_append p es"
| "storage_call p (ApplySnapshot s) = apply_snapshot p s"
| "storage_call p (CreateSnapshot i bs) = create_snapshot p i bs"
| "storage_call p (Compact i) = compact p i"

text \<open>Each operation either leaves state and disk alone or persists the state it computes.\<close>

lemma storage_call_cases:
  assumes "storage_call p c (st, d) = (res, st', d')"
  shows "st' = st \<and> d' = d \<or> persist p st' d = (res, d')"
  using assms
  by (cases c) (auto simp: set_hardstate_def storage_append_def apply_snapshot_def
      create_snapshot_def compact_def beside_def Let_def
      split: list.splits if_splits sum.splits fault.splits)

lemma storage_call_saved:
  assumes "proto_ok p" and saved: "state_saved p st d"
    and run: "storage_call p c (st, d) = (res, st', d')" and "length (ps_entries st') < 2 ^ 32"
  shows "(state_saved p st d' \<or> state_saved p st' d') \<and> (res = Inr () \<longrightarrow> state_saved p st' d')"
  using storage_call_cases [OF run]
proof
  assume "persist p st' d = (res, d')"
  moreover have "disk_ok d" using saved by (simp add: state_saved_def)
  moreover have "disk_file d' STATE_FILE = disk_file d STATE_FILE \<Longrightarrow> disk_ok d' \<Longrightarrow> state_saved p st d'"
    using saved by (simp add: state_saved_def)
  ultimately show ?thesis using persist_atomic [OF assms(1,4)] by blast
qed (use saved in simp)

lemma storage_open_saved:
  assumes "state_saved p st d" and "dk_faults d = []"
  shows "\<exists>d'. storage_open p conf d = (Inr st, d')"
proof -
  from assms(1) obtain buf where buf: "disk_file d STATE_FILE = Some buf" "decode_state p buf = Inr st"
    by (auto simp: state_saved_def)
  then show ?thesis
    using assms(2) by (simp add: storage_open_def io_create_dir_all_def load_state_def io_read_def
        disk_file_def)
qed

text \<open>
  C19: A restart of the raft storage gets the state back. From a saved state, run any
  operation on any schedule of I/O faults, then open the directory again: opening returns
  either the state before the operation or the state the operation computed, never a mixture,
  and after an operation that reported success it returns the latter. The hypothesis on the
  messages is what the protobuf library documents, that written messages parse back. (A
  restart is the end of the process: the file is not synced, so a power failure is another
  matter.)
\<close>

theorem storage_survives_restart:
  assumes "proto_ok p" and "state_saved p st d"
    and "storage_call p c (st, d) = (res, st', d')" and "length (ps_entries st') < 2 ^ 32"
  shows "\<exists>st'' d''. storage_open p conf (d'\<lparr>dk_faults := []\<rparr>) = (Inr st'', d'') \<and>
    (st'' = st \<or> st'' = st') \<and> (res = Inr () \<longrightarrow> st'' = st')"
proof -
  have calm: "state_saved p s d' \<Longrightarrow> state_saved p s (d'\<lparr>dk_faults := []\<rparr>)" for s
    by (simp add: state_saved_def disk_ok_def disk_file_def)
  have "\<exists>d''. storage_open p conf (d'\<lparr>dk_faults := []\<rparr>) = (Inr s, d'')" if "state_saved p s d'" for s
    using storage_open_saved [OF calm [OF that]] by simp
  then show ?thesis using storage_call_saved [OF assms] by blast
qed

subsection \<open>A concrete message format\<close>

text \<open>An instance of the parameter on which the hypotheses hold: only configurations that are
  lists of bytes and messages that are plain concatenations of fixed-width fields.\<close>

definition demo_entry_bytes :: "raft_entry \<Rightarrow> bytes option" where
  "demo_entry_bytes e =
     (if en_type e = EntryNormal \<and> en_context e = [] \<and> length (en_data e) < 1000
      then Some (be64 (en_term e) @ be64 (en_index e) @ en_data e) else None)"

definition demo_entry_parse :: "bytes \<Rightarrow> raft_entry option" where
  "demo_entry_parse bs =
     (if length bs < 16 then None
      else Some \<lparr>en_type = EntryNormal, en_term = of_be64 (take 8 bs),
                 en_index = of_be64 (subslice bs 8 16), en_data = drop 16 bs, en_context = []\<rparr>)"

definition demo_proto :: "u64 proto" where
  "demo_proto =
     \<lparr>write_hard_state = (\<lambda>hs. Some (be64 (hs_term hs) @ be64 (hs_vote hs) @ be64 (hs_commit hs))),
      parse_hard_state = (\<lambda>bs. if length bs < 24 then None else
        Some \<lparr>hs_term = of_be64 (take 8 bs), hs_vote = of_be64 (subslice bs 8 16),
              hs_commit = of_be64 (subslice bs 16 24)\<rparr>),
      write_conf_state = (\<lambda>c. Some (be64 c)),
      parse_conf_state = (\<lambda>bs. if length bs < 8 then None else Some (of_be64 (take 8 bs))),
      write_snapshot = (\<lambda>s. if 1000 \<le> length (sn_data s) then None else
        Some (be64 (sm_conf_state (sn_metadata s)) @ be64 (sm_index (sn_metadata s)) @
              be64 (sm_term (sn_metadata s)) @ sn_data s)),
      parse_snapshot = (\<lambda>bs. if length bs < 24 then None else
        Some \<lparr>sn_data = drop 24 bs, sn_metadata =
          \<lparr>sm_conf_state = of_be64 (take 8 bs), sm_index = of_be64 (subslice bs 8 16),
           sm_term = of_be64 (subslice bs 16 24)\<rparr>\<rparr>),
      write_entry = demo_entry_bytes, parse_entry = demo_entry_parse\<rparr>"

lemma demo_proto_ok: "proto_ok demo_proto"
proof -
  have "message_ok demo_entry_bytes demo_entry_parse"
    by (auto simp: message_ok_def demo_entry_bytes_def demo_entry_parse_def byte_simps)
  then show ?thesis
    by (simp add: proto_ok_def demo_proto_def message_ok_def byte_simps)
qed


definition demo_raft_disk :: "io_outcome list \<Rightarrow> disk" where
  "demo_raft_disk faults =
     \<lparr>dk_exists = True,
      dk_files = [(STATE_FILE, case encode_state demo_proto (bootstrap_state 5) of
        Inr buf \<Rightarrow> buf | Inl _ \<Rightarrow> [])], dk_faults = faults, dk_synced = Map.empty\<rparr>"

definition demo_entry :: "u64 \<Rightarrow> u64 \<Rightarrow> raft_entry" where
  "demo_entry i t = \<lparr>en_type = EntryNormal, en_term = t, en_index = i, en_data = [1], en_context = []\<rparr>"

lemma demo_raft_saved: "state_saved demo_proto (bootstrap_state 5) (demo_raft_disk faults)"
proof -
  have "\<exists>buf. encode_state demo_proto (bootstrap_state 5) = Inr buf"
    by (simp add: encode_state_def append_message_def demo_proto_def bootstrap_state_def
        demo_entry_bytes_def)
  then obtain buf where buf: "encode_state demo_proto (bootstrap_state 5) = Inr buf" by blast
  have "length (ps_entries (bootstrap_state (5::u64))) < 2 ^ 32" by (simp add: bootstrap_state_def)
  from decode_encode_state [OF demo_proto_ok this buf] show ?thesis
    by (simp add: state_saved_def demo_raft_disk_def buf disk_ok_def disk_file_def hm_ok_def hm_get_def)
qed

text \<open>The write of the temporary file succeeds and the rename fails.\<close>

lemma storage_survives_restart_witness:
  "\<exists>res st' d' st'' d''.
     storage_call demo_proto (AppendEntries [demo_entry 2 1])
       (bootstrap_state 5, demo_raft_disk [IoOk, IoFail 0]) = (res, st', d') \<and>
     storage_open demo_proto 5 (d'\<lparr>dk_faults := []\<rparr>) = (Inr st'', d'') \<and>
     (st'' = bootstrap_state 5 \<or> st'' = st')"
proof -
  obtain res st' d' where run: "storage_call demo_proto (AppendEntries [demo_entry 2 1])
      (bootstrap_state 5, demo_raft_disk [IoOk, IoFail 0]) = (res, st', d')"
    by (metis prod.exhaust)
  then have "length (ps_entries st') < 2 ^ 32"
    by (auto simp: storage_append_def beside_def Let_def first_index_def last_index_def
        bootstrap_state_def demo_entry_def split: if_splits)
  from storage_survives_restart [OF demo_proto_ok demo_raft_saved run this, of 5] run
  show ?thesis by blast
qed

subsection \<open>Append, snapshot and compaction on the log\<close>

lemma append_state:
  assumes "storage_append p (e # es) (st, d) = (Inr (), st', d')"
  shows "first_index st \<le> en_index e" and "st' = st\<lparr>ps_entries :=
    (if en_index e \<le> last_index st then take (unat (en_index e - first_index st)) (ps_entries st)
     else ps_entries st) @ e # es\<rparr>"
  using assms by (auto simp: storage_append_def Let_def beside_def split: if_splits)

lemma append_log:
  assumes ok: "log_ok st" and new: "contiguous (unat (en_index e)) (e # es)"
    and reach: "unat (en_index e) \<le> unat (last_index st) + 1"
    and room: "unat (en_index e) + length (e # es) < 2 ^ 64"
    and run: "storage_append p (e # es) (st, d) = (Inr (), st', d')"
  shows "log_ok st' \<and> first_index st' = first_index st \<and> last_index st' = en_index (last (e # es)) \<and>
    ps_snapshot st' = ps_snapshot st \<and>
    (\<forall>i. log_entry st' i = (if i < en_index e then log_entry st i else log_of (e # es) i))"
proof -
  let ?f = "first_index st"
  let ?k = "unat (en_index e) - unat ?f"
  from append_state [OF run] have le: "unat ?f \<le> unat (en_index e)"
    and st': "st' = st\<lparr>ps_entries := (if en_index e \<le> last_index st
      then take (unat (en_index e - ?f)) (ps_entries st) else ps_entries st) @ e # es\<rparr>"
    by (simp_all add: word_le_nat_alt)
  have "unat (en_index e - ?f) = ?k" using le by (simp add: unat_sub word_le_nat_alt)
  moreover have k: "?k \<le> length (ps_entries st)"
    using reach last_index_next [OF ok] by simp
  moreover have "?k = length (ps_entries st)" if "\<not> en_index e \<le> last_index st"
    using that reach last_index_next [OF ok] le by (simp add: word_le_nat_alt)
  ultimately have entries: "ps_entries st' = take ?k (ps_entries st) @ e # es"
    by (auto simp: st')
  have snap: "ps_snapshot st' = ps_snapshot st" by (simp add: st')
  have cont: "contiguous (unat ?f) (ps_entries st')"
    using ok new k le by (simp add: entries contiguous_append contiguous_take log_ok_def)
  have first: "first_index st' = ?f"
  proof (cases "?k = 0")
    case True
    with le have "en_index e = ?f" by (simp add: word_unat_eq_iff)
    with True show ?thesis by (simp add: first_index_def [of st'] entries)
  next
    case False
    with k show ?thesis
      by (cases "ps_entries st") (simp_all add: first_index_def entries take_Cons')
  qed
  have "log_entry st' i = (if i < en_index e then log_entry st i else log_of (e # es) i)" for i
    using log_of_contiguous [OF cont, of i] log_of_contiguous [OF new, of i]
      log_of_contiguous [of "unat ?f" "ps_entries st" i] ok k le
    by (auto simp: log_ok_def entries word_less_nat_alt nth_append not_less min_def
        simp del: log_of_simps contiguous.simps) 
  moreover have "log_ok st'"
    using ok cont first room k le by (simp add: log_ok_def snap_index_def snap entries)
  ultimately show ?thesis using first snap by (simp add: last_index_def entries)
qed

text \<open>
  C20: Appending entries that continue or overwrite the log (as the raft library calls it:
  contiguous, starting after the log's start and at most one behind its end) replaces exactly
  the suffix from the first new index on: below it every entry is kept, from it on the log is
  the new entries, the start and the snapshot stay and the log is well-formed again.
\<close>

theorem append_replaces_suffix:
  assumes ok: "log_ok st" and new: "contiguous (unat (en_index e)) (e # es)"
    and reach: "unat (en_index e) \<le> unat (last_index st) + 1"
    and room: "unat (en_index e) + length (e # es) < 2 ^ 64"
    and run: "storage_append p (e # es) (st, d) = (Inr (), st', d')"
  shows "log_ok st' \<and> first_index st' = first_index st \<and> last_index st' = en_index (last (e # es)) \<and>
    ps_snapshot st' = ps_snapshot st \<and>
    (\<forall>i. log_entry st' i = (if i < en_index e then log_entry st i else log_of (e # es) i))"
  using assms by (rule append_log)

lemma create_snapshot_state:
  assumes "create_snapshot p i bs (st, d) = (Inr (), st', d')"
  shows "\<exists>t. raft_term st i = Inr t \<and> st' = st\<lparr>ps_snapshot := \<lparr>sn_data = bs, sn_metadata =
    \<lparr>sm_conf_state = ps_conf_state st, sm_index = i, sm_term = t\<rparr>\<rparr>\<rparr>"
  using assms by (auto simp: create_snapshot_def beside_def split: sum.splits fault.splits)

lemma compact_state:
  assumes "compact p c (st, d) = (Inr (), st', d')"
  shows "c \<le> first_index st \<and> st' = st \<or>
    first_index st < c \<and> c \<le> last_index st + 1 \<and>
    unat (c - first_index st) \<le> length (ps_entries st) \<and>
    st' = st\<lparr>ps_entries := drop (unat (c - first_index st)) (ps_entries st)\<rparr>"
  using assms by (auto simp: compact_def beside_def Let_def not_less split: if_splits)


lemma append_replaces_suffix_witness:
  "\<exists>st' d'. storage_append demo_proto [demo_entry 2 1] (bootstrap_state 5, demo_raft_disk []) =
      (Inr (), st', d') \<and> log_ok st' \<and> last_index st' = 2 \<and>
    log_entry st' 1 = log_entry (bootstrap_state (5::u64)) 1 \<and>
    log_entry st' 2 = Some (demo_entry 2 1)"
proof -
  have "encode_state demo_proto ((bootstrap_state 5)\<lparr>ps_entries :=
      ps_entries (bootstrap_state (5::u64)) @ [demo_entry 2 1]\<rparr>) \<noteq> Inl e" for e
    by (simp add: encode_state_def append_message_def demo_proto_def bootstrap_state_def
        demo_entry_bytes_def demo_entry_def)
  then obtain st' d' where run:
    "storage_append demo_proto [demo_entry 2 1] (bootstrap_state 5, demo_raft_disk []) =
      (Inr (), st', d')"
    by (cases "encode_state demo_proto ((bootstrap_state 5)\<lparr>ps_entries :=
      ps_entries (bootstrap_state (5::u64)) @ [demo_entry 2 1]\<rparr>)")
     (auto simp: storage_append_def first_index_def last_index_def bootstrap_state_def demo_entry_def
       persist_def io_write_file_def io_rename_def demo_raft_disk_def put_file_def beside_def
       hm_get_def map_of_eq_None_iff fst_set_hm_insert)
  have "log_ok (bootstrap_state (5::u64))"
    by (simp add: log_ok_def bootstrap_state_def first_index_def snap_index_def)
  from append_replaces_suffix [OF this _ _ _ run] run show ?thesis
    by (simp add: demo_entry_def last_index_def bootstrap_state_def)
qed

lemma snapshot_compact_log:
  assumes ok: "log_ok st" and i: "first_index st \<le> i" "i \<le> last_index st" "snap_index st \<le> i"
    and snap: "create_snapshot p i bs (st, d) = (Inr (), st1, d1)"
    and comp: "compact p (i + 1) (st1, d1) = (Inr (), st2, d2)"
  shows "log_ok st2 \<and> first_index st2 = i + 1 \<and> last_index st2 = last_index st \<and>
    snap_index st2 = i \<and> sn_data (ps_snapshot st2) = bs \<and>
    (\<forall>j. i < j \<longrightarrow> log_entry st2 j = log_entry st j) \<and>
    (\<forall>j. i \<le> j \<longrightarrow> raft_term st2 j = raft_term st j) \<and>
    (\<forall>j. j < i \<longrightarrow> raft_term st2 j = Inl (Err Compacted))"
proof -
  let ?k = "Suc (unat i - unat (first_index st))"
  have room: "unat (last_index st) + 1 < 2 ^ 64"
    using ok last_index_next [OF ok] by (simp add: log_ok_def)
  have i1: "unat (i + 1) = unat i + 1"
    using i(2) room by (intro unat_add_1) (simp add: word_le_nat_alt)
  have ne: "ps_entries st \<noteq> []"
    using i last_index_next [OF ok] by (auto simp: word_le_nat_alt)
  from create_snapshot_state [OF snap] obtain t where t: "raft_term st i = Inr t" and
    st1: "st1 = st\<lparr>ps_snapshot := \<lparr>sn_data = bs, sn_metadata =
      \<lparr>sm_conf_state = ps_conf_state st, sm_index = i, sm_term = t\<rparr>\<rparr>\<rparr>" by blast
  have first1: "first_index st1 = first_index st" "last_index st1 = last_index st"
    using ne by (cases "ps_entries st"; simp add: st1 first_index_def last_index_def)+
  have lt: "first_index st < i + 1" using i(1) i1 by (simp add: word_less_nat_alt word_le_nat_alt)
  have "unat (i + 1 - first_index st) = ?k"
    using lt i(1) i1 by (simp add: unat_sub word_le_nat_alt)
  moreover have "ps_entries st1 = ps_entries st" by (simp add: st1)
  moreover note compact_state [OF comp, unfolded first1]
  ultimately have
    st2: "st2 = st1\<lparr>ps_entries := drop ?k (ps_entries st)\<rparr>" and k: "?k \<le> length (ps_entries st)"
    using lt leD by metis+
  have snap2: "snap_index st2 = i" "snap_term st2 = t" "sn_data (ps_snapshot st2) = bs"
    and e2: "ps_entries st2 = drop ?k (ps_entries st)"
    by (simp_all add: st2 st1 snap_index_def snap_term_def)
  have "contiguous (unat (first_index st) + ?k) (drop ?k (ps_entries st))"
    using ok k by (intro contiguous_drop) (simp_all add: log_ok_def)
  then have cont: "contiguous (unat (i + 1)) (ps_entries st2)"
    using i(1) i1 by (simp add: e2 word_le_nat_alt)
  have first2: "first_index st2 = i + 1"
    using cont by (cases "ps_entries st2") (auto simp: first_index_def snap2 word_unat_eq_iff)
  have ok2: "log_ok st2"
    using cont i1 ok k i(1) room i(2)
    by (auto simp: log_ok_def first2 snap2 e2 word_le_nat_alt)
  have last2: "last_index st2 = last_index st"
    using last_index_next [OF ok2] last_index_next [OF ok] k i1 i(1)
    by (simp add: word_unat_eq_iff first2 e2 word_le_nat_alt)
  have entry: "log_entry st2 j = log_entry st j" if "i < j" for j
    using that log_of_contiguous [OF cont, of j] k i1 i(1)
      Suc_diff_Suc [of "unat (first_index st)" "unat j"]
      log_of_contiguous [of "unat (first_index st)" "ps_entries st" j] ok
    by (auto simp: e2 log_ok_def word_less_nat_alt word_le_nat_alt)
  have "raft_term st2 j = raft_term st j" if "i \<le> j" for j
  proof (cases "i = j")
    case True
    then show ?thesis using t raft_term_log [OF ok2, of j] by (simp add: snap2)
  next
    case False
    with that have "i < j" by simp
    moreover from this i have "snap_index st \<noteq> j" "\<not> unat j + 1 \<le> unat (first_index st)"
      by (auto simp: word_less_nat_alt word_le_nat_alt)
    ultimately show ?thesis
      using raft_term_log [OF ok2, of j] raft_term_log [OF ok, of j] entry [of j] i1
      by (auto simp: snap2 first2 word_less_nat_alt)
  qed
  moreover have "raft_term st2 j = Inl (Err Compacted)" if "j < i" for j
    using that raft_term_log [OF ok2, of j] i1 by (auto simp: snap2 first2 word_less_nat_alt)
  ultimately show ?thesis using ok2 first2 last2 snap2 entry by blast
qed

text \<open>
  C21: A snapshot at an index of the log followed by the compaction the engine asks for next
  discards exactly the entries up to that index: the log starts behind it, ends where it
  ended, every later entry and every term from the snapshot's index on is what it was,
  smaller indices are answered with \<open>Compacted\<close>, and the snapshot holds the given data.
\<close>

theorem snapshot_then_compact:
  assumes ok: "log_ok st" and i: "first_index st \<le> i" "i \<le> last_index st" "snap_index st \<le> i"
    and snap: "create_snapshot p i bs (st, d) = (Inr (), st1, d1)"
    and comp: "compact p (i + 1) (st1, d1) = (Inr (), st2, d2)"
  shows "log_ok st2 \<and> first_index st2 = i + 1 \<and> last_index st2 = last_index st \<and>
    snap_index st2 = i \<and> sn_data (ps_snapshot st2) = bs \<and>
    (\<forall>j. i < j \<longrightarrow> log_entry st2 j = log_entry st j) \<and>
    (\<forall>j. i \<le> j \<longrightarrow> raft_term st2 j = raft_term st j) \<and>
    (\<forall>j. j < i \<longrightarrow> raft_term st2 j = Inl (Err Compacted))"
  using assms by (rule snapshot_compact_log)

lemma persist_calm:
  assumes "encode_state p st = Inr buf" and "dk_faults d = []"
  shows "\<exists>d'. persist p st d = (Inr (), d') \<and> dk_faults d' = []"
proof -
  have "hm_get (hm_insert TMP_FILE buf (dk_files d)) TMP_FILE = Some buf"
    by (simp add: hm_get_def hm_insert_spec)
  then show ?thesis
    using assms by (simp add: persist_def io_write_file_def io_rename_def) (simp add: put_file_def)
qed

text \<open>What must be writable for a state to be persisted, and the two storage steps of a snapshot
  of the raft state on a disk that answers every call.\<close>

definition state_writable :: "'c proto \<Rightarrow> 'c persistent_state \<Rightarrow> bool" where
  "state_writable p st =
     (write_hard_state p (ps_hard_state st) \<noteq> None \<and> write_conf_state p (ps_conf_state st) \<noteq> None \<and>
      write_snapshot p (ps_snapshot st) \<noteq> None \<and> list_all (\<lambda>e. write_entry p e \<noteq> None) (ps_entries st))"

lemma append_message_writes: "(\<exists>buf'. append_message write m buf = Inr buf') \<longleftrightarrow> write m \<noteq> None"
  by (auto simp: append_message_def split: option.split)

lemma append_entries_writes:
  "(\<exists>buf'. append_entries p es buf = Inr buf') \<longleftrightarrow> list_all (\<lambda>e. write_entry p e \<noteq> None) es"
  by (induction es arbitrary: buf) (auto simp: append_message_def split: option.split)

lemma encode_state_writes: "(\<exists>buf. encode_state p st = Inr buf) \<longleftrightarrow> state_writable p st"
  by (auto simp: encode_state_def state_writable_def append_message_def append_entries_writes split: option.split)

lemma create_snapshot_calm:
  assumes ok: "log_ok st" and i: "snap_index st \<le> i" "i \<le> last_index st"
    and writable: "state_writable p st" "\<And>s. write_snapshot p s \<noteq> None" and calm: "dk_faults d = []"
  shows "\<exists>st' d'. create_snapshot p i bs (st, d) = (Inr (), st', d') \<and> dk_faults d' = [] \<and> state_writable p st'"
proof -
  have bounds: "unat (first_index st) \<le> unat i + 1" "unat i < unat (first_index st) + length (ps_entries st)"
    using ok i last_index_next [OF ok] by (auto simp: log_ok_def word_le_nat_alt)
  then have "\<exists>t. raft_term st i = Inr t"
    using log_of_contiguous [of "unat (first_index st)" "ps_entries st" i] ok
    by (auto simp: raft_term_log [OF ok] log_ok_def)
  then obtain t where t: "raft_term st i = Inr t" by blast
  let ?st = "st\<lparr>ps_snapshot := \<lparr>sn_data = bs, sn_metadata =
    \<lparr>sm_conf_state = ps_conf_state st, sm_index = i, sm_term = t\<rparr>\<rparr>\<rparr>"
  have w: "state_writable p ?st" using writable by (simp add: state_writable_def)
  then obtain buf where "encode_state p ?st = Inr buf" using encode_state_writes by blast
  from persist_calm [OF this calm] w show ?thesis by (auto simp: create_snapshot_def t beside_def)
qed

lemma compact_calm:
  assumes ok: "log_ok st" and c: "unat c \<le> unat (last_index st) + 1"
    and writable: "state_writable p st" and calm: "dk_faults d = []"
  shows "\<exists>st' d'. compact p c (st, d) = (Inr (), st', d') \<and> dk_faults d' = [] \<and> state_writable p st'"
proof (cases "c \<le> first_index st")
  case False
  let ?n = "unat (c - first_index st)"
  have room: "unat (last_index st + 1) = unat (last_index st) + 1"
    using ok last_index_next [OF ok] by (intro unat_add_1) (simp add: log_ok_def)
  have n: "\<not> length (ps_entries st) < ?n"
    using False c last_index_next [OF ok] by (simp add: unat_sub word_le_nat_alt)
  let ?st = "st\<lparr>ps_entries := drop ?n (ps_entries st)\<rparr>"
  have w: "state_writable p ?st" using writable by (auto simp: state_writable_def list_all_iff dest: in_set_dropD)
  then obtain buf where "encode_state p ?st = Inr buf" using encode_state_writes by blast
  from persist_calm [OF this calm] w False n c room show ?thesis
    by (auto simp: compact_def Let_def beside_def word_less_nat_alt)
qed (use assms in \<open>simp add: compact_def\<close>)

lemma commit_calm:
  assumes "state_writable p st" and "dk_faults d = []"
  shows "\<exists>d'. beside st (persist p st d) = (Inr (), st, d') \<and> dk_faults d' = []"
proof -
  from assms(1) obtain buf where "encode_state p st = Inr buf" using encode_state_writes by blast
  from persist_calm [OF this assms(2)] show ?thesis by (auto simp: beside_def)
qed

lemma storage_append_calm:
  assumes e: "first_index st \<le> en_index e" and calm: "dk_faults d = []"
    and writable: "state_writable p st" "list_all (\<lambda>e. write_entry p e \<noteq> None) (e # es)"
  shows "\<exists>st' d'. storage_append p (e # es) (st, d) = (Inr (), st', d') \<and> dk_faults d' = [] \<and>
    state_writable p st'"
proof -
  let ?st = "st\<lparr>ps_entries := (if en_index e \<le> last_index st
    then take (unat (en_index e - first_index st)) (ps_entries st) else ps_entries st) @ e # es\<rparr>"
  have w: "state_writable p ?st"
    using writable by (auto simp: state_writable_def list_all_iff dest: in_set_takeD)
  from commit_calm [OF this calm] w e show ?thesis by (auto simp: storage_append_def Let_def not_less)
qed

definition demo_log :: "u64 \<Rightarrow> nat \<Rightarrow> u64 persistent_state" where
  "demo_log snap k = (bootstrap_state 5)\<lparr>
     ps_entries := drop k [demo_entry 1 1, demo_entry 2 1, demo_entry 3 2],
     ps_snapshot := \<lparr>sn_data = [9], sn_metadata = \<lparr>sm_conf_state = 5, sm_index = snap, sm_term = 1\<rparr>\<rparr>\<rparr>"

lemma demo_log_encodes: "\<exists>buf. encode_state demo_proto (demo_log snap k) = Inr buf"
  by (cases k; simp add: drop_Cons' encode_state_def append_message_def demo_proto_def demo_log_def
      bootstrap_state_def demo_entry_bytes_def demo_entry_def)

lemma snapshot_then_compact_witness:
  "\<exists>st1 d1 st2 d2. create_snapshot demo_proto 2 [9] (demo_log 0 0, demo_raft_disk []) =
       (Inr (), st1, d1) \<and>
     compact demo_proto 3 (st1, d1) = (Inr (), st2, d2) \<and> log_ok st2 \<and> first_index st2 = 3 \<and>
     raft_term st2 3 = raft_term (demo_log 0 0) 3 \<and> raft_term st2 1 = Inl (Err Compacted)"
proof -
  have ok: "log_ok (demo_log 0 0)" and idx: "first_index (demo_log 0 0) = 1"
    "last_index (demo_log 0 0) = 3" "snap_index (demo_log 0 0) = 0"
    by (simp_all add: log_ok_def demo_log_def demo_entry_def first_index_def last_index_def
        snap_index_def)
  have "raft_term (demo_log 0 0) 2 = Inr 1"
    using raft_term_log [OF ok, of 2] by (simp add: idx) (simp add: demo_log_def demo_entry_def)
  then obtain d1 where snap: "create_snapshot demo_proto 2 [9] (demo_log 0 0, demo_raft_disk []) =
      (Inr (), demo_log 2 0, d1)" and d1: "dk_faults d1 = []"
    using persist_calm [of demo_proto "demo_log 2 0" _ "demo_raft_disk []"] demo_log_encodes [of 2 0]
    by (auto simp: create_snapshot_def demo_log_def bootstrap_state_def demo_raft_disk_def)
  have "first_index (demo_log 2 0) = 1" "last_index (demo_log 2 0) = 3"
    by (simp_all add: demo_log_def demo_entry_def first_index_def last_index_def)
  moreover have "(demo_log 2 0)\<lparr>ps_entries := drop 2 (ps_entries (demo_log 2 0))\<rparr> = demo_log 2 2"
    by (simp add: demo_log_def)
  moreover have "length (ps_entries (demo_log 2 0)) = 3" by (simp add: demo_log_def)
  ultimately have "compact demo_proto 3 (demo_log 2 0, d1) =
      beside (demo_log 2 2) (persist demo_proto (demo_log 2 2) d1)"
    by (simp add: compact_def Let_def word_le_nat_alt)
  moreover obtain buf where "encode_state demo_proto (demo_log 2 2) = Inr buf"
    using demo_log_encodes [of 2 2] by blast
  ultimately obtain d2 where comp:
    "compact demo_proto 3 (demo_log 2 0, d1) = (Inr (), demo_log 2 2, d2)"
    using persist_calm [of demo_proto "demo_log 2 2" buf d1] d1 by auto
  from snapshot_then_compact [OF ok _ _ _ snap] comp have
    "log_ok (demo_log 2 2) \<and> first_index (demo_log 2 2) = 3 \<and>
     raft_term (demo_log 2 2) 3 = raft_term (demo_log 0 0) 3 \<and>
     raft_term (demo_log 2 2) 1 = Inl (Err Compacted)"
    by (simp add: idx)
  with snap comp show ?thesis by blast
qed

lemma persist_no_panic [simp]: "fst (persist p st d) \<noteq> Inl Panic"
  by (auto simp: persist_def and_then_def map_err_def split: sum.splits prod.splits)

lemma raft_term_no_panic: "log_ok st \<Longrightarrow> raft_term st i \<noteq> Inl Panic"
  by (simp add: raft_term_log split: option.split)

lemma index_past_end:
  assumes "log_ok st" and "first_index st \<le> i" and "i \<le> last_index st + 1"
  shows "unat (i - first_index st) \<le> length (ps_entries st)"
proof -
  have "unat (last_index st + 1) = unat (last_index st) + 1"
    using last_index_next [OF assms(1)] assms(1) by (intro unat_add_1) (simp add: log_ok_def)
  then show ?thesis
    using assms last_index_next [OF assms(1)] by (simp add: unat_sub word_le_nat_alt)
qed

text \<open>
  C22: On a well-formed log no operation of the storage and none of the reads the raft library
  makes panics: every subtraction, slice and index the code computes is in range (for a range
  of entries whose bounds are in order).
\<close>

theorem storage_never_panics:
  assumes ok: "log_ok st" and "low \<le> high"
  shows "fst (storage_call p c (st, d)) \<noteq> Inl Panic \<and> raft_term st i \<noteq> Inl Panic \<and>
    storage_entries limit_size low high max_size st \<noteq> Inl Panic"
proof (intro conjI)
  show "raft_term st i \<noteq> Inl Panic" by (rule raft_term_no_panic [OF ok])
  show "fst (storage_call p c (st, d)) \<noteq> Inl Panic"
  proof (cases c)
    case (CreateSnapshot i bs)
    then show ?thesis
      using raft_term_no_panic [OF ok, of i]
      by (auto simp: create_snapshot_def beside_def split: sum.splits fault.splits)
  next
    case (Compact i)
    then show ?thesis
      using index_past_end [OF ok, of i]
      by (cases "first_index st \<le> i") (auto simp: compact_def beside_def Let_def not_le not_less)
  qed (auto simp: set_hardstate_def storage_append_def apply_snapshot_def beside_def Let_def
      split: list.splits)
  show "storage_entries limit_size low high max_size st \<noteq> Inl Panic"
  proof (cases "first_index st \<le> low \<and> high \<le> last_index st + 1")
    case True
    then have "first_index st \<le> high" using assms(2) by (meson order_trans)
    with True index_past_end [OF ok this] assms(2) have
      "unat (high - first_index st) \<le> length (ps_entries st)"
      "unat (low - first_index st) \<le> unat (high - first_index st)"
      by (simp_all add: unat_sub word_le_nat_alt)
    then show ?thesis by (simp add: storage_entries_def Let_def)
  qed (auto simp: storage_entries_def Let_def not_le)
qed

lemma storage_never_panics_witness:
  "fst (storage_call demo_proto (Compact 3) (demo_log 0 0, demo_raft_disk [])) \<noteq> Inl Panic \<and>
   raft_term (demo_log 0 0) 2 \<noteq> Inl Panic \<and>
   storage_entries (\<lambda>es _. es) 1 4 None (demo_log 0 0) \<noteq> Inl Panic"
  by (rule storage_never_panics)
    (simp_all add: log_ok_def demo_log_def demo_entry_def first_index_def snap_index_def)

text \<open>
  A crash between the two steps of a snapshot is not harmless: with the snapshot taken and
  the log not yet compacted, the storage answers a query for the index just before its log
  with the term of the new snapshot, although that index is neither in the log nor the
  snapshot's; for a log that starts at 1 this is index 0, which has term 0 in the raft protocol.
\<close>

theorem interrupted_snapshot_wrong_term:
  assumes ok: "log_ok st" and i: "first_index st \<le> i" "i \<le> last_index st"
    and snap: "create_snapshot p i bs (st, d) = (Inr (), st1, d1)"
  shows "raft_term st1 (first_index st - 1) = raft_term st i \<and>
    log_entry st1 (first_index st - 1) = None \<and> snap_index st1 \<noteq> first_index st - 1"
proof -
  have pos: "0 < unat (first_index st)" using ok by (simp add: log_ok_def)
  then have pred: "unat (first_index st - 1) = unat (first_index st) - 1"
    by (simp add: unat_sub word_le_nat_alt)
  have ne: "ps_entries st \<noteq> []"
    using i last_index_next [OF ok] by (auto simp: word_le_nat_alt)
  from create_snapshot_state [OF snap] obtain t where t: "raft_term st i = Inr t" and
    st1: "st1 = st\<lparr>ps_snapshot := \<lparr>sn_data = bs, sn_metadata =
      \<lparr>sm_conf_state = ps_conf_state st, sm_index = i, sm_term = t\<rparr>\<rparr>\<rparr>" by blast
  have st1_simps: "first_index st1 = first_index st" "snap_index st1 = i" "snap_term st1 = t"
    "ps_entries st1 = ps_entries st"
    using ne by (cases "ps_entries st"; simp add: st1 first_index_def snap_index_def snap_term_def)+
  have bound: "unat i + 1 < 2 ^ 64"
    using ok i(2) last_index_next [OF ok] by (simp add: log_ok_def word_le_nat_alt)
  have ok1: "log_ok st1"
    using ok i(1) bound by (simp add: log_ok_def st1_simps word_le_nat_alt)
  have neq: "i \<noteq> first_index st - 1"
    using i(1) pos pred by (auto simp: word_le_nat_alt)
  have "log_entry st1 (first_index st - 1) = None"
    using ok pos pred log_of_contiguous [of "unat (first_index st)" "ps_entries st"]
    by (simp add: log_ok_def st1_simps)
  with neq t raft_term_log [OF ok1, of "first_index st - 1"] pos pred show ?thesis
    by (simp add: st1_simps)
qed

lemma interrupted_snapshot_wrong_term_witness:
  "\<exists>st1 d1. create_snapshot demo_proto 3 [9] (demo_log 0 0, demo_raft_disk []) = (Inr (), st1, d1) \<and>
     raft_term (demo_log 0 0) 0 = Inr 1 \<and> raft_term st1 0 = Inr 2"
proof -
  have ok: "log_ok (demo_log 0 0)" and idx: "first_index (demo_log 0 0) = 1"
    "last_index (demo_log 0 0) = 3" "snap_index (demo_log 0 0) = 0" "snap_term (demo_log 0 0) = 1"
    by (simp_all add: log_ok_def demo_log_def demo_entry_def first_index_def last_index_def
        snap_index_def snap_term_def)
  have t: "raft_term (demo_log 0 0) 3 = Inr 2"
    using raft_term_log [OF ok, of 3] by (simp add: idx) (simp add: demo_log_def demo_entry_def)
  let ?st1 = "(demo_log 0 0)\<lparr>ps_snapshot := \<lparr>sn_data = [9], sn_metadata =
      \<lparr>sm_conf_state = 5, sm_index = 3, sm_term = 2\<rparr>\<rparr>\<rparr>"
  obtain buf where "encode_state demo_proto ?st1 = Inr buf"
    by (simp add: encode_state_def append_message_def demo_proto_def demo_log_def
      bootstrap_state_def demo_entry_bytes_def demo_entry_def)
  then obtain d1 where snap: "create_snapshot demo_proto 3 [9] (demo_log 0 0, demo_raft_disk []) =
      (Inr (), ?st1, d1)"
    using t persist_calm [of demo_proto ?st1 _ "demo_raft_disk []"]
    by (auto simp: create_snapshot_def demo_raft_disk_def demo_log_def bootstrap_state_def)
  moreover have "raft_term (demo_log 0 0) 0 = Inr 1" using raft_term_log [OF ok, of 0] by (simp add: idx)
  ultimately show ?thesis
    using interrupted_snapshot_wrong_term [OF ok _ _ snap] t by (simp add: idx)
qed

end
