(* ===== verification/Engine.thy ===== *)
theory Engine
  imports Config Command Protocol Reader RaftLog
begin

text \<open>
  The shard engine (\<open>shard/engine.rs\<close>): client requests, the raft loop, the application of
  committed entries, snapshots of the raft state, garbage collection of segments and the
  handling of a lost leadership. The consensus library is not part of the repository: a raft
  node is a value of type \<open>'r\<close>, a message one of type \<open>'m\<close>, and the calls the engine makes
  are the fields of \<open>raft_api\<close>; those that read the node's storage get it as an argument.
  The engine's two directories are two disks. A bounded channel that may be full is a list of
  outcomes of the sends to come (used up: every send is accepted). The clock is a field that
  the environment sets between two calls; the timestamps are never read back.
\<close>

subsection \<open>The consensus library\<close>

datatype state_role = Follower | Candidate | Leader | PreCandidate

record ('m, 'c) raft_ready =
  rdy_committed :: "raft_entry list"
  rdy_hs :: "hard_state option"
  rdy_snapshot :: "'c raft_snapshot"
  rdy_entries :: "raft_entry list"
  rdy_messages :: "'m list"
  rdy_persisted_messages :: "'m list"

record ('m) light_ready =
  lr_committed :: "raft_entry list"
  lr_messages :: "'m list"

record ('r, 'm, 'c) raft_api =
  ra_role :: "'r \<Rightarrow> state_role"
  ra_leader_id :: "'r \<Rightarrow> u64"
  ra_committed :: "'r \<Rightarrow> u64"
  ra_applied :: "'r \<Rightarrow> u64"
  ra_propose :: "'c persistent_state \<Rightarrow> bytes \<Rightarrow> bytes \<Rightarrow> 'r \<Rightarrow> (raft_error + unit) \<times> 'r"
  ra_step :: "'c persistent_state \<Rightarrow> 'm \<Rightarrow> 'r \<Rightarrow> (raft_error + unit) \<times> 'r"
  ra_tick :: "'c persistent_state \<Rightarrow> 'r \<Rightarrow> 'r"
  ra_campaign :: "'c persistent_state \<Rightarrow> 'r \<Rightarrow> (raft_error + unit) \<times> 'r"
  ra_has_ready :: "'c persistent_state \<Rightarrow> 'r \<Rightarrow> bool"
  ra_ready :: "'c persistent_state \<Rightarrow> 'r \<Rightarrow> ('m, 'c) raft_ready \<times> 'r"
  ra_advance :: "'c persistent_state \<Rightarrow> ('m, 'c) raft_ready \<Rightarrow> 'r \<Rightarrow> 'm light_ready \<times> 'r"
  ra_msg_to :: "'m \<Rightarrow> u64"

subsection \<open>State\<close>

record shard_request =
  sreq_connection_id :: u64
  sreq_request :: request

record shard_response =
  srsp_connection_id :: u64
  srsp_response :: response

record 'm raft_outbound =
  ro_group_id :: u16
  ro_target_id :: u64
  ro_message :: 'm

datatype send_result = SendOk | SendFull | SendDisconnected

record pending_client_write =
  pcw_connection_id :: u64
  pcw_stream_id :: u64
  pcw_epoch :: u64
  pcw_stream_lsn :: u64

record ('r, 'm, 'c) engine =
  eg_shard_id :: u16
  eg_node_id :: u64
  eg_writer :: wal_writer
  eg_reader :: wal_reader
  eg_index :: stream_log_index
  eg_streams :: stream_state_table
  eg_raft :: 'r
  eg_store :: "'c persistent_state"
  eg_request_seq :: u64
  eg_pending :: "(u64, pending_client_write) hash_map"
  eg_bootstrapped :: bool
  eg_observed_role :: state_role
  eg_observed_leader :: u64
  eg_disk :: disk
  eg_raft_disk :: disk
  eg_now :: u64
  eg_response_sends :: "send_result list"
  eg_offered :: "shard_response list"
  eg_delivered :: "shard_response list"
  eg_outbound_sends :: "send_result list"
  eg_outbound :: "'m raft_outbound list"

datatype engine_error =
  EngineStorage storage_error | EngineWal wal_writer_error | EngineCommand command_error |
  EngineIo io_error | EngineRaft raft_error | EngineSnapshot snapshot_error | OutboundClosed u64

text \<open>Calls on the parts of the engine.\<close>

definition wal_call ::
  "(wal_writer \<times> disk \<Rightarrow> (wal_writer_error fault + 'a) \<times> wal_writer \<times> disk) \<Rightarrow>
   ('r, 'm, 'c) engine \<Rightarrow> (engine_error fault + 'a) \<times> ('r, 'm, 'c) engine" where
  "wal_call f e =
     (case f (eg_writer e, eg_disk e) of
        (res, w, d) \<Rightarrow> map_err (map_fault EngineWal) (res, e\<lparr>eg_writer := w, eg_disk := d\<rparr>))"

definition store_call ::
  "('c persistent_state \<times> disk \<Rightarrow> (storage_error fault + 'a) \<times> 'c persistent_state \<times> disk) \<Rightarrow>
   ('r, 'm, 'c) engine \<Rightarrow> (engine_error fault + 'a) \<times> ('r, 'm, 'c) engine" where
  "store_call f e =
     (case f (eg_store e, eg_raft_disk e) of
        (res, st, d) \<Rightarrow>
          map_err (map_fault EngineStorage) (res, e\<lparr>eg_store := st, eg_raft_disk := d\<rparr>))"

definition raft_call ::
  "('r \<Rightarrow> (raft_error + 'a) \<times> 'r) \<Rightarrow> ('r, 'm, 'c) engine \<Rightarrow>
   (engine_error fault + 'a) \<times> ('r, 'm, 'c) engine" where
  "raft_call f e =
     (case f (eg_raft e) of (res, r) \<Rightarrow> map_err (Err \<circ> EngineRaft) (res, e\<lparr>eg_raft := r\<rparr>))"

subsection \<open>Responses\<close>

text \<open>\<open>let _ = try_send(..)\<close>: a full or closed channel drops the response.\<close>

definition send_response ::
  "u64 \<Rightarrow> status \<Rightarrow> u64 \<Rightarrow> u64 \<Rightarrow> bytes \<Rightarrow> ('r, 'm, 'c) engine \<Rightarrow>
   (engine_error fault + unit) \<times> ('r, 'm, 'c) engine" where
  "send_response connection_id st epoch offset payload e =
     (let rsp = \<lparr>srsp_connection_id = connection_id, srsp_response =
            \<lparr>resp_status = st, resp_epoch = epoch, resp_offset = offset, resp_payload = payload\<rparr>\<rparr>;
          e = e\<lparr>eg_offered := eg_offered e @ [rsp]\<rparr>
      in case eg_response_sends e of
           [] \<Rightarrow> (Inr (), e\<lparr>eg_delivered := eg_delivered e @ [rsp]\<rparr>)
         | SendOk # ss \<Rightarrow>
             (Inr (), e\<lparr>eg_response_sends := ss, eg_delivered := eg_delivered e @ [rsp]\<rparr>)
         | _ # ss \<Rightarrow> (Inr (), e\<lparr>eg_response_sends := ss\<rparr>))"

definition send_not_leader ::
  "('r, 'm, 'c) raft_api \<Rightarrow> u64 \<Rightarrow> ('r, 'm, 'c) engine \<Rightarrow>
   (engine_error fault + unit) \<times> ('r, 'm, 'c) engine" where
  "send_not_leader api connection_id e =
     send_response connection_id ErrNotLeader 0 (ra_leader_id api (eg_raft e)) [] e"

subsection \<open>Client requests\<close>

definition read_stream ::
  "(bytes \<Rightarrow> u32) \<Rightarrow> u64 \<Rightarrow> u64 \<Rightarrow> u64 \<Rightarrow> ('r, 'm, 'c) engine \<Rightarrow>
   (engine_error fault + unit) \<times> ('r, 'm, 'c) engine" where
  "read_stream crc connection_id sid lsn e =
     (let from_log =
        (case read_from_tail sid lsn (eg_streams e) of
           Some tail \<Rightarrow>
             send_response connection_id Ok (current_epoch sid (eg_streams e)) (tr_stream_lsn tail)
               (tr_payload tail) e
         | None \<Rightarrow>
             (case read_record crc sid lsn (eg_index e) (eg_reader e, eg_disk e) of
                (res, rd, d) \<Rightarrow>
                  let e = e\<lparr>eg_reader := rd, eg_disk := d\<rparr> in
                  (case res of
                     Inr r \<Rightarrow>
                       send_response connection_id Ok (wr_epoch r) (wr_stream_lsn r) (wr_payload r) e
                   | Inl Panic \<Rightarrow> (Inl Panic, e)
                   | Inl (Err _) \<Rightarrow>
                       send_response connection_id ErrNotFound (current_epoch sid (eg_streams e))
                         lsn [] e)))
      in case stream_status sid (eg_streams e) of
           Some st \<Rightarrow>
             if ss_commit_stream_lsn st \<le> lsn
             then send_response connection_id ErrNotFound (ss_max_epoch st) lsn [] e
             else from_log
         | None \<Rightarrow> from_log)"

definition handle_write ::
  "('r, 'm, 'c) raft_api \<Rightarrow> shard_request \<Rightarrow> ('r, 'm, 'c) engine \<Rightarrow>
   (engine_error fault + unit) \<times> ('r, 'm, 'c) engine" where
  "handle_write api req e =
     (let r = sreq_request req; conn = sreq_connection_id req in
      if ra_role api (eg_raft e) \<noteq> Leader then send_not_leader api conn e
      else case allocate_append (req_stream_id r) (req_epoch r) (eg_streams e) of
             (Inl (Stale current _), t) \<Rightarrow>
               send_response conn ErrEpochFenced current 0 [] (e\<lparr>eg_streams := t\<rparr>)
           | (Inr lsn, t) \<Rightarrow>
               let request_id = eg_request_seq e + 1;
                   cmd = \<lparr>cmd_request_id = request_id, cmd_stream_id = req_stream_id r,
                          cmd_epoch = req_epoch r, cmd_stream_lsn = lsn,
                          cmd_payload = req_payload r\<rparr>;
                   e = e\<lparr>eg_streams := t, eg_request_seq := request_id,
                         eg_pending := hm_insert request_id
                           \<lparr>pcw_connection_id = conn, pcw_stream_id = cmd_stream_id cmd,
                            pcw_epoch = cmd_epoch cmd, pcw_stream_lsn = cmd_stream_lsn cmd\<rparr>
                           (eg_pending e)\<rparr>
               in raft_call (ra_propose api (eg_store e) [] (encode_append_command cmd)) e)"

definition handle_client_request ::
  "(bytes \<Rightarrow> u32) \<Rightarrow> ('r, 'm, 'c) raft_api \<Rightarrow> shard_request \<Rightarrow> ('r, 'm, 'c) engine \<Rightarrow>
   (engine_error fault + unit) \<times> ('r, 'm, 'c) engine" where
  "handle_client_request crc api req e =
     (let r = sreq_request req; conn = sreq_connection_id req in
      case req_op r of
        Write \<Rightarrow> handle_write api req e
      | Read \<Rightarrow>
          if ra_role api (eg_raft e) \<noteq> Leader then send_not_leader api conn e
          else read_stream crc conn (req_stream_id r) (req_offset r) e
      | Ack \<Rightarrow>
          (case advance_consumed (req_stream_id r) (req_offset r) (eg_streams e) of
             (consumed, t) \<Rightarrow>
               send_response conn Ok (current_epoch (req_stream_id r) t) consumed []
                 (e\<lparr>eg_streams := t\<rparr>))
      | GetStatus \<Rightarrow>
          (case stream_status (req_stream_id r) (eg_streams e) of
             Some st \<Rightarrow>
               send_response conn Ok (ss_max_epoch st) (ss_next_stream_lsn st)
                 (encode_stream_status_payload
                   \<lparr>sp_next_stream_lsn = ss_next_stream_lsn st,
                    sp_commit_stream_lsn = ss_commit_stream_lsn st,
                    sp_consumed_stream_lsn = ss_consumed_stream_lsn st,
                    sp_commit_index = ra_committed api (eg_raft e),
                    sp_last_applied = ra_applied api (eg_raft e)\<rparr>) e
           | None \<Rightarrow> send_response conn Ok 0 0 [] e))"

primrec process_client_requests ::
  "(bytes \<Rightarrow> u32) \<Rightarrow> ('r, 'm, 'c) raft_api \<Rightarrow> shard_request list \<Rightarrow> ('r, 'm, 'c) engine \<Rightarrow>
   (engine_error fault + unit) \<times> ('r, 'm, 'c) engine" where
  "process_client_requests crc api [] e = (Inr (), e)"
| "process_client_requests crc api (req # reqs) e =
     and_then (handle_client_request crc api req e)
       (\<lambda>_ e. process_client_requests crc api reqs e)"

primrec process_raft_messages ::
  "('r, 'm, 'c) raft_api \<Rightarrow> 'm list \<Rightarrow> ('r, 'm, 'c) engine \<Rightarrow>
   (engine_error fault + unit) \<times> ('r, 'm, 'c) engine" where
  "process_raft_messages api [] e = (Inr (), e)"
| "process_raft_messages api (m # ms) e =
     and_then (raft_call (ra_step api (eg_store e) m) e) (\<lambda>_ e. process_raft_messages api ms e)"


subsection \<open>Stepping down\<close>

definition drain_order :: "pending_client_write list \<Rightarrow> pending_client_write list" where
  "drain_order ps =
     sort_key pcw_stream_id (sort_key (\<lambda>p. 2 ^ 64 - unat (pcw_stream_lsn p)) ps)"

primrec fail_pending ::
  "u64 \<Rightarrow> pending_client_write list \<Rightarrow> ('r, 'm, 'c) engine \<Rightarrow> ('r, 'm, 'c) engine" where
  "fail_pending leader_id [] e = e"
| "fail_pending leader_id (p # ps) e =
     (let e = e\<lparr>eg_streams := rollback_uncommitted_append (pcw_stream_id p) (pcw_stream_lsn p)
               (eg_streams e)\<rparr>
      in fail_pending leader_id ps
           (snd (send_response (pcw_connection_id p) ErrNotLeader (pcw_epoch p) leader_id [] e)))"

definition fail_pending_writes_not_leader ::
  "('r, 'm, 'c) raft_api \<Rightarrow> ('r, 'm, 'c) engine \<Rightarrow> ('r, 'm, 'c) engine" where
  "fail_pending_writes_not_leader api e =
     (if eg_pending e = [] then e
      else let pending = drain_order (hm_values (eg_pending e));
               e = e\<lparr>eg_pending := []\<rparr>
        in fail_pending (ra_leader_id api (eg_raft e)) pending e)"

definition log_raft_state_if_changed ::
  "('r, 'm, 'c) raft_api \<Rightarrow> ('r, 'm, 'c) engine \<Rightarrow> ('r, 'm, 'c) engine" where
  "log_raft_state_if_changed api e =
     (let role = ra_role api (eg_raft e); leader_id = ra_leader_id api (eg_raft e) in
      if role \<noteq> eg_observed_role e \<or> leader_id \<noteq> eg_observed_leader e then
        let e = (if eg_observed_role e = Leader \<and> role \<noteq> Leader
                 then fail_pending_writes_not_leader api e else e)
        in e\<lparr>eg_observed_role := role, eg_observed_leader := leader_id\<rparr>
      else e)"

subsection \<open>Applying committed entries\<close>

definition SNAPSHOT_INTERVAL :: u64 where "SNAPSHOT_INTERVAL = 64"

definition maybe_snapshot_raft_state ::
  "'c proto \<Rightarrow> ('r, 'm, 'c) raft_api \<Rightarrow> ('r, 'm, 'c) engine \<Rightarrow>
   (engine_error fault + unit) \<times> ('r, 'm, 'c) engine" where
  "maybe_snapshot_raft_state p api e =
     (let applied = ra_applied api (eg_raft e); snap = snap_index (eg_store e) in
      if snap + SNAPSHOT_INTERVAL \<le> applied then
        and_then (store_call (create_snapshot p applied (encode_snapshot (eg_streams e))) e)
          (\<lambda>_ e. store_call (compact p (applied + 1)) e)
      else (Inr (), e))"

definition apply_append_entry ::
  "(bytes \<Rightarrow> u32) \<Rightarrow> 'c proto \<Rightarrow> ('r, 'm, 'c) raft_api \<Rightarrow> u64 \<Rightarrow> u64 \<Rightarrow> append_command \<Rightarrow>
   ('r, 'm, 'c) engine \<Rightarrow> (engine_error fault + unit) \<times> ('r, 'm, 'c) engine" where
  "apply_append_entry crc p api raft_index term cmd e =
     and_then (wal_call (append_with_log_index crc (eg_now e) (eg_now e) (cmd_stream_id cmd)
         (cmd_epoch cmd) (cmd_stream_lsn cmd) raft_index (cmd_payload cmd)) e) (\<lambda>el e.
     and_then (wal_call (\<lambda>(w, d). beside w (writer_sync w d)) e) (\<lambda>_ e.
     let e = e\<lparr>eg_index := index_insert (cmd_stream_id cmd) (cmd_stream_lsn cmd) (snd el)
               (eg_index e)\<rparr>;
         e = e\<lparr>eg_streams := mark_appended (cmd_stream_id cmd) (cmd_epoch cmd) raft_index
               (cmd_stream_lsn cmd) (cmd_payload cmd) (eg_streams e)\<rparr>;
         e = e\<lparr>eg_streams := mark_committed (cmd_stream_id cmd) raft_index (cmd_stream_lsn cmd)
               (eg_streams e)\<rparr>
     in and_then
          (case hm_get (eg_pending e) (cmd_request_id cmd) of
             Some pending \<Rightarrow>
               send_response (pcw_connection_id pending) Ok (pcw_epoch pending)
                 (pcw_stream_lsn pending) []
                 (e\<lparr>eg_pending := hm_remove (cmd_request_id cmd) (eg_pending e)\<rparr>)
           | None \<Rightarrow> (Inr (), e))
          (\<lambda>_ e. maybe_snapshot_raft_state p api e)))"

primrec apply_committed ::
  "(bytes \<Rightarrow> u32) \<Rightarrow> 'c proto \<Rightarrow> ('r, 'm, 'c) raft_api \<Rightarrow> raft_entry list \<Rightarrow> ('r, 'm, 'c) engine \<Rightarrow>
   (engine_error fault + unit) \<times> ('r, 'm, 'c) engine" where
  "apply_committed crc p api [] e = (Inr (), e)"
| "apply_committed crc p api (entry # es) e =
     (if en_data entry = [] then apply_committed crc p api es e
      else if en_type entry \<noteq> EntryNormal then apply_committed crc p api es e
      else case decode_append_command (en_data entry) of
             Inl err \<Rightarrow> (Inl (Err (EngineCommand err)), e)
           | Inr cmd \<Rightarrow>
               and_then (apply_append_entry crc p api (en_index entry) (en_term entry) cmd e)
                 (\<lambda>_ e. apply_committed crc p api es e))"

subsection \<open>Outbound messages and the ready loop\<close>

text \<open>The retry loop of one send: a full queue is tried again, a closed one is an error.\<close>

primrec try_send_outbound ::
  "'m raft_outbound \<Rightarrow> send_result list \<Rightarrow> bool \<times> send_result list" where
  "try_send_outbound out [] = (True, [])"
| "try_send_outbound out (s # ss) =
     (case s of SendOk \<Rightarrow> (True, ss) | SendDisconnected \<Rightarrow> (False, ss)
      | SendFull \<Rightarrow> try_send_outbound out ss)"

primrec dispatch_raft_messages ::
  "('r, 'm, 'c) raft_api \<Rightarrow> 'm list \<Rightarrow> ('r, 'm, 'c) engine \<Rightarrow>
   (engine_error fault + unit) \<times> ('r, 'm, 'c) engine" where
  "dispatch_raft_messages api [] e = (Inr (), e)"
| "dispatch_raft_messages api (msg # msgs) e =
     (if ra_msg_to api msg = eg_node_id e then
        and_then (raft_call (ra_step api (eg_store e) msg) e)
          (\<lambda>_ e. dispatch_raft_messages api msgs e)
      else
        let out = \<lparr>ro_group_id = eg_shard_id e, ro_target_id = ra_msg_to api msg, ro_message = msg\<rparr>
        in case try_send_outbound out (eg_outbound_sends e) of
             (True, ss) \<Rightarrow> dispatch_raft_messages api msgs
               (e\<lparr>eg_outbound_sends := ss, eg_outbound := eg_outbound e @ [out]\<rparr>)
           | (False, ss) \<Rightarrow>
               (Inl (Err (OutboundClosed (ro_target_id out))), e\<lparr>eg_outbound_sends := ss\<rparr>))"

definition snapshot_is_empty :: "'c raft_snapshot \<Rightarrow> bool" where
  "snapshot_is_empty s = (sm_index (sn_metadata s) = 0)"

definition drive_ready ::
  "(bytes \<Rightarrow> u32) \<Rightarrow> 'c proto \<Rightarrow> ('r, 'm, 'c) raft_api \<Rightarrow> ('r, 'm, 'c) engine \<Rightarrow>
   (engine_error fault + unit) \<times> ('r, 'm, 'c) engine" where
  "drive_ready crc p api e =
     (if \<not> ra_has_ready api (eg_store e) (eg_raft e) then (Inr (), e)
      else case ra_ready api (eg_store e) (eg_raft e) of
        (rdy, r) \<Rightarrow>
          let e = e\<lparr>eg_raft := r\<rparr>; committed = rdy_committed rdy in
          and_then (case rdy_hs rdy of Some hs \<Rightarrow> store_call (set_hardstate p hs) e
                      | None \<Rightarrow> (Inr (), e)) (\<lambda>_ e.
          and_then (if \<not> snapshot_is_empty (rdy_snapshot rdy)
                    then store_call (apply_snapshot p (rdy_snapshot rdy)) e else (Inr (), e)) (\<lambda>_ e.
          and_then (if rdy_entries rdy \<noteq> [] then store_call (storage_append p (rdy_entries rdy)) e
                    else (Inr (), e)) (\<lambda>_ e.
          and_then (dispatch_raft_messages api (rdy_messages rdy) e) (\<lambda>_ e.
          and_then (dispatch_raft_messages api (rdy_persisted_messages rdy) e) (\<lambda>_ e.
          and_then (apply_committed crc p api committed e) (\<lambda>_ e.
          let rest = rdy\<lparr>rdy_committed := [], rdy_messages := [], rdy_persisted_messages := []\<rparr> in
          (case ra_advance api (eg_store e) rest (eg_raft e) of
             (light, r) \<Rightarrow> dispatch_raft_messages api (lr_messages light) (e\<lparr>eg_raft := r\<rparr>)))))))))"

subsection \<open>Garbage collection\<close>

definition gc_truncate :: "stream_status list \<Rightarrow> stream_log_index \<Rightarrow> stream_log_index" where
  "gc_truncate = fold (\<lambda>s idx.
     if 0 < ss_consumed_stream_lsn s
     then truncate_stream_before (ss_stream_id s) (ss_consumed_stream_lsn s) idx else idx)"

primrec gc_segments ::
  "u64 set \<Rightarrow> u64 \<Rightarrow> (u64 \<times> string) list \<Rightarrow> ('r, 'm, 'c) engine \<Rightarrow>
   (engine_error fault + unit) \<times> ('r, 'm, 'c) engine" where
  "gc_segments live current [] e = (Inr (), e)"
| "gc_segments live current (s # ss) e =
     (if fst s = current then gc_segments live current ss e
      else if fst s \<notin> live then
        let e = e\<lparr>eg_reader := evict_segment (fst s) (eg_reader e)\<rparr> in
        (case io_remove_file (snd s) (eg_disk e) of
           (Inl err, d) \<Rightarrow> (Inl (Err (EngineIo err)), e\<lparr>eg_disk := d\<rparr>)
         | (Inr _, d) \<Rightarrow> gc_segments live current ss (e\<lparr>eg_disk := d\<rparr>))
      else gc_segments live current ss e)"

definition run_gc :: "('r, 'm, 'c) engine \<Rightarrow> (engine_error fault + unit) \<times> ('r, 'm, 'c) engine" where
  "run_gc e =
     (let e = e\<lparr>eg_index := gc_truncate (all_statuses (eg_streams e)) (eg_index e)\<rparr>;
          live = live_segment_ids (eg_index e);
          current = ww_current_segment_id (eg_writer e)
      in case list_segments (eg_shard_id e) (eg_disk e) of
           (Inl err, d) \<Rightarrow> (Inl (Err (EngineIo err)), e\<lparr>eg_disk := d\<rparr>)
         | (Inr segs, d) \<Rightarrow> gc_segments live current segs (e\<lparr>eg_disk := d\<rparr>))"

subsection \<open>The loop\<close>

text \<open>What one round of the \<open>select!\<close> wakes up for, with what the channel holds then, and
  which of the timers are due.\<close>

datatype 'm wake_up = WakeRequests "shard_request list" | WakeRaft "'m list" | WakeTimer

record 'm loop_input =
  li_wake :: "'m wake_up"
  li_tick_due :: bool
  li_campaign_due :: bool
  li_gc_due :: bool
  li_now :: u64

definition run_round ::
  "(bytes \<Rightarrow> u32) \<Rightarrow> 'c proto \<Rightarrow> ('r, 'm, 'c) raft_api \<Rightarrow> 'm loop_input \<Rightarrow> ('r, 'm, 'c) engine \<Rightarrow>
   (engine_error fault + unit) \<times> ('r, 'm, 'c) engine" where
  "run_round crc p api inp e =
     (let e = e\<lparr>eg_now := li_now inp\<rparr> in
      and_then (case li_wake inp of
                  WakeRequests reqs \<Rightarrow> process_client_requests crc api reqs e
                | WakeRaft ms \<Rightarrow> process_raft_messages api ms e
                | WakeTimer \<Rightarrow> (Inr (), e)) (\<lambda>_ e.
      let e = (if li_tick_due inp then e\<lparr>eg_raft := ra_tick api (eg_store e) (eg_raft e)\<rparr> else e) in
      and_then (if \<not> eg_bootstrapped e \<and> eg_node_id e = 1 \<and> li_campaign_due inp
                then and_then (raft_call (ra_campaign api (eg_store e)) e)
                       (\<lambda>_ e. (Inr (), e\<lparr>eg_bootstrapped := True\<rparr>))
                else (Inr (), e)) (\<lambda>_ e.
      and_then (drive_ready crc p api e) (\<lambda>_ e.
      let e = log_raft_state_if_changed api e in
      if li_gc_due inp then run_gc e else (Inr (), e)))))"

subsection \<open>Opening\<close>

text \<open>The raft node is built by the library from the storage (\<open>new_node\<close>), as is the
  configuration with the given voters (\<open>voters\<close>). The two directories of the shard are
  \<open>d\<close> and, for its subdirectory \<open>raft\<close>, \<open>raft_disk\<close>.\<close>

definition engine_open ::
  "(bytes \<Rightarrow> u32) \<Rightarrow> 'c proto \<Rightarrow> ('c persistent_state \<Rightarrow> raft_error + 'r) \<Rightarrow> (u64 list \<Rightarrow> 'c) \<Rightarrow>
   u16 \<Rightarrow> server_config \<Rightarrow> u64 \<Rightarrow> disk \<Rightarrow> disk \<Rightarrow>
   (engine_error fault + ('r, 'm, 'c) engine) \<times> disk \<times> disk" where
  "engine_open crc p new_node voters shard_id cfg now raft_disk d =
     (case storage_open p (voters (map peer_id (cfg_peers cfg))) raft_disk of
        (Inl err, raft_disk) \<Rightarrow> (Inl (map_fault EngineStorage err), raft_disk, d)
      | (Inr st, raft_disk) \<Rightarrow>
     (case decode_snapshot (cfg_tail_cache_entries cfg) (sn_data (ps_snapshot st)) of
        Inl err \<Rightarrow> (Inl (Err (EngineSnapshot err)), raft_disk, d)
      | Inr recovered \<Rightarrow>
     (case writer_open crc now shard_id (cfg_segment_max_bytes cfg) (cfg_tail_cache_entries cfg)
             (Some recovered) (snap_index st) d of
        (Inl err, d) \<Rightarrow> (Inl (map_fault EngineWal err), raft_disk, d)
      | (Inr (w, idx, streams), d) \<Rightarrow>
     (case new_node st of
        Inl err \<Rightarrow> (Inl (Err (EngineRaft err)), raft_disk, d)
      | Inr r \<Rightarrow>
          (Inr \<lparr>eg_shard_id = shard_id, eg_node_id = cfg_node_id cfg, eg_writer = w,
                eg_reader = reader_new shard_id, eg_index = idx, eg_streams = streams,
                eg_raft = r, eg_store = st, eg_request_seq = 0, eg_pending = [],
                eg_bootstrapped = False, eg_observed_role = Follower, eg_observed_leader = 0,
                eg_disk = d, eg_raft_disk = raft_disk, eg_now = now, eg_response_sends = [],
                eg_offered = [], eg_delivered = [], eg_outbound_sends = [], eg_outbound = []\<rparr>,
           raft_disk, d)))))"

end
