(* ===== verification/EngineInv.thy ===== *)
theory EngineInv
  imports Engine
begin

text \<open>
  The invariant of a shard engine and its preservation by every step of the engine: the WAL
  directory holds a log, every index entry points at the last record of that log with its key, every
  indexed and every cached record is a command that was applied. \<open>A\<close> is the list of the
  commands applied so far (those that opening found in the log included).
\<close>

subsection \<open>The part of the engine the invariant speaks of\<close>

definition engine_core ::
  "('r, 'm, 'c) engine \<Rightarrow>
   u16 \<times> wal_writer \<times> wal_reader \<times> stream_log_index \<times> stream_state_table \<times> disk" where
  "engine_core e = (eg_shard_id e, eg_writer e, eg_reader e, eg_index e, eg_streams e, eg_disk e)"

definition is_applied :: "append_command list \<Rightarrow> u64 \<Rightarrow> u64 \<Rightarrow> bytes \<Rightarrow> bool" where
  "is_applied A sid lsn payload =
     (\<exists>cmd \<in> set A. cmd_stream_id cmd = sid \<and> cmd_stream_lsn cmd = lsn \<and> cmd_payload cmd = payload)"

definition cache_applied :: "append_command list \<Rightarrow> stream_state_table \<Rightarrow> bool" where
  "cache_applied A t =
     (\<forall>sid. \<forall>r \<in> set (sr_tail_cache (ensure_stream sid t)).
        is_applied A sid (tr_stream_lsn r) (tr_payload r))"

definition index_applied ::
  "append_command list \<Rightarrow> (record_location \<times> wal_record) list \<Rightarrow> stream_log_index \<Rightarrow> bool" where
  "index_applied A l idx =
     (\<forall>sid lsn loc. index_lookup idx sid lsn = Some loc \<longrightarrow>
        (\<exists>r. log_map l (sid, lsn) = Some (loc, r) \<and> is_applied A sid lsn (wr_payload r)))"

lemma index_appliedD:
  assumes "index_applied A l idx" and "index_lookup idx sid lsn = Some loc"
  obtains r where "log_map l (sid, lsn) = Some (loc, r)" and "(loc, r) \<in> set l"
    and "record_key r = (sid, lsn)" and "is_applied A sid lsn (wr_payload r)"
  using assms log_map_in unfolding index_applied_def by (metis snd_conv)

text \<open>The stream table's states carry the id they are stored under.\<close>

definition streams_ok :: "stream_state_table \<Rightarrow> bool" where
  "streams_ok t = (hm_ok (st_streams t) \<and> (\<forall>sid. sr_stream_id (ensure_stream sid t) = sid))"

text \<open>No segment is so large that the offsets would wrap.\<close>

definition sizes_ok :: "(bytes \<Rightarrow> u32) \<Rightarrow> u16 \<Rightarrow> segment list \<Rightarrow> wal_writer \<Rightarrow> bool" where
  "sizes_ok crc shard segs w =
     ((\<forall>s \<in> set segs. addressable crc shard s) \<and>
      unat (ww_max_segment_bytes w) < 2 ^ 63 \<and>
      length (segment_bytes crc shard (last segs)) < 2 ^ 63 + 2 ^ 32)"

definition engine_ok ::
  "(bytes \<Rightarrow> u32) \<Rightarrow> append_command list \<Rightarrow> segment list \<Rightarrow> ('r, 'm, 'c) engine \<Rightarrow> bool" where
  "engine_ok crc A segs e =
     (writer_at crc segs (eg_writer e, eg_disk e) \<and> sg_tail (last segs) = [] \<and>
      ww_shard_id (eg_writer e) = eg_shard_id e \<and> sizes_ok crc (eg_shard_id e) segs (eg_writer e) \<and>
      wrd_shard_id (eg_reader e) = eg_shard_id e \<and> reader_ok (eg_reader e) \<and>
      index_ok (eg_index e) \<and> index_applied A (wal_log segs) (eg_index e) \<and>
      streams_ok (eg_streams e) \<and> cache_applied A (eg_streams e))"

lemma engine_ok_core:
  "engine_core e' = engine_core e \<Longrightarrow> engine_ok crc A segs e' = engine_ok crc A segs e"
  by (simp add: engine_ok_def engine_core_def)

subsection \<open>Steps that leave it alone\<close>

lemma send_response_core [simp]:
  "engine_core (snd (send_response conn st ep off pl e)) = engine_core e"
  by (auto simp: send_response_def engine_core_def Let_def split: list.split send_result.split)

lemma send_response_Inr [simp]: "fst (send_response conn st ep off pl e) = Inr ()"
  by (auto simp: send_response_def Let_def split: list.split send_result.split)

lemma send_response_offered [simp]:
  "eg_offered (snd (send_response conn st ep off pl e)) = eg_offered e @
     [\<lparr>srsp_connection_id = conn, srsp_response =
        \<lparr>resp_status = st, resp_epoch = ep, resp_offset = off, resp_payload = pl\<rparr>\<rparr>]"
  by (auto simp: send_response_def Let_def split: list.split send_result.split)

lemma send_response_eq: "send_response conn st ep off pl e =
    (Inr (), snd (send_response conn st ep off pl e))"
  by (metis prod.collapse send_response_Inr)

text \<open>What a response leaves untouched besides the core.\<close>

lemma send_response_fields [simp]:
  "eg_pending (snd (send_response conn st ep off pl e)) = eg_pending e"
  "eg_raft (snd (send_response conn st ep off pl e)) = eg_raft e"
  "eg_store (snd (send_response conn st ep off pl e)) = eg_store e"
  "eg_raft_disk (snd (send_response conn st ep off pl e)) = eg_raft_disk e"
  "eg_streams (snd (send_response conn st ep off pl e)) = eg_streams e"
  "eg_index (snd (send_response conn st ep off pl e)) = eg_index e"
  "eg_request_seq (snd (send_response conn st ep off pl e)) = eg_request_seq e"
  by (auto simp: send_response_def Let_def split: list.split send_result.split)

lemma raft_call_core [simp]: "engine_core (snd (raft_call f e)) = engine_core e"
  by (auto simp: raft_call_def engine_core_def map_err_def split: prod.splits sum.splits)

lemma store_call_core [simp]: "engine_core (snd (store_call f e)) = engine_core e"
  by (auto simp: store_call_def engine_core_def map_err_def split: prod.splits sum.splits)

lemma and_then_core:
  assumes "engine_core (snd r) = c" and "\<And>a s. engine_core (snd (f a s)) = engine_core s"
  shows "engine_core (snd (and_then r f)) = c"
  using assms by (cases r) (auto simp: and_then_def split: sum.splits)

lemma process_raft_messages_core [simp]:
  "engine_core (snd (process_raft_messages api ms e)) = engine_core e"
  by (induction ms arbitrary: e) (simp_all add: and_then_core)

lemma dispatch_core [simp]: "engine_core (snd (dispatch_raft_messages api ms e)) = engine_core e"
proof (induction ms arbitrary: e)
  case (Cons m ms)
  have "engine_core (e\<lparr>eg_outbound_sends := ss, eg_outbound := out\<rparr>) = engine_core e"
    "engine_core (e\<lparr>eg_outbound_sends := ss\<rparr>) = engine_core e" for ss out
    by (simp_all add: engine_core_def)
  then show ?case
    by (auto simp: Let_def Cons.IH and_then_core split: prod.splits bool.splits)
qed simp

lemma maybe_snapshot_core [simp]:
  "engine_core (snd (maybe_snapshot_raft_state p api e)) = engine_core e"
  by (simp add: maybe_snapshot_raft_state_def Let_def and_then_core)

subsection \<open>Stream table steps\<close>

lemma cache_applied_mono: "cache_applied A t \<Longrightarrow> set A \<subseteq> set B \<Longrightarrow> cache_applied B t"
  by (fastforce simp: cache_applied_def is_applied_def)

lemma streams_okD: "streams_ok t \<Longrightarrow> hm_ok (st_streams t)" "streams_ok t \<Longrightarrow> sr_stream_id (ensure_stream sid t) = sid"
  by (simp_all add: streams_ok_def)

lemma put_keeps:
  assumes "streams_ok t" and "cache_applied A t" and "sr_stream_id st = sid"
    and "set (sr_tail_cache st) \<subseteq> set (sr_tail_cache (ensure_stream sid t))"
  shows "streams_ok (put_stream sid st t) \<and> cache_applied A (put_stream sid st t)"
  using assms by (auto simp: cache_applied_def streams_ok_def)

lemma allocate_append_cases:
  assumes "allocate_append sid ep t = (res, t')"
  shows "\<exists>st. t' = put_stream sid st t \<and> sr_stream_id st = sr_stream_id (ensure_stream sid t) \<and>
    sr_tail_cache st = sr_tail_cache (ensure_stream sid t)"
  using assms by (auto simp: allocate_append_def Let_def split: if_splits)

lemma allocate_keeps:
  assumes "streams_ok t" and "cache_applied A t" and "allocate_append sid ep t = (res, t')"
  shows "streams_ok t' \<and> cache_applied A t'"
  using allocate_append_cases [OF assms(3)] assms(1,2) put_keeps [OF assms(1,2)]
  by (auto simp: streams_okD)

lemma advance_keeps:
  assumes "streams_ok t" and "cache_applied A t" and "advance_consumed sid c t = (res, t')"
  shows "streams_ok t' \<and> cache_applied A t'"
  using assms(3) unfolding advance_consumed_def Let_def
  by (auto intro!: put_keeps [OF assms(1,2)] simp: streams_okD(2) [OF assms(1)] dest: set_dropWhileD)

lemma rollback_keeps:
  assumes "streams_ok t" and "cache_applied A t"
  shows "streams_ok (rollback_uncommitted_append sid lsn t) \<and>
    cache_applied A (rollback_uncommitted_append sid lsn t)"
  using assms put_keeps [OF assms, of _ sid] streams_okD(2) [OF assms(1), of sid]
  by (auto simp: rollback_uncommitted_append_def Let_def ensure_stream_def split: option.split)

lemma observe_keeps:
  assumes "streams_ok t" and "cache_applied A t" and "is_applied A sid lsn payload"
  shows "streams_ok (observe_recovered sid ep eid lsn payload t) \<and>
    cache_applied A (observe_recovered sid ep eid lsn payload t)"
  using assms by (auto simp: observe_recovered_def Let_def cache_applied_def trim_front_drop
      streams_ok_def dest!: in_set_dropD)


subsection \<open>Reading\<close>

lemma list_segments_same: "list_segments shard d = (res, d') \<Longrightarrow> same_files d d'"
  by (auto simp: list_segments_def and_then_def dest: read_calls_same(1)
      split: if_splits prod.splits sum.splits)

lemma find_seg_names_Some:
  "List.find (\<lambda>x. fst x = g) (seg_names shard segs) = Some s \<Longrightarrow> s = (g, segment_filename shard g)"
  by (auto simp: find_Some_iff seg_names_def)

text \<open>Whatever the disk answers, a read leaves the files alone and the cache consistent.\<close>

lemma get_or_open_segment_keeps:
  assumes "stores crc (wrd_shard_id rd) segs d" and "reader_ok rd"
    and run: "get_or_open_segment g (rd, d) = (res, rd', d')"
  shows "same_files d d' \<and> reader_ok rd' \<and> wrd_shard_id rd' = wrd_shard_id rd \<and>
    (\<forall>fname. res = Inr fname \<longrightarrow> fname = segment_filename (wrd_shard_id rd) g)"
proof (cases "hm_get (wrd_segment_cache rd) g")
  case None
  obtain ls d1 where l: "list_segments (wrd_shard_id rd) d = (ls, d1)" by force
  note s1 = list_segments_same [OF l]
  show ?thesis
  proof (cases ls)
    case (Inl err)
    with run None l s1 assms(2) show ?thesis by (auto simp: get_or_open_segment_def)
  next
    case (Inr names)
    with l list_segments_stores(1) [OF assms(1)] have names: "names = seg_names (wrd_shard_id rd) segs"
      by auto
    show ?thesis
    proof (cases "List.find (\<lambda>s. fst s = g) names")
      case None
      with \<open>hm_get _ _ = None\<close> run l Inr s1 assms(2) show ?thesis
        by (auto simp: get_or_open_segment_def)
    next
      case (Some s)
      then have s: "s = (g, segment_filename (wrd_shard_id rd) g)"
        unfolding names by (rule find_seg_names_Some)
      obtain op d2 where o: "io_open (snd s) d1 = (op, d2)" by force
      have s2: "same_files d d2" using s1 read_calls_same(4) [OF o] same_files_trans by blast
      have "op = Inr fname \<Longrightarrow> fname = segment_filename (wrd_shard_id rd) g" for fname
        using o read_calls_Inr(4) s by auto
      with \<open>hm_get _ _ = None\<close> run l Inr Some o s2 assms(2) show ?thesis
        by (cases op) (auto simp: get_or_open_segment_def reader_ok_def split: if_splits)
    qed
  qed
qed (use run assms in \<open>auto simp: get_or_open_segment_def reader_ok_def\<close>)

lemma get_or_open_no_panic: "fst (get_or_open_segment g (rd, d)) \<noteq> Inl Panic"
  by (auto simp: get_or_open_segment_def and_then_def beside_def map_err_def
      split: option.split sum.split prod.split)

text \<open>A read through an index entry of the log returns its record or an error, never a panic.\<close>

lemma read_record_keeps:
  assumes st: "stores crc (wrd_shard_id rd) segs d" and ok: "reader_ok rd"
    and addr: "\<forall>s \<in> set segs. addressable crc (wrd_shard_id rd) s"
    and run: "read_record crc sid lsn idx (rd, d) = (res, rd', d')"
  shows "same_files d d' \<and> reader_ok rd' \<and> wrd_shard_id rd' = wrd_shard_id rd \<and>
    (index_lookup idx sid lsn = None \<longrightarrow> res = Inl (Err (ReaderNotFound lsn))) \<and>
    (\<forall>loc r. index_lookup idx sid lsn = Some loc \<longrightarrow> (loc, r) \<in> set (wal_log segs) \<longrightarrow>
       res = Inr r \<or> (\<exists>err. res = Inl (Err err)))"
proof (cases "index_lookup idx sid lsn")
  case (Some loc)
  obtain f rd1 d1 where g: "get_or_open_segment (loc_segment_id loc) (rd, d) = (f, rd1, d1)"
    using prod_cases3 by blast
  note g1 = get_or_open_segment_keeps [OF st ok g]
  show ?thesis
  proof (cases f)
    case (Inr fname)
    obtain b d2 where b: "io_read_exact_at fname (unat (loc_offset loc)) (unat (loc_size loc)) d1 = (b, d2)"
      by force
    have s2: "same_files d d2" using g1 read_calls_same(5) [OF b] same_files_trans by blast
    have out: "rd' = rd1" "d' = d2" "b = Inr buf \<Longrightarrow> decode_record crc buf = Inr (r, n) \<Longrightarrow> res = Inr r"
      "b = Inl err \<Longrightarrow> res = Inl (Err (ReaderIo err))" for buf r n err
      using run Some g Inr b by (auto simp: read_record_def map_err_def split: sum.splits fault.splits)
    have "res = Inr r \<or> (\<exists>err. res = Inl (Err err))" if log: "(loc, r) \<in> set (wal_log segs)" for r
    proof (cases b)
      case (Inr buf)
      from log obtain s where s: "s \<in> set segs" "(loc, r) \<in> set (segment_log s)"
        by (auto simp: wal_log_def)
      note slice = segment_slice [OF s(2) bspec [OF addr s(1)]]
      have "disk_file d1 fname = Some (segment_bytes crc (wrd_shard_id rd) s)"
        using st s(1) g1 \<open>f = Inr fname\<close> slice(1) by (auto simp: stores_def same_files_facts)
      with read_calls_Inr(5) [of fname _ _ d1 buf d2] b Inr slice(3) have "buf = record_layout crc r"
        by auto
      moreover have "record_fits r"
        using st s in_locate [OF s(2) [unfolded segment_log_def]]
        by (auto simp: stores_def segment_fits_def)
      ultimately show ?thesis using out(3) [OF Inr] decode_record_layout [of r crc "[]"] by simp
    qed (simp add: out(4))
    with out(1,2) s2 g1 Some show ?thesis by auto
  next
    case (Inl err)
    with g have "err \<noteq> Panic" using get_or_open_no_panic [of "loc_segment_id loc" rd d] by simp
    then show ?thesis using run Some g g1 Inl by (cases err) (auto simp: read_record_def)
  qed
qed (use run ok in \<open>auto simp: read_record_def\<close>)

subsection \<open>Client requests\<close>

lemma engine_okD:
  assumes "engine_ok crc A segs e"
  shows "stores crc (wrd_shard_id (eg_reader e)) segs (eg_disk e)" and "reader_ok (eg_reader e)"
    and "\<forall>s \<in> set segs. addressable crc (wrd_shard_id (eg_reader e)) s"
    and "streams_ok (eg_streams e)" and "cache_applied A (eg_streams e)"
    and "index_applied A (wal_log segs) (eg_index e)"
  using assms by (auto simp: engine_ok_def writer_at_def sizes_ok_def)

lemma engine_ok_streams:
  assumes "engine_ok crc A segs e" and "streams_ok t \<and> cache_applied A t"
  shows "engine_ok crc A segs (e\<lparr>eg_streams := t\<rparr>)"
  using assms by (simp add: engine_ok_def)

lemma engine_ok_disk:
  assumes "engine_ok crc A segs e" and "same_files (eg_disk e) d" and "reader_ok rd"
    and "wrd_shard_id rd = wrd_shard_id (eg_reader e)"
  shows "engine_ok crc A segs (e\<lparr>eg_reader := rd, eg_disk := d\<rparr>)"
  using assms by (auto simp: engine_ok_def writer_at_def intro: stores_same)

lemma engine_ok_respond [simp]:
  "engine_ok crc A segs (snd (send_response conn st ep off pl e)) = engine_ok crc A segs e"
  by (rule engine_ok_core) simp

lemma engine_ok_raft_call [simp]:
  "engine_ok crc A segs (snd (raft_call f e)) = engine_ok crc A segs e"
  by (rule engine_ok_core) simp

lemma read_stream_ok:
  assumes ok: "engine_ok crc A segs e"
  shows "engine_ok crc A segs (snd (read_stream crc conn sid lsn e))"
proof -
  obtain res rd d where r: "read_record crc sid lsn (eg_index e) (eg_reader e, eg_disk e) = (res, rd, d)"
    using prod_cases3 by blast
  have "engine_ok crc A segs (e\<lparr>eg_reader := rd, eg_disk := d\<rparr>)"
    using read_record_keeps [OF engine_okD(1-3) [OF ok] r] by (intro engine_ok_disk [OF ok]) auto
  then show ?thesis
    using ok r by (auto simp: read_stream_def Let_def
        split: option.splits sum.splits fault.splits)
qed

lemma handle_write_ok:
  assumes ok: "engine_ok crc A segs e"
  shows "engine_ok crc A segs (snd (handle_write api req e))"
proof -
  let ?r = "sreq_request req"
  obtain res t where a: "allocate_append (req_stream_id ?r) (req_epoch ?r) (eg_streams e) = (res, t)"
    by force
  have streams: "engine_ok crc A segs (e\<lparr>eg_streams := t\<rparr>)"
    using allocate_keeps [OF engine_okD(4,5) [OF ok] a] by (rule engine_ok_streams [OF ok])
  then have "engine_ok crc A segs (e\<lparr>eg_streams := t, eg_request_seq := n, eg_pending := ps\<rparr>)" for n ps
    by (simp add: engine_ok_def)
  with ok streams show ?thesis
    using a
    by (auto simp: handle_write_def Let_def send_not_leader_def
        split: sum.splits epoch_fence_error.splits)
qed

lemma handle_client_request_ok:
  assumes ok: "engine_ok crc A segs e"
  shows "engine_ok crc A segs (snd (handle_client_request crc api req e))"
proof -
  have "engine_ok crc A segs (e\<lparr>eg_streams := t\<rparr>)"
    if "advance_consumed sid c (eg_streams e) = (x, t)" for sid c x t
    using advance_keeps [OF engine_okD(4,5) [OF ok] that] by (rule engine_ok_streams [OF ok])
  then show ?thesis
    using ok read_stream_ok [OF ok] handle_write_ok [OF ok]
    by (auto simp: handle_client_request_def Let_def send_not_leader_def
        split: op_code.splits prod.splits option.splits)
qed

lemma and_then_ok:
  assumes "P (snd r)" and "\<And>a s. P s \<Longrightarrow> P (snd (f a s))"
  shows "P (snd (and_then r f))"
  using assms by (cases r) (auto simp: and_then_def split: sum.splits)

lemma process_client_requests_ok:
  "engine_ok crc A segs e \<Longrightarrow> engine_ok crc A segs (snd (process_client_requests crc api reqs e))"
  by (induction reqs arbitrary: e) (auto intro!: and_then_ok [where P = "engine_ok crc A segs"]
      handle_client_request_ok)


subsection \<open>Applying an entry\<close>

lemma is_applied_mono: "is_applied A s l p \<Longrightarrow> set A \<subseteq> set B \<Longrightarrow> is_applied B s l p"
  by (auto simp: is_applied_def)

lemma log_map_snoc: "log_map (l @ [x]) k = (if record_key (snd x) = k then Some x else log_map l k)"
  by (simp add: log_map_def)

lemma index_applied_append:
  assumes "index_ok idx" and "index_applied A l idx" and "set A \<subseteq> set B"
    and "is_applied B sid lsn (wr_payload r)" and "record_key r = (sid, lsn)"
  shows "index_applied B (l @ [(loc, r)]) (index_insert sid lsn loc idx)"
proof -
  have "\<exists>r'. log_map (l @ [(loc, r)]) (sid', lsn') = Some (loc', r') \<and> is_applied B sid' lsn' (wr_payload r')"
    if "index_lookup (index_insert sid lsn loc idx) sid' lsn' = Some loc'" for sid' lsn' loc'
  proof (cases "(sid', lsn') = (sid, lsn)")
    case False
    then have "index_lookup idx sid' lsn' = Some loc'" using that assms(1) by auto
    with assms(2) False is_applied_mono [OF _ assms(3)] show ?thesis
      unfolding index_applied_def log_map_snoc snd_conv assms(5) by metis
  qed (use that assms in \<open>auto simp: log_map_snoc\<close>)
  then show ?thesis by (simp add: index_applied_def)
qed

definition cmd_write :: "u64 \<Rightarrow> u64 \<Rightarrow> append_command \<Rightarrow> log_write" where
  "cmd_write now raft_index cmd =
     \<lparr>lw_now = now, lw_seg_now = now, lw_stream_id = cmd_stream_id cmd, lw_epoch = cmd_epoch cmd,
      lw_stream_lsn = cmd_stream_lsn cmd, lw_entry_id = raft_index, lw_payload = cmd_payload cmd\<rparr>"

lemma cmd_write_simps [simp]:
  "record_key (lw_record (cmd_write now i cmd)) = (cmd_stream_id cmd, cmd_stream_lsn cmd)"
  "wr_payload (lw_record (cmd_write now i cmd)) = cmd_payload cmd"
  "lw_fits (cmd_write now i cmd) = (length (cmd_payload cmd) + 48 < 2 ^ 32)"
  by (simp_all add: cmd_write_def lw_record_def record_key_def lw_fits_def)

lemma append_as_write:
  "append_with_log_index crc now now (cmd_stream_id cmd) (cmd_epoch cmd) (cmd_stream_lsn cmd) i
     (cmd_payload cmd) = append_write crc (cmd_write now i cmd)"
  by (simp add: append_write_def cmd_write_def)

text \<open>The writer's part of an apply, with the segment sizes.\<close>

lemma append_write_sizes:
  assumes at: "writer_at crc segs (w, d)" and tail: "sg_tail (last segs) = []" and fits: "lw_fits x"
    and seg: "ww_next_segment_id w \<noteq> 0" and sizes: "sizes_ok crc (ww_shard_id w) segs w"
    and run: "append_write crc x (w, d) = (Inr (e, loc), w', d')"
  shows "\<exists>segs'. appended crc x loc segs w segs' (w', d') \<and> sizes_ok crc (ww_shard_id w) segs' w'"
proof -
  let ?s = "add_record (lw_record x) (last segs)"
  have room: "length (segment_bytes crc (ww_shard_id w) (last segs)) < 2 ^ 63 + 2 ^ 32"
    using sizes by (simp add: sizes_ok_def)
  have last: "segs \<noteq> []" "stands_at crc w (last segs)" "segment_fits crc (last segs)"
    using at by (auto simp: writer_at_def stores_def)
  note add = add_record_simps [OF last(3) tail lw_fits_record [OF fits]]
  from append_write_log [OF at tail fits seg _ run] room obtain segs0 where
    app: "appended crc x loc segs w segs0 (w', d')" by auto
  have size: "encoded_size (lw_record x) < 2 ^ 32"
    using fits by (simp add: lw_fits_def encoded_size_def RECORD_HEADER_SIZE_def lw_record_def)
  have len: "length (segment_bytes crc (ww_shard_id w) ?s) =
      length (segment_bytes crc (ww_shard_id w) (last segs)) + encoded_size (lw_record x)"
    by (simp add: add)
  have addr: "addressable crc (ww_shard_id w) ?s"
    using sizes last(1) room size len by (auto simp: sizes_ok_def addressable_def add_record_def)
  have old: "\<forall>s \<in> set (butlast segs). addressable crc (ww_shard_id w) s"
    using sizes by (auto simp: sizes_ok_def dest: in_set_butlastD)
  have maxb: "unat (ww_max_segment_bytes w) < 2 ^ 63" using sizes by (simp add: sizes_ok_def)
  have off: "unat (ww_current_offset (advanced x w)) = length (segment_bytes crc (ww_shard_id w) ?s)"
    using last(2) len room size by (simp add: advanced_def stands_at_def unat_u64_of_nat flip: of_nat_add)
  have "wal_log segs = wal_log (butlast segs) @ segment_log (last segs)"
    using last(1) by (metis append_butlast_last_id wal_log_snoc)
  moreover have "loc = located x w" using run by (simp add: append_write_Inr)
  then have "segment_log ?s = segment_log (last segs) @ [(loc, lw_record x)]"
    using last(2) by (simp add: add located_def stands_at_def)
  ultimately have logs: "wal_log (butlast segs @ ?s # segs1) =
      wal_log segs @ [(loc, lw_record x)] @ wal_log segs1" for segs1
    by (simp add: wal_log_def)
  have "length (segment_bytes crc (ww_shard_id w) (last segs)) < 2 ^ 64" using room by simp
  from append_write_extends [OF at seg this add(1,3,4) run] show ?thesis
  proof (elim disjE conjE exE)
    assume at': "writer_at crc (butlast segs @ [?s]) (w', d')" and w': "w' = advanced x w"
      and small: "ww_current_offset (advanced x w) < ww_max_segment_bytes w"
    have "appended crc x loc segs w (butlast segs @ [?s]) (w', d')"
      using at' w' add(2) logs [of "[]"] by (simp add: appended_def advanced_def wal_log_def [of "[]"])
    moreover have "sizes_ok crc (ww_shard_id w) (butlast segs @ [?s]) w'"
      using old addr maxb small off by (simp add: sizes_ok_def w' advanced_def word_less_nat_alt)
    ultimately show ?thesis by blast
  next
    fix g now
    let ?segs = "butlast segs @ [?s, new_segment g now]"
    assume "writer_at crc ?segs (w', d')" and w': "ww_shard_id w' = ww_shard_id w"
      "ww_next_entry_id w' = ww_next_entry_id (advanced x w)"
      "ww_next_segment_id w' = ww_next_segment_id w + 1" "ww_max_segment_bytes w' = ww_max_segment_bytes w"
    then have "appended crc x loc segs w ?segs (w', d')"
      using logs [of "[new_segment g now]"]
      by (auto simp: appended_def advanced_def wal_log_def [of "[_]"])
    moreover have "sizes_ok crc (ww_shard_id w) ?segs w'"
      using old addr maxb w' by (simp add: sizes_ok_def addressable_def)
    ultimately show ?thesis by blast
  qed
qed

lemma apply_append_entry_Inr:
  assumes "apply_append_entry crc p api i tm cmd e = (Inr (), e')"
  shows "\<exists>el w d u d1. append_write crc (cmd_write (eg_now e) i cmd) (eg_writer e, eg_disk e) =
      (Inr el, w, d) \<and> writer_sync w d = (Inr u, d1) \<and>
    engine_core e' = engine_core (e\<lparr>eg_writer := w, eg_disk := d1,
      eg_index := index_insert (cmd_stream_id cmd) (cmd_stream_lsn cmd) (snd el) (eg_index e),
      eg_streams := mark_committed (cmd_stream_id cmd) i (cmd_stream_lsn cmd)
        (mark_appended (cmd_stream_id cmd) (cmd_epoch cmd) i (cmd_stream_lsn cmd) (cmd_payload cmd)
          (eg_streams e))\<rparr>)"
proof -
  from assms obtain el e1 u e2 where
    e1: "wal_call (append_write crc (cmd_write (eg_now e) i cmd)) e = (Inr el, e1)" and
    e2: "wal_call (\<lambda>(w, d). beside w (writer_sync w d)) e1 = (Inr u, e2)" and
    rest: "engine_core e' = engine_core (e2\<lparr>
      eg_index := index_insert (cmd_stream_id cmd) (cmd_stream_lsn cmd) (snd el) (eg_index e2),
      eg_streams := mark_committed (cmd_stream_id cmd) i (cmd_stream_lsn cmd)
        (mark_appended (cmd_stream_id cmd) (cmd_epoch cmd) i (cmd_stream_lsn cmd) (cmd_payload cmd)
          (eg_streams e2))\<rparr>)"
  proof -
    assume that: "\<And>el e1 u e2. wal_call (append_write crc (cmd_write (eg_now e) i cmd)) e = (Inr el, e1) \<Longrightarrow>
      wal_call (\<lambda>(w, d). beside w (writer_sync w d)) e1 = (Inr u, e2) \<Longrightarrow>
      engine_core e' = engine_core (e2\<lparr>
        eg_index := index_insert (cmd_stream_id cmd) (cmd_stream_lsn cmd) (snd el) (eg_index e2),
        eg_streams := mark_committed (cmd_stream_id cmd) i (cmd_stream_lsn cmd)
          (mark_appended (cmd_stream_id cmd) (cmd_epoch cmd) i (cmd_stream_lsn cmd) (cmd_payload cmd)
            (eg_streams e2))\<rparr>) \<Longrightarrow> thesis"
    from assms obtain el e1 u e2 where
      c: "wal_call (append_write crc (cmd_write (eg_now e) i cmd)) e = (Inr el, e1)"
      "wal_call (\<lambda>(w, d). beside w (writer_sync w d)) e1 = (Inr u, e2)" and
      r: "e' = snd (apply_append_entry crc p api i tm cmd e)"
      by (auto simp: apply_append_entry_def append_as_write and_then_Inr)
    show thesis
      by (rule that [OF c]) (simp add: r apply_append_entry_def append_as_write c Let_def and_then_core
          split: option.split, simp add: engine_core_def)
  qed
  then show ?thesis
    by (cases el) (auto simp: wal_call_def map_err_Inr beside_Inr engine_core_def split: prod.splits)
qed

lemma apply_append_entry_ok:
  assumes ok: "engine_ok crc A segs e" and fits: "length (cmd_payload cmd) + 48 < 2 ^ 32"
    and seg: "ww_next_segment_id (eg_writer e) \<noteq> 0"
    and run: "apply_append_entry crc p api i tm cmd e = (Inr (), e')"
  shows "\<exists>segs' loc. engine_ok crc (A @ [cmd]) segs' e' \<and>
    ww_next_segment_id (eg_writer e') \<in>
      {ww_next_segment_id (eg_writer e), ww_next_segment_id (eg_writer e) + 1} \<and>
    wal_log segs' = wal_log segs @ [(loc, lw_record (cmd_write (eg_now e) i cmd))] \<and>
    eg_index e' = index_insert (cmd_stream_id cmd) (cmd_stream_lsn cmd) loc (eg_index e) \<and>
    eg_streams e' = observe_recovered (cmd_stream_id cmd) (cmd_epoch cmd) i (cmd_stream_lsn cmd)
      (cmd_payload cmd) (eg_streams e)"
proof -
  let ?x = "cmd_write (eg_now e) i cmd"
  from apply_append_entry_Inr [OF run] obtain el w d u d1 where
    a: "append_write crc ?x (eg_writer e, eg_disk e) = (Inr el, w, d)"
    and sync: "writer_sync w d = (Inr u, d1)"
    and core: "engine_core e' = engine_core (e\<lparr>eg_writer := w, eg_disk := d1,
      eg_index := index_insert (cmd_stream_id cmd) (cmd_stream_lsn cmd) (snd el) (eg_index e),
      eg_streams := mark_committed (cmd_stream_id cmd) i (cmd_stream_lsn cmd)
        (mark_appended (cmd_stream_id cmd) (cmd_epoch cmd) i (cmd_stream_lsn cmd) (cmd_payload cmd)
          (eg_streams e))\<rparr>)" (is "_ = engine_core ?e")
    by blast
  obtain eid loc where el: "el = (eid, loc)" by (cases el)
  from append_write_sizes [OF _ _ _ seg _ a [unfolded el]] ok fits obtain segs' where
    app: "appended crc ?x loc segs (eg_writer e) segs' (w, d)"
    and sizes: "sizes_ok crc (ww_shard_id (eg_writer e)) segs' w"
    by (auto simp: engine_ok_def)
  have "same_files d d1" using sync by (auto simp: writer_sync_def map_err_Inr dest: read_calls_same(6))
  then have at: "writer_at crc segs' (w, d1)"
    using app by (auto simp: appended_def writer_at_def intro: stores_same)
  have now: "is_applied (A @ [cmd]) (cmd_stream_id cmd) (cmd_stream_lsn cmd) (cmd_payload cmd)"
    by (auto simp: is_applied_def)
  have idx: "index_applied (A @ [cmd]) (wal_log segs')
      (index_insert (cmd_stream_id cmd) (cmd_stream_lsn cmd) loc (eg_index e))"
  proof -
    have "wal_log segs' = wal_log segs @ [(loc, lw_record ?x)]" using app by (simp add: appended_def)
    moreover have "index_ok (eg_index e)" using ok by (simp add: engine_ok_def)
    ultimately show ?thesis using engine_okD(6) [OF ok] now by (auto intro!: index_applied_append)
  qed
  have "cache_applied (A @ [cmd]) (eg_streams e)"
    using engine_okD(5) [OF ok] by (rule cache_applied_mono) auto
  from observe_keeps [OF engine_okD(4) [OF ok] this now]
  have tab: "streams_ok (eg_streams ?e) \<and> cache_applied (A @ [cmd]) (eg_streams ?e)"
    using streams_okD(1) [OF engine_okD(4) [OF ok]] by (simp add: observe_recovered_applied)
  have "engine_ok crc (A @ [cmd]) segs' ?e"
    using ok at app sizes idx tab by (simp add: engine_ok_def appended_def el index_ok_insert)
  then have "engine_ok crc (A @ [cmd]) segs' e'" using engine_ok_core [OF core] by simp
  moreover have "eg_writer e' = w" "eg_index e' = eg_index ?e" "eg_streams e' = eg_streams ?e"
    using core by (simp_all add: engine_core_def)
  ultimately show ?thesis
    using app streams_okD(1) [OF engine_okD(4) [OF ok]]
    by (auto simp: appended_def el observe_recovered_applied)
qed


text \<open>The commands a list of committed entries carries.\<close>

definition entry_cmd :: "raft_entry \<Rightarrow> append_command option" where
  "entry_cmd en =
     (if en_data en = [] \<or> en_type en \<noteq> EntryNormal then None
      else case decode_append_command (en_data en) of Inr cmd \<Rightarrow> Some cmd | Inl _ \<Rightarrow> None)"

definition entries_cmds :: "raft_entry list \<Rightarrow> append_command list" where
  "entries_cmds es = List.map_filter entry_cmd es"

definition entries_fit :: "raft_entry list \<Rightarrow> bool" where
  "entries_fit es = list_all (\<lambda>en. length (en_data en) + 48 < 2 ^ 32) es"

lemma entries_cmds_simps [simp]:
  "entries_cmds [] = []"
  "entries_cmds (en # es) = (case entry_cmd en of Some c \<Rightarrow> c # entries_cmds es | None \<Rightarrow> entries_cmds es)"
  by (simp_all add: entries_cmds_def map_filter_simps split: option.split)

lemma decoded_payload_length:
  "decode_append_command buf = Inr cmd \<Longrightarrow> length (cmd_payload cmd) \<le> length buf"
  using arg_cong [OF decode_append_command_Inr, of buf cmd length]
  by (simp add: length_encode_append_command)

lemma unat_Suc_add: "x \<noteq> 0 \<Longrightarrow> unat (x :: u64) + Suc n < 2 ^ 64 \<Longrightarrow> x + 1 \<noteq> 0 \<and> unat (x + 1) + n < 2 ^ 64"
  using unat_add_1 [of x] by (auto simp: word_unat_eq_iff [of "x + 1"])

lemma apply_committed_ok:
  assumes "engine_ok crc A segs e" and "entries_fit es" and "ww_next_segment_id (eg_writer e) \<noteq> 0"
    and "unat (ww_next_segment_id (eg_writer e)) + length es < 2 ^ 64"
    and "apply_committed crc p api es e = (Inr (), e')"
  shows "\<exists>segs'. engine_ok crc (A @ entries_cmds es) segs' e' \<and>
    ww_next_segment_id (eg_writer e') \<noteq> 0 \<and>
    unat (ww_next_segment_id (eg_writer e')) \<le> unat (ww_next_segment_id (eg_writer e)) + length es"
  using assms
proof (induction es arbitrary: A segs e)
  case (Cons en es)
  have fits: "entries_fit es" and len: "length (en_data en) + 48 < 2 ^ 32"
    using Cons.prems(2) by (simp_all add: entries_fit_def)
  show ?case
  proof (cases "en_data en = [] \<or> en_type en \<noteq> EntryNormal")
    case True
    then have "apply_committed crc p api es e = (Inr (), e')"
      using Cons.prems(5) by (auto split: if_splits)
    from Cons.IH [OF Cons.prems(1) fits Cons.prems(3) _ this] True Cons.prems(4) show ?thesis
      by (auto simp: entry_cmd_def)
  next
    case False
    with Cons.prems(5) obtain cmd e1 where cmd: "decode_append_command (en_data en) = Inr cmd"
      and e1: "apply_append_entry crc p api (en_index en) (en_term en) cmd e = (Inr (), e1)"
      and rest: "apply_committed crc p api es e1 = (Inr (), e')"
      by (auto simp: and_then_Inr split: sum.splits)
    have "length (cmd_payload cmd) + 48 < 2 ^ 32"
      using decoded_payload_length [OF cmd] len by simp
    from apply_append_entry_ok [OF Cons.prems(1) this Cons.prems(3) e1] obtain segs1 where
      ok1: "engine_ok crc (A @ [cmd]) segs1 e1" and "ww_next_segment_id (eg_writer e1) \<in>
        {ww_next_segment_id (eg_writer e), ww_next_segment_id (eg_writer e) + 1}" by blast
    moreover from this(2) have "ww_next_segment_id (eg_writer e1) \<noteq> 0"
      "unat (ww_next_segment_id (eg_writer e1)) + length es < 2 ^ 64"
      "unat (ww_next_segment_id (eg_writer e1)) \<le> unat (ww_next_segment_id (eg_writer e)) + 1"
      using unat_Suc_add [OF Cons.prems(3), of "length es"] Cons.prems(3,4)
        unat_add_1 [of "ww_next_segment_id (eg_writer e)"] by auto
    ultimately show ?thesis
      using Cons.IH [OF ok1 fits _ _ rest] cmd False by (fastforce simp: entry_cmd_def)
  qed
qed auto

lemma call_cores:
  "store_call f e = (res, e1) \<Longrightarrow> engine_core e1 = engine_core e"
  "dispatch_raft_messages api ms e = (res', e2) \<Longrightarrow> engine_core e2 = engine_core e"
  "raft_call g e = (res'', e3) \<Longrightarrow> engine_core e3 = engine_core e"
  using store_call_core [of f e] dispatch_core [of api ms e] raft_call_core [of g e] by auto

lemma engine_core_boot: "engine_core (e\<lparr>eg_bootstrapped := b\<rparr>) = engine_core e"
  by (simp add: engine_core_def)

lemma engine_core_raft [simp]: "engine_core (e\<lparr>eg_raft := r\<rparr>) = engine_core e"
  by (simp add: engine_core_def)

lemma drive_ready_committed:
  assumes run: "drive_ready crc p api e = (Inr (), e')"
    and has: "ra_has_ready api (eg_store e) (eg_raft e)"
  shows "\<exists>e1 e2. engine_core e1 = engine_core e \<and> engine_core e' = engine_core e2 \<and>
    apply_committed crc p api (rdy_committed (fst (ra_ready api (eg_store e) (eg_raft e)))) e1 =
      (Inr (), e2)"
proof -
  obtain rdy r where rdy: "ra_ready api (eg_store e) (eg_raft e) = (rdy, r)" by force
  obtain a b c d1 d2 e2 msgs r2 where
    a: "(case rdy_hs rdy of Some hs \<Rightarrow> store_call (set_hardstate p hs) (e\<lparr>eg_raft := r\<rparr>)
          | None \<Rightarrow> (Inr (), e\<lparr>eg_raft := r\<rparr>)) = (Inr (), a)" and
    b: "(if \<not> snapshot_is_empty (rdy_snapshot rdy)
          then store_call (apply_snapshot p (rdy_snapshot rdy)) a else (Inr (), a)) = (Inr (), b)" and
    c: "(if rdy_entries rdy \<noteq> [] then store_call (storage_append p (rdy_entries rdy)) b
          else (Inr (), b)) = (Inr (), c)" and
    d: "dispatch_raft_messages api (rdy_messages rdy) c = (Inr (), d1)"
      "dispatch_raft_messages api (rdy_persisted_messages rdy) d1 = (Inr (), d2)" and
    app: "apply_committed crc p api (rdy_committed rdy) d2 = (Inr (), e2)" and
    light: "dispatch_raft_messages api msgs (e2\<lparr>eg_raft := r2\<rparr>) = (Inr (), e')"
    using run has unfolding drive_ready_def rdy Let_def split_conv
    by (auto simp: and_then_Inr case_prod_beta)
  have "engine_core a = engine_core e"
    using a by (auto split: option.splits dest: call_cores)
  moreover have "engine_core b = engine_core a" "engine_core c = engine_core b"
    using b c by (auto split: if_splits dest: call_cores)
  ultimately have "engine_core d2 = engine_core e" using d by (auto dest!: call_cores(2))
  moreover have "engine_core e' = engine_core e2" using light by (auto dest!: call_cores(2))
  ultimately show ?thesis using app by (auto simp: rdy)
qed

lemma engine_core_writer: "engine_core e = engine_core e' \<Longrightarrow> eg_writer e = eg_writer e'"
  by (simp add: engine_core_def)

text \<open>The commands that one round of the ready loop applies.\<close>

definition ready_cmds :: "('r, 'm, 'c) raft_api \<Rightarrow> ('r, 'm, 'c) engine \<Rightarrow> raft_entry list" where
  "ready_cmds api e =
     (if ra_has_ready api (eg_store e) (eg_raft e)
      then rdy_committed (fst (ra_ready api (eg_store e) (eg_raft e))) else [])"

lemma drive_ready_ok:
  assumes ok: "engine_ok crc A segs e" and fits: "entries_fit (ready_cmds api e)"
    and seg: "ww_next_segment_id (eg_writer e) \<noteq> 0"
    and room: "unat (ww_next_segment_id (eg_writer e)) + length (ready_cmds api e) < 2 ^ 64"
    and run: "drive_ready crc p api e = (Inr (), e')"
  shows "\<exists>segs'. engine_ok crc (A @ entries_cmds (ready_cmds api e)) segs' e' \<and>
    ww_next_segment_id (eg_writer e') \<noteq> 0 \<and> unat (ww_next_segment_id (eg_writer e')) \<le>
      unat (ww_next_segment_id (eg_writer e)) + length (ready_cmds api e)"
proof (cases "ra_has_ready api (eg_store e) (eg_raft e)")
  case True
  from drive_ready_committed [OF run True] obtain e1 e2 where
    cores: "engine_core e1 = engine_core e" "engine_core e' = engine_core e2"
    and app: "apply_committed crc p api (ready_cmds api e) e1 = (Inr (), e2)"
    by (auto simp: ready_cmds_def True)
  have "engine_ok crc A segs e1" using ok engine_ok_core [OF cores(1)] by simp
  from apply_committed_ok [OF this fits _ _ app] seg room engine_core_writer [OF cores(1)]
  show ?thesis using engine_ok_core [OF cores(2)] engine_core_writer [OF cores(2)] by simp
qed (use ok run seg in \<open>auto simp: drive_ready_def ready_cmds_def\<close>)

subsection \<open>Stepping down\<close>

lemma fail_pending_ok:
  "engine_ok crc A segs e \<Longrightarrow> engine_ok crc A segs (fail_pending leader ps e)"
proof (induction ps arbitrary: e)
  case (Cons p ps)
  have "engine_ok crc A segs (e\<lparr>eg_streams := rollback_uncommitted_append (pcw_stream_id p)
      (pcw_stream_lsn p) (eg_streams e)\<rparr>)"
    using rollback_keeps [OF engine_okD(4,5) [OF Cons.prems]] by (rule engine_ok_streams [OF Cons.prems])
  then show ?case by (simp add: Let_def Cons.IH)
qed simp

lemma log_raft_state_ok:
  assumes ok: "engine_ok crc A segs e"
  shows "engine_ok crc A segs (log_raft_state_if_changed api e)"
proof -
  have core: "engine_core (s\<lparr>eg_observed_role := a, eg_observed_leader := b\<rparr>) = engine_core s"
    for s :: "('a, 'b, 'c) engine" and a b
    by (simp add: engine_core_def)
  have "engine_ok crc A segs (e\<lparr>eg_pending := []\<rparr>)" using ok by (simp add: engine_ok_def)
  then have "engine_ok crc A segs (fail_pending_writes_not_leader api e)"
    using ok fail_pending_ok by (auto simp: fail_pending_writes_not_leader_def Let_def)
  with ok show ?thesis
    by (simp add: log_raft_state_if_changed_def Let_def engine_ok_core [OF core])
qed


subsection \<open>Garbage collection\<close>

lemma gc_truncate_lookup:
  "index_ok idx \<Longrightarrow> index_ok (gc_truncate sts idx) \<and>
     (index_lookup (gc_truncate sts idx) sid lsn = Some loc \<longrightarrow> index_lookup idx sid lsn = Some loc)"
proof (induction sts arbitrary: idx)
  case (Cons s sts)
  let ?one = "if 0 < ss_consumed_stream_lsn s
    then truncate_stream_before (ss_stream_id s) (ss_consumed_stream_lsn s) idx else idx"
  have "index_ok ?one" "index_lookup ?one sid lsn = Some loc \<Longrightarrow> index_lookup idx sid lsn = Some loc"
    using Cons.prems by (auto simp: index_ok_truncate split: if_splits)
  with Cons.IH [of ?one] show ?case by (auto simp: gc_truncate_def)
qed (simp add: gc_truncate_def)

definition drop_segment :: "u64 \<Rightarrow> segment list \<Rightarrow> segment list" where
  "drop_segment g segs = filter (\<lambda>s. sg_id s \<noteq> g) segs"

lemma sg_ids_drop [simp]: "sg_id ` set (drop_segment g segs) = sg_id ` set segs - {g}"
  by (auto simp: drop_segment_def)

lemma set_drop: "s \<in> set (drop_segment g segs) \<longleftrightarrow> s \<in> set segs \<and> sg_id s \<noteq> g"
  by (auto simp: drop_segment_def)

lemma stores_remove:
  assumes st: "stores crc shard segs d"
    and d': "dk_files d' = hm_remove (segment_filename shard g) (dk_files d)" "dk_exists d' = dk_exists d"
  shows "stores crc shard (drop_segment g segs) d'"
proof -
  have ok: "hm_ok (dk_files d)" and "dk_exists d'"
    using st by (auto simp: stores_def d' disk_ok_def)
  moreover have "disk_file d' name = (if name = segment_filename shard g then None else disk_file d name)" for name
    using ok by (simp add: d' disk_file_def)
  moreover have "sorted_wrt (<) (map sg_id (drop_segment g segs))"
    using st by (simp add: stores_def drop_segment_def sorted_wrt_map sorted_wrt_filter)
  ultimately show ?thesis
    using st by (auto simp: stores_def set_drop disk_ok_def d')
qed

lemma last_drop_segment:
  "segs \<noteq> [] \<Longrightarrow> sg_id (last segs) \<noteq> g \<Longrightarrow>
   drop_segment g segs \<noteq> [] \<and> last (drop_segment g segs) = last segs"
  by (cases segs rule: rev_cases) (auto simp: drop_segment_def)

lemma wal_log_drop: "wal_log (drop_segment g segs) = filter (\<lambda>x. loc_segment_id (fst x) \<noteq> g) (wal_log segs)"
proof -
  have "filter (\<lambda>x. loc_segment_id (fst x) \<noteq> g) (segment_log s) = (if sg_id s = g then [] else segment_log s)" for s
    by (fastforce simp: segment_log_def filter_empty_conv intro: filter_True dest: in_locate)
  then show ?thesis
    by (induction segs) (auto simp: wal_log_def drop_segment_def)
qed

lemma log_map_filter: "log_map l k = Some x \<Longrightarrow> P x \<Longrightarrow> log_map (filter P l) k = Some x"
proof (induction l rule: rev_induct)
  case (snoc y l)
  then show ?case by (auto simp: log_map_snoc split: if_splits)
qed (simp add: log_map_def)

text \<open>Removing one segment that is neither current nor referenced.\<close>

lemma remove_segment_ok:
  assumes ok: "engine_ok crc A segs e" and cur: "g \<noteq> ww_current_segment_id (eg_writer e)"
    and dead: "g \<notin> live_segment_ids (eg_index e)"
    and rm: "io_remove_file (segment_filename (eg_shard_id e) g) (eg_disk e) = (Inr u, d)"
  shows "engine_ok crc A (drop_segment g segs)
    (e\<lparr>eg_reader := evict_segment g (eg_reader e), eg_disk := d\<rparr>)"
proof -
  have idx: "index_ok (eg_index e)" using ok by (simp add: engine_ok_def)
  from stores_remove [OF _ conjunct1 conjunct2, OF _ io_remove_file_Inr io_remove_file_Inr, OF _ rm rm, of crc segs] have
    "stores crc (eg_shard_id e) (drop_segment g segs) d"
    using ok by (auto simp: engine_ok_def writer_at_def)
  moreover have "drop_segment g segs \<noteq> []" "last (drop_segment g segs) = last segs"
    using last_drop_segment [of segs g] ok cur by (auto simp: engine_ok_def writer_at_def stands_at_def)
  moreover have "loc_segment_id loc \<noteq> g" if "index_lookup (eg_index e) sid lsn = Some loc" for sid lsn loc
    using dead live_segment_ids_iff [OF idx] that by blast
  then have "index_applied A (wal_log (drop_segment g segs)) (eg_index e)"
    using engine_okD(6) [OF ok] log_map_filter [of "wal_log segs" _ _ "\<lambda>x. loc_segment_id (fst x) \<noteq> g"]
    unfolding index_applied_def wal_log_drop by fastforce
  moreover have "reader_ok (evict_segment g (eg_reader e))"
    using ok by (simp add: engine_ok_def reader_ok_evict)
  moreover have "wrd_shard_id (evict_segment g (eg_reader e)) = wrd_shard_id (eg_reader e)"
    by (simp add: evict_segment_def)
  ultimately show ?thesis
    using ok by (auto simp: engine_ok_def writer_at_def sizes_ok_def set_drop)
qed

lemma gc_segments_ok:
  assumes "engine_ok crc A segs e" and "current = ww_current_segment_id (eg_writer e)"
    and "live = live_segment_ids (eg_index e)"
    and "\<forall>s \<in> set ss. snd s = segment_filename (eg_shard_id e) (fst s)"
    and "gc_segments live current ss e = (Inr (), e')"
  shows "\<exists>segs'. engine_ok crc A segs' e' \<and> eg_index e' = eg_index e \<and> eg_streams e' = eg_streams e \<and>
    eg_writer e' = eg_writer e"
  using assms
proof (induction ss arbitrary: segs e)
  case (Cons s ss)
  show ?case
  proof (cases "fst s = current \<or> fst s \<in> live")
    case True
    then show ?thesis using Cons.IH [OF Cons.prems(1-3)] Cons.prems(4,5) by (auto split: if_splits)
  next
    case False
    with Cons.prems(5) obtain d where rm: "io_remove_file (snd s) (eg_disk e) = (Inr (), d)" and
      rest: "gc_segments live current ss
        (e\<lparr>eg_reader := evict_segment (fst s) (eg_reader e), eg_disk := d\<rparr>) = (Inr (), e')"
      by (auto simp: Let_def split: prod.splits sum.splits)
    have "engine_ok crc A (drop_segment (fst s) segs)
        (e\<lparr>eg_reader := evict_segment (fst s) (eg_reader e), eg_disk := d\<rparr>)"
      using False Cons.prems(2-4) rm by (intro remove_segment_ok [OF Cons.prems(1)]) auto
    from Cons.IH [OF this _ _ _ rest] Cons.prems(2-4) show ?thesis by simp
  qed
qed auto

lemma run_gc_ok:
  assumes ok: "engine_ok crc A segs e" and run: "run_gc e = (Inr (), e')"
  shows "\<exists>segs'. engine_ok crc A segs' e' \<and> eg_streams e' = eg_streams e \<and> eg_writer e' = eg_writer e \<and>
    eg_index e' = gc_truncate (all_statuses (eg_streams e)) (eg_index e)"
proof -
  define e1 where "e1 = e\<lparr>eg_index := gc_truncate (all_statuses (eg_streams e)) (eg_index e)\<rparr>"
  have idx: "index_ok (eg_index e)" using ok by (simp add: engine_ok_def)
  have ok1: "engine_ok crc A segs e1"
    using ok gc_truncate_lookup [OF idx, of "all_statuses (eg_streams e)"]
    by (fastforce simp: engine_ok_def e1_def index_applied_def)
  from run obtain l d where l: "list_segments (eg_shard_id e) (eg_disk e) = (Inr l, d)" and
    gc: "gc_segments (live_segment_ids (eg_index e1)) (ww_current_segment_id (eg_writer e)) l
      (e1\<lparr>eg_disk := d\<rparr>) = (Inr (), e')"
    by (auto simp: run_gc_def Let_def e1_def split: prod.splits sum.splits)
  have "stores crc (eg_shard_id e) segs (eg_disk e)"
    using ok by (auto simp: engine_ok_def writer_at_def)
  from list_segments_stores(1) [OF this l] have names: "l = seg_names (eg_shard_id e) segs"
    and same: "same_files (eg_disk e) d" by auto
  have "engine_ok crc A segs (e1\<lparr>eg_disk := d\<rparr>)"
    using engine_ok_disk [OF ok1, of d "eg_reader e1"] same engine_okD(2) [OF ok1] by (simp add: e1_def)
  from gc_segments_ok [OF this _ _ _ gc] show ?thesis
    by (auto simp: names seg_names_def e1_def)
qed


subsection \<open>Rounds\<close>

text \<open>What the engine relies on of the committed entries that raft hands out: they are below
  the size a record can hold, and at most \<open>n\<close> come at once.\<close>

definition api_bounded :: "('r, 'm, 'c) raft_api \<Rightarrow> nat \<Rightarrow> bool" where
  "api_bounded api n =
     (\<forall>st r. entries_fit (rdy_committed (fst (ra_ready api st r))) \<and>
        length (rdy_committed (fst (ra_ready api st r))) \<le> n)"

text \<open>The commands in committed entries that raft hands out.\<close>

definition handed_out :: "('r, 'm, 'c) raft_api \<Rightarrow> append_command \<Rightarrow> bool" where
  "handed_out api cmd =
     (\<exists>st r. cmd \<in> set (entries_cmds (rdy_committed (fst (ra_ready api st r)))))"

lemma wake_keeps_writer:
  "eg_writer (snd (send_response conn st ep off pl e)) = eg_writer e"
  "eg_writer (snd (raft_call f e)) = eg_writer e"
  "eg_writer (snd (process_raft_messages api ms e)) = eg_writer e"
  by (rule engine_core_writer, simp)+

lemma handle_request_writer [simp]:
  "eg_writer (snd (handle_client_request crc api req e)) = eg_writer e"
  by (auto simp: handle_client_request_def handle_write_def read_stream_def send_not_leader_def
      Let_def wake_keeps_writer
      split: op_code.split prod.split option.split sum.split epoch_fence_error.split fault.split)

lemma process_requests_writer [simp]:
  "eg_writer (snd (process_client_requests crc api reqs e)) = eg_writer e"
proof (induction reqs arbitrary: e)
  case (Cons req reqs)
  show ?case
    unfolding process_client_requests.simps
    by (rule and_then_ok [where P = "\<lambda>s. eg_writer s = eg_writer e"]) (simp_all add: Cons.IH)
qed simp

lemma fail_pending_writer [simp]: "eg_writer (fail_pending leader ps e) = eg_writer e"
  by (induction ps arbitrary: e) (simp_all add: Let_def wake_keeps_writer)

lemma log_raft_state_writer [simp]: "eg_writer (log_raft_state_if_changed api e) = eg_writer e"
  by (simp add: log_raft_state_if_changed_def fail_pending_writes_not_leader_def Let_def)

text \<open>The parts of a round that succeeds; what lies between the wake-up and the ready loop (the
  clock, the tick, the campaign) leaves the core alone.\<close>

lemma run_round_Inr:
  fixes e :: "('r, 'm, 'c) engine"
  assumes run: "run_round crc p api inp e = (Inr (), e')"
  shows "\<exists>e0 e1 e2 e3. engine_core e0 = engine_core e \<and>
    e1 = (case li_wake inp of
        WakeRequests reqs \<Rightarrow> snd (process_client_requests crc api reqs e0)
      | WakeRaft ms \<Rightarrow> snd (process_raft_messages api ms e0)
      | WakeTimer \<Rightarrow> e0) \<and>
    engine_core e2 = engine_core e1 \<and> drive_ready crc p api e2 = (Inr (), e3) \<and>
    (if li_gc_due inp then run_gc (log_raft_state_if_changed api e3)
     else (Inr (), log_raft_state_if_changed api e3)) = (Inr (), e')"
proof -
  define e0 where "e0 = e\<lparr>eg_now := li_now inp\<rparr>"
  define ticked where
    "ticked s = (if li_tick_due inp then s\<lparr>eg_raft := ra_tick api (eg_store s) (eg_raft s)\<rparr> else s)"
    for s :: "('r, 'm, 'c) engine"
  from run obtain u1 e1 u2 e2 e3 where
    wake: "(case li_wake inp of
        WakeRequests reqs \<Rightarrow> process_client_requests crc api reqs e0
      | WakeRaft ms \<Rightarrow> process_raft_messages api ms e0
      | WakeTimer \<Rightarrow> (Inr (), e0)) = (Inr u1, e1)" and
    camp: "(if \<not> eg_bootstrapped (ticked e1) \<and> eg_node_id (ticked e1) = 1 \<and> li_campaign_due inp
         then and_then (raft_call (ra_campaign api (eg_store (ticked e1))) (ticked e1))
                (\<lambda>_ e. (Inr (), e\<lparr>eg_bootstrapped := True\<rparr>))
         else (Inr (), ticked e1)) = (Inr u2, e2)" and
    drive: "drive_ready crc p api e2 = (Inr (), e3)" and
    gc: "(if li_gc_due inp then run_gc (log_raft_state_if_changed api e3)
      else (Inr (), log_raft_state_if_changed api e3)) = (Inr (), e')"
    unfolding run_round_def Let_def and_then_Inr e0_def [symmetric] ticked_def [symmetric] by auto
  have "engine_core (ticked e1) = engine_core e1" by (simp add: ticked_def)
  then have "engine_core e2 = engine_core e1"
    using camp by (auto simp: and_then_Inr engine_core_boot dest: call_cores(3) split: if_splits)
  moreover have "engine_core e0 = engine_core e" by (simp add: e0_def engine_core_def)
  moreover have "e1 = (case li_wake inp of
        WakeRequests reqs \<Rightarrow> snd (process_client_requests crc api reqs e0)
      | WakeRaft ms \<Rightarrow> snd (process_raft_messages api ms e0) | WakeTimer \<Rightarrow> e0)"
    using wake by (auto split: wake_up.splits)
  ultimately show ?thesis using drive gc by blast
qed

lemma run_round_ok:
  assumes ok: "engine_ok crc A segs e" and api: "api_bounded api n"
    and seg: "ww_next_segment_id (eg_writer e) \<noteq> 0"
    and room: "unat (ww_next_segment_id (eg_writer e)) + n < 2 ^ 64"
    and run: "run_round crc p api inp e = (Inr (), e')"
  shows "\<exists>B segs'. engine_ok crc (A @ B) segs' e' \<and> (\<forall>cmd \<in> set B. handed_out api cmd) \<and>
    ww_next_segment_id (eg_writer e') \<noteq> 0 \<and>
    unat (ww_next_segment_id (eg_writer e')) \<le> unat (ww_next_segment_id (eg_writer e)) + n"
proof -
  from run_round_Inr [OF run] obtain e0 e1 e2 e3 where
    c0: "engine_core e0 = engine_core e" and
    e1: "e1 = (case li_wake inp of
        WakeRequests reqs \<Rightarrow> snd (process_client_requests crc api reqs e0)
      | WakeRaft ms \<Rightarrow> snd (process_raft_messages api ms e0) | WakeTimer \<Rightarrow> e0)" and
    c2: "engine_core e2 = engine_core e1" and drive: "drive_ready crc p api e2 = (Inr (), e3)" and
    gc: "(if li_gc_due inp then run_gc (log_raft_state_if_changed api e3)
      else (Inr (), log_raft_state_if_changed api e3)) = (Inr (), e')" by blast
  have e0: "engine_ok crc A segs e0" "eg_writer e0 = eg_writer e"
    using ok engine_ok_core [OF c0] engine_core_writer [OF c0] by simp_all
  then have "engine_ok crc A segs e1 \<and> eg_writer e1 = eg_writer e"
    unfolding e1 by (auto simp: wake_keeps_writer engine_ok_core [OF process_raft_messages_core]
        process_client_requests_ok split: wake_up.split)
  then have e2: "engine_ok crc A segs e2" "eg_writer e2 = eg_writer e"
    using engine_ok_core [OF c2] engine_core_writer [OF c2] by auto
  have "ready_cmds api e2 = [] \<or> (\<exists>st r. ready_cmds api e2 = rdy_committed (fst (ra_ready api st r)))"
    by (auto simp: ready_cmds_def)
  then have fits: "entries_fit (ready_cmds api e2)" and len: "length (ready_cmds api e2) \<le> n"
    and handed: "\<forall>cmd \<in> set (entries_cmds (ready_cmds api e2)). handed_out api cmd"
    using api by (auto simp: api_bounded_def handed_out_def entries_fit_def) metis+
  from drive_ready_ok [OF e2(1) fits _ _ drive] e2(2) seg room len obtain segs3 where
    e3: "engine_ok crc (A @ entries_cmds (ready_cmds api e2)) segs3 e3"
      "ww_next_segment_id (eg_writer e3) \<noteq> 0"
      "unat (ww_next_segment_id (eg_writer e3)) \<le> unat (ww_next_segment_id (eg_writer e)) + n"
    by fastforce
  note e4 = log_raft_state_ok [OF e3(1), of api]
  have "\<exists>segs'. engine_ok crc (A @ entries_cmds (ready_cmds api e2)) segs' e' \<and> eg_writer e' = eg_writer e3"
    using gc e4 run_gc_ok [OF e4] by (auto split: if_splits)
  with e3 handed show ?thesis by metis
qed

text \<open>Any number of rounds, with whatever the environment puts into each.\<close>

inductive engine_reaches ::
  "(bytes \<Rightarrow> u32) \<Rightarrow> 'c proto \<Rightarrow> ('r, 'm, 'c) raft_api \<Rightarrow> ('r, 'm, 'c) engine \<Rightarrow> nat \<Rightarrow>
   ('r, 'm, 'c) engine \<Rightarrow> bool" for crc p api e where
  reach_start: "engine_reaches crc p api e 0 e"
| reach_round: "engine_reaches crc p api e k e1 \<Longrightarrow> run_round crc p api inp e1 = (Inr (), e2) \<Longrightarrow>
    engine_reaches crc p api e (Suc k) e2"

inductive_simps engine_reaches_0 [simp]: "engine_reaches crc p api e 0 e'"
inductive_cases engine_reaches_SucE: "engine_reaches crc p api e (Suc k) e'"

lemma engine_reaches_ok:
  assumes "engine_reaches crc p api e k e'" and ok: "engine_ok crc A segs e"
    and api: "api_bounded api n" and "ww_next_segment_id (eg_writer e) \<noteq> 0"
    and "unat (ww_next_segment_id (eg_writer e)) + k * n < 2 ^ 64"
  shows "\<exists>B segs'. engine_ok crc (A @ B) segs' e' \<and> (\<forall>cmd \<in> set B. handed_out api cmd) \<and>
    ww_next_segment_id (eg_writer e') \<noteq> 0 \<and>
    unat (ww_next_segment_id (eg_writer e')) \<le> unat (ww_next_segment_id (eg_writer e)) + k * n"
  using assms(1,5)
proof (induction rule: engine_reaches.induct)
  case reach_start
  then show ?case using ok assms(4) by (intro exI [of _ "[]"] exI [of _ segs]) auto
next
  case (reach_round k e1 inp e2)
  then obtain B segs1 where ok1: "engine_ok crc (A @ B) segs1 e1" "\<forall>cmd \<in> set B. handed_out api cmd"
    "ww_next_segment_id (eg_writer e1) \<noteq> 0"
    "unat (ww_next_segment_id (eg_writer e1)) \<le> unat (ww_next_segment_id (eg_writer e)) + k * n"
    by (auto simp: algebra_simps)
  with reach_round.prems have "unat (ww_next_segment_id (eg_writer e1)) + n < 2 ^ 64" by simp
  from run_round_ok [OF ok1(1) api ok1(3) this reach_round.hyps(2)] obtain C segs2 where
    "engine_ok crc ((A @ B) @ C) segs2 e2" "\<forall>cmd \<in> set C. handed_out api cmd"
    "ww_next_segment_id (eg_writer e2) \<noteq> 0"
    "unat (ww_next_segment_id (eg_writer e2)) \<le> unat (ww_next_segment_id (eg_writer e1)) + n" by blast
  with ok1 show ?case by (intro exI [of _ "B @ C"] exI [of _ segs2]) auto
qed

end
