(* ===== verification/EngineProgress.thy ===== *)
theory EngineProgress
  imports EngineInv
begin

text \<open>
  Progress of the engine: on disks that answer every call, appending, applying a committed
  entry and applying all that raft hands out do return, and every client whose command is
  among them is answered, whether or not a snapshot of the raft state is due on the way.
\<close>

abbreviation answer :: "u64 \<Rightarrow> status \<Rightarrow> u64 \<Rightarrow> u64 \<Rightarrow> bytes \<Rightarrow> shard_response" where
  "answer conn st ep off pl \<equiv> \<lparr>srsp_connection_id = conn, srsp_response =
     \<lparr>resp_status = st, resp_epoch = ep, resp_offset = off, resp_payload = pl\<rparr>\<rparr>"

subsection \<open>The writer on a disk without faults\<close>

lemma write_file_at_faults [simp]: "dk_faults (write_file_at name off src d) = dk_faults d"
  by (simp add: write_file_at_def put_file_def split: option.split)

lemma create_segment_calm:
  assumes "dk_faults d = []" and "disk_file d (segment_filename shard g) = None"
  shows "\<exists>d'. create_segment now shard g d = (Inr (segment_filename shard g), d') \<and> dk_faults d' = []"
  using assms by (simp add: create_segment_def io_create_new_def io_write_all_at_def put_file_def
      disk_file_def)

lemma next_segment_absent:
  assumes at: "writer_at crc segs (w, d)" and "ww_next_segment_id w \<noteq> 0"
  shows "disk_file d (segment_filename (ww_shard_id w) (ww_next_segment_id w)) = None"
    and "segment_filename (ww_shard_id w) (ww_next_segment_id w) \<noteq> ww_current_file w"
proof -
  let ?g = "ww_next_segment_id w"
  have st: "stores crc (ww_shard_id w) segs d" and last: "segs \<noteq> []" "?g = sg_id (last segs) + 1"
    and cur: "ww_current_file w = segment_filename (ww_shard_id w) (sg_id (last segs))"
    using at by (auto simp: writer_at_def stands_at_def)
  then have less: "sg_id (last segs) < ?g"
    using assms(2) unatSuc [of "sg_id (last segs)"] by (simp add: word_less_nat_alt add.commute)
  have "sg_id s \<le> sg_id (last segs)" if "s \<in> set segs" for s
    using st last(1) that by (cases segs rule: rev_cases)
      (auto simp: stores_def sorted_wrt_append intro: less_imp_le)
  with less have "?g \<notin> sg_id ` set segs" by force
  then show "disk_file d (segment_filename (ww_shard_id w) ?g) = None"
    using st unfolding stores_def by (metis parse_segment_filename_roundtrip)
  show "segment_filename (ww_shard_id w) ?g \<noteq> ww_current_file w"
    unfolding cur using less by (metis less_irrefl option.inject parse_segment_filename_roundtrip prod.inject)
qed

lemma rotate_calm:
  assumes "dk_faults d = []" and "disk_file d (segment_filename (ww_shard_id w) (ww_next_segment_id w)) = None"
  shows "\<exists>w' d'. rotate_segment now (w, d) = (Inr (), w', d') \<and> dk_faults d' = []"
proof -
  from writer_sync_calm [OF assms(1)] obtain d1 where
    sync: "writer_sync w d = (Inr (), d1)" "same_files d d1" "dk_faults d1 = []" by blast
  from create_segment_calm [OF this(3)] assms(2) obtain d' where
    "create_segment now (ww_shard_id w) (ww_next_segment_id w) d1 =
      (Inr (segment_filename (ww_shard_id w) (ww_next_segment_id w)), d')" "dk_faults d' = []"
    by (metis same_files_facts(2) sync(2))
  with sync(1) show ?thesis by (simp add: rotate_segment_def Let_def)
qed

lemma append_write_calm:
  assumes at: "writer_at crc segs (w, d)" and seg: "ww_next_segment_id w \<noteq> 0" and calm: "dk_faults d = []"
  shows "\<exists>w' d'. append_write crc x (w, d) = (Inr (lw_entry_id x, located x w), w', d') \<and>
    dk_faults d' = []"
proof -
  define d1 where "d1 = write_file_at (ww_current_file w) (unat (ww_current_offset w))
    (record_layout crc (lw_record x)) d"
  have wr: "io_write_all_at (ww_current_file w) (record_layout crc (lw_record x))
      (unat (ww_current_offset w)) d = (Inr (), d1)"
    using calm by (simp add: io_write_all_at_def d1_def)
  have "disk_ok d" using at by (simp add: writer_at_def stores_def)
  then have "disk_file d1 (segment_filename (ww_shard_id w) (ww_next_segment_id w)) = None"
    using next_segment_absent [OF at seg] by (simp add: d1_def)
  moreover have "dk_faults d1 = []" using calm by (simp add: d1_def)
  ultimately obtain w2 d2 where "rotate_segment (lw_seg_now x) (advanced x w, d1) = (Inr (), w2, d2)"
    "dk_faults d2 = []"
    using rotate_calm [of d1 "advanced x w" "lw_seg_now x"] by (auto simp: advanced_def)
  with wr \<open>dk_faults d1 = []\<close> show ?thesis
    by (cases "ww_max_segment_bytes w \<le> ww_current_offset (advanced x w)")
      (auto simp: append_write_Inr)
qed

subsection \<open>Applying\<close>

text \<open>The answers to the clients whose commands are applied, in the order of the commands.\<close>

definition ack :: "pending_client_write \<Rightarrow> shard_response" where
  "ack q = answer (pcw_connection_id q) Ok (pcw_epoch q) (pcw_stream_lsn q) []"

primrec acks ::
  "(u64, pending_client_write) hash_map \<Rightarrow> append_command list \<Rightarrow> shard_response list" where
  "acks ps [] = []"
| "acks ps (cmd # cmds) =
     (case hm_get ps (cmd_request_id cmd) of Some q \<Rightarrow> [ack q] | None \<Rightarrow> []) @
     acks (hm_remove (cmd_request_id cmd) ps) cmds"

text \<open>The answers that a bounded channel takes, when the sends to come have the outcomes \<open>ss\<close>.\<close>

fun accepted :: "send_result list \<Rightarrow> shard_response list \<Rightarrow> shard_response list" where
  "accepted [] rs = rs"
| "accepted (s # ss) [] = []"
| "accepted (s # ss) (r # rs) = (if s = SendOk then r # accepted ss rs else accepted ss rs)"

lemma accepted_Nil [simp]: "accepted ss [] = []"
  by (cases ss) simp_all

lemma accepted_append: "accepted ss (rs @ rs') = accepted ss rs @ accepted (drop (length rs) ss) rs'"
  by (induction ss rs rule: accepted.induct) simp_all

lemma accepted_all: "set ss \<subseteq> {SendOk} \<Longrightarrow> accepted ss rs = rs"
  by (induction ss rs rule: accepted.induct) simp_all

lemma send_response_accepted:
  "eg_delivered (snd (send_response conn st ep off pl e)) =
     eg_delivered e @ accepted (eg_response_sends e) [answer conn st ep off pl]"
  "eg_response_sends (snd (send_response conn st ep off pl e)) = drop 1 (eg_response_sends e)"
  by (auto simp: send_response_def Let_def split: list.split send_result.split)

definition between_snapshots :: "('r, 'm, 'c) raft_api \<Rightarrow> ('r, 'm, 'c) engine \<Rightarrow> bool" where
  "between_snapshots api e =
     (ra_applied api (eg_raft e) < snap_index (eg_store e) + SNAPSHOT_INTERVAL)"

text \<open>The storage can take a snapshot when one is due: a log without gap that holds the applied
  index, messages that can be written, and a disk that answers.\<close>

definition snapshot_possible :: "'c proto \<Rightarrow> ('r, 'm, 'c) raft_api \<Rightarrow> ('r, 'm, 'c) engine \<Rightarrow> bool" where
  "snapshot_possible p api e =
     (let st = eg_store e; applied = ra_applied api (eg_raft e) in
      log_ok st \<and> snap_index st \<le> applied \<and> applied \<le> last_index st \<and> unat applied + 64 < 2 ^ 64 \<and>
      state_writable p st \<and> (\<forall>s. write_snapshot p s \<noteq> None) \<and> dk_faults (eg_raft_disk e) = [])"

definition can_snapshot :: "'c proto \<Rightarrow> ('r, 'm, 'c) raft_api \<Rightarrow> ('r, 'm, 'c) engine \<Rightarrow> bool" where
  "can_snapshot p api e = (between_snapshots api e \<or> snapshot_possible p api e)"

lemma can_snapshotI: "between_snapshots api e \<Longrightarrow> can_snapshot p api e"
  by (simp add: can_snapshot_def)

lemma can_snapshot_cong:
  "eg_raft e = eg_raft e' \<Longrightarrow> eg_store e = eg_store e' \<Longrightarrow> eg_raft_disk e = eg_raft_disk e' \<Longrightarrow>
   can_snapshot p api e = can_snapshot p api e'"
  by (simp add: can_snapshot_def between_snapshots_def snapshot_possible_def)

definition progressed ::
  "('r, 'm, 'c) engine \<Rightarrow> append_command list \<Rightarrow> ('r, 'm, 'c) engine \<Rightarrow> bool" where
  "progressed e cmds e' =
     (dk_faults (eg_disk e') = [] \<and> eg_raft e' = eg_raft e \<and>
      eg_outbound_sends e' = eg_outbound_sends e \<and> eg_pending e' = fold hm_remove (map cmd_request_id cmds) (eg_pending e) \<and>
      eg_offered e' = eg_offered e @ acks (eg_pending e) cmds \<and>
      eg_delivered e' = eg_delivered e @ accepted (eg_response_sends e) (acks (eg_pending e) cmds) \<and>
      eg_response_sends e' = drop (length (acks (eg_pending e) cmds)) (eg_response_sends e))"

lemma hm_remove_absent: "hm_get m k = None \<Longrightarrow> hm_remove k m = m"
  by (induction m) (auto simp: hm_get_def hm_remove_def split: if_splits)

lemma send_response_disk [simp]:
  "eg_disk (snd (send_response conn st ep off pl e)) = eg_disk e"
  "eg_outbound_sends (snd (send_response conn st ep off pl e)) = eg_outbound_sends e"
  by (auto simp: send_response_def Let_def split: list.split send_result.split)

lemma and_then_send [simp]:
  "and_then (send_response conn st ep off pl e) f = f () (snd (send_response conn st ep off pl e))"
  by (subst send_response_eq) simp

text \<open>The snapshot step: the storage gets a snapshot at the applied index and loses the entries up
  to it, so that no second one is due.\<close>

definition snapshot_state :: "u64 \<Rightarrow> bytes \<Rightarrow> u64 \<Rightarrow> 'c persistent_state \<Rightarrow> 'c persistent_state" where
  "snapshot_state a bs t st =
     st\<lparr>ps_snapshot := \<lparr>sn_data = bs, sn_metadata =
          \<lparr>sm_conf_state = ps_conf_state st, sm_index = a, sm_term = t\<rparr>\<rparr>,
        ps_entries := drop (unat (a + 1 - first_index st)) (ps_entries st)\<rparr>"

lemma snapshot_taken:
  assumes due: "\<not> between_snapshots api e" and poss: "snapshot_possible p api e"
    and a: "a = ra_applied api (eg_raft e)"
  shows "\<exists>t st d. maybe_snapshot_raft_state p api e = (Inr (), e\<lparr>eg_store := st, eg_raft_disk := d\<rparr>) \<and>
    raft_term (eg_store e) a = Inr t \<and> st = snapshot_state a (encode_snapshot (eg_streams e)) t (eg_store e) \<and>
    dk_faults d = [] \<and> log_ok st \<and> snap_index st = a \<and> last_index st = last_index (eg_store e) \<and>
    state_writable p st"
proof -
  let ?st = "eg_store e"
  from poss have ok: "log_ok ?st" and i: "snap_index ?st \<le> a" "a \<le> last_index ?st"
    and room: "unat a + 64 < 2 ^ 64" and w: "state_writable p ?st" "\<And>s. write_snapshot p s \<noteq> None"
    and calm: "dk_faults (eg_raft_disk e) = []"
    by (auto simp: snapshot_possible_def Let_def a)
  have late: "snap_index ?st + SNAPSHOT_INTERVAL \<le> a"
    using due by (simp add: between_snapshots_def not_less a)
  have "unat (snap_index ?st + 64) = unat (snap_index ?st) + 64"
    using i(1) room by (simp add: unat_word_ariths word_le_nat_alt)
  then have first: "first_index ?st \<le> a"
    using late ok by (simp add: log_ok_def SNAPSHOT_INTERVAL_def word_le_nat_alt)
  from create_snapshot_calm [OF ok i w(1) w(2) calm] obtain st1 d1 where
    c: "create_snapshot p a (encode_snapshot (eg_streams e)) (?st, eg_raft_disk e) = (Inr (), st1, d1)"
      "dk_faults d1 = []" "state_writable p st1" by blast
  from create_snapshot_state [OF c(1)] obtain t where t: "raft_term ?st a = Inr t" and
    st1: "st1 = ?st\<lparr>ps_snapshot := \<lparr>sn_data = encode_snapshot (eg_streams e), sn_metadata =
      \<lparr>sm_conf_state = ps_conf_state ?st, sm_index = a, sm_term = t\<rparr>\<rparr>\<rparr>" by blast
  have a1: "unat (a + 1) = unat a + 1" using room by (intro unat_add_1) simp
  have ne: "ps_entries ?st \<noteq> []"
    using first i(2) last_index_next [OF ok] by (auto simp: word_le_nat_alt)
  then have same: "first_index st1 = first_index ?st" "last_index st1 = last_index ?st"
    by (cases "ps_entries ?st"; simp add: st1 first_index_def last_index_def)+
  have ok1: "log_ok st1" using ok first room same
    by (simp add: log_ok_def same) (simp add: st1 snap_index_def word_le_nat_alt)
  from compact_calm [OF ok1 _ c(3,2), of "a + 1"] i(2) obtain st2 d2 where
    k: "compact p (a + 1) (st1, d1) = (Inr (), st2, d2)" "dk_faults d2 = []" "state_writable p st2"
    by (auto simp: same a1 word_le_nat_alt)
  have "\<not> a + 1 \<le> first_index ?st" using first a1 by (simp add: word_le_nat_alt)
  with compact_state [OF k(1)] have "st2 = snapshot_state a (encode_snapshot (eg_streams e)) t ?st"
    by (simp add: snapshot_state_def same) (simp add: st1)
  moreover have "maybe_snapshot_raft_state p api e = (Inr (), e\<lparr>eg_store := st2, eg_raft_disk := d2\<rparr>)"
    using late by (simp add: maybe_snapshot_raft_state_def Let_def store_call_def c(1) k(1) map_err_def flip: a)
  moreover note snapshot_compact_log [OF ok first i(2,1) c(1) k(1)]
  ultimately show ?thesis using k(2,3) t by blast
qed

lemma no_snapshot_due: "between_snapshots api e \<Longrightarrow> maybe_snapshot_raft_state p api e = (Inr (), e)"
  by (auto simp: maybe_snapshot_raft_state_def between_snapshots_def Let_def not_less [symmetric])

lemma maybe_snapshot_calm:
  assumes snap: "can_snapshot p api e"
  shows "\<exists>st d. maybe_snapshot_raft_state p api e = (Inr (), e\<lparr>eg_store := st, eg_raft_disk := d\<rparr>) \<and>
    can_snapshot p api (e\<lparr>eg_store := st, eg_raft_disk := d\<rparr>)"
proof (cases "between_snapshots api e")
  case True
  with snap show ?thesis
    by (intro exI [of _ "eg_store e"] exI [of _ "eg_raft_disk e"]) (simp add: no_snapshot_due)
next
  case False
  let ?a = "ra_applied api (eg_raft e)"
  from False snap have poss: "snapshot_possible p api e" by (simp add: can_snapshot_def)
  from snapshot_taken [OF False poss refl] obtain st d where
    run: "maybe_snapshot_raft_state p api e = (Inr (), e\<lparr>eg_store := st, eg_raft_disk := d\<rparr>)" "snap_index st = ?a"
    by blast
  have "unat (?a + 64) = unat ?a + 64"
    using poss by (simp add: snapshot_possible_def Let_def unat_word_ariths)
  with run(2) have "between_snapshots api (e\<lparr>eg_store := st, eg_raft_disk := d\<rparr>)"
    by (simp add: between_snapshots_def SNAPSHOT_INTERVAL_def word_less_nat_alt)
  with run(1) show ?thesis by (auto simp: can_snapshot_def)
qed

text \<open>Entries that raft can have got from the engine: empty ones, configuration changes, or the
  encoding of a command.\<close>

definition entries_decode :: "raft_entry list \<Rightarrow> bool" where
  "entries_decode es = list_all (\<lambda>en. en_data en = [] \<or> en_type en \<noteq> EntryNormal \<or>
     (\<exists>cmd. decode_append_command (en_data en) = Inr cmd)) es"

lemma progressed_step:
  assumes "progressed e [cmd] e1" and "progressed e1 cmds e'"
  shows "progressed e (cmd # cmds) e'"
  using assms by (auto simp: progressed_def accepted_append add.commute split: option.splits)

subsection \<open>Applying, whatever the storage does at a snapshot\<close>

text \<open>What applying needs of the raft storage: a condition \<open>S\<close> on it under which the snapshot step
  succeeds, and which it keeps.\<close>

locale snapshot_taker =
  fixes p :: "'c proto" and api :: "('r, 'm, 'c) raft_api" and S :: "('r, 'm, 'c) engine \<Rightarrow> bool"
  assumes same: "eg_raft e = eg_raft e' \<Longrightarrow> eg_store e = eg_store e' \<Longrightarrow> eg_raft_disk e = eg_raft_disk e' \<Longrightarrow>
      S e = S e'"
    and takes: "S e \<Longrightarrow> \<exists>st d. maybe_snapshot_raft_state p api e =
        (Inr (), e\<lparr>eg_store := st, eg_raft_disk := d\<rparr>) \<and> S (e\<lparr>eg_store := st, eg_raft_disk := d\<rparr>)"
begin

lemma append_entry:
  assumes ok: "engine_ok crc A segs e" and seg: "ww_next_segment_id (eg_writer e) \<noteq> 0"
    and calm: "dk_faults (eg_disk e) = []" and snap: "S e"
  shows "\<exists>e'. apply_append_entry crc p api i tm cmd e = (Inr (), e') \<and> progressed e [cmd] e' \<and>
    S e'"
proof -
  have "writer_at crc segs (eg_writer e, eg_disk e)" using ok by (simp add: engine_ok_def)
  from append_write_calm [OF this seg calm, of "cmd_write (eg_now e) i cmd"] obtain el w d0 where
    wr: "append_write crc (cmd_write (eg_now e) i cmd) (eg_writer e, eg_disk e) = (Inr el, w, d0)"
    and "dk_faults d0 = []" by blast
  from writer_sync_calm [OF this(2)] obtain d where
    sync: "writer_sync w d0 = (Inr (), d)" and d: "dk_faults d = []" by blast
  define e2 where "e2 = e\<lparr>eg_writer := w, eg_disk := d,
    eg_index := index_insert (cmd_stream_id cmd) (cmd_stream_lsn cmd) (snd el) (eg_index e),
    eg_streams := mark_committed (cmd_stream_id cmd) i (cmd_stream_lsn cmd)
      (mark_appended (cmd_stream_id cmd) (cmd_epoch cmd) i (cmd_stream_lsn cmd) (cmd_payload cmd)
        (eg_streams e))\<rparr>"
  define e3 where "e3 = (case hm_get (eg_pending e) (cmd_request_id cmd) of
      Some q \<Rightarrow> snd (send_response (pcw_connection_id q) Ok (pcw_epoch q) (pcw_stream_lsn q) []
        (e2\<lparr>eg_pending := hm_remove (cmd_request_id cmd) (eg_pending e)\<rparr>))
    | None \<Rightarrow> e2)"
  have pr: "progressed e [cmd] e3"
    using d by (auto simp: e3_def e2_def progressed_def ack_def hm_remove_absent send_response_accepted
        split: option.split)
  have "S e3"
    using snap by (subst same [of _ e]) (auto simp: e3_def e2_def split: option.split)
  from takes [OF this] obtain st d' where
    sn: "maybe_snapshot_raft_state p api e3 = (Inr (), e3\<lparr>eg_store := st, eg_raft_disk := d'\<rparr>)"
      "S (e3\<lparr>eg_store := st, eg_raft_disk := d'\<rparr>)" by blast
  have eq: "apply_append_entry crc p api i tm cmd e =
      and_then (case hm_get (eg_pending e) (cmd_request_id cmd) of
           Some q \<Rightarrow> send_response (pcw_connection_id q) Ok (pcw_epoch q) (pcw_stream_lsn q) []
               (e2\<lparr>eg_pending := hm_remove (cmd_request_id cmd) (eg_pending e)\<rparr>)
         | None \<Rightarrow> (Inr (), e2))
        (\<lambda>_ e. maybe_snapshot_raft_state p api e)"
    by (simp add: apply_append_entry_def append_as_write wal_call_def wr sync Let_def e2_def
        cong: option.case_cong)
  also have "\<dots> = maybe_snapshot_raft_state p api e3"
    by (auto simp: e3_def split: option.split)
  finally have "apply_append_entry crc p api i tm cmd e = (Inr (), e3\<lparr>eg_store := st, eg_raft_disk := d'\<rparr>)"
    by (simp add: sn(1))
  moreover have "progressed e [cmd] (e3\<lparr>eg_store := st, eg_raft_disk := d'\<rparr>)"
    using pr by (simp add: progressed_def)
  ultimately show ?thesis using sn(2) by blast
qed

lemma committed:
  assumes "engine_ok crc A segs e" and "entries_fit es" and "entries_decode es"
    and "ww_next_segment_id (eg_writer e) \<noteq> 0"
    and "unat (ww_next_segment_id (eg_writer e)) + length es < 2 ^ 64"
    and "dk_faults (eg_disk e) = []" and "S e"
  shows "\<exists>e'. apply_committed crc p api es e = (Inr (), e') \<and> progressed e (entries_cmds es) e' \<and>
    S e'"
  using assms
proof (induction es arbitrary: A segs e)
  case (Cons en es)
  have rest: "entries_fit es" "entries_decode es" and len: "length (en_data en) + 48 < 2 ^ 32"
    using Cons.prems(2,3) by (simp_all add: entries_fit_def entries_decode_def)
  show ?case
  proof (cases "en_data en = [] \<or> en_type en \<noteq> EntryNormal")
    case True
    with Cons.IH [OF Cons.prems(1) rest Cons.prems(4) _ Cons.prems(6,7)] Cons.prems(5)
    show ?thesis by (auto simp: entry_cmd_def)
  next
    case False
    with Cons.prems(3) obtain cmd where cmd: "decode_append_command (en_data en) = Inr cmd"
      by (auto simp: entries_decode_def)
    then have fits: "length (cmd_payload cmd) + 48 < 2 ^ 32"
      using decoded_payload_length [OF cmd] len by simp
    from append_entry [OF Cons.prems(1,4,6,7)] obtain e1 where
      e1: "apply_append_entry crc p api (en_index en) (en_term en) cmd e = (Inr (), e1)"
      and pr: "progressed e [cmd] e1" and snap: "S e1" by blast
    from apply_append_entry_ok [OF Cons.prems(1) fits Cons.prems(4) e1] obtain segs1 where
      ok1: "engine_ok crc (A @ [cmd]) segs1 e1" and w: "ww_next_segment_id (eg_writer e1) \<in>
        {ww_next_segment_id (eg_writer e), ww_next_segment_id (eg_writer e) + 1}" by blast
    have "ww_next_segment_id (eg_writer e1) \<noteq> 0"
      "unat (ww_next_segment_id (eg_writer e1)) + length es < 2 ^ 64"
      using w unat_Suc_add [OF Cons.prems(4), of "length es"] Cons.prems(4,5) by auto
    from Cons.IH [OF ok1 rest this _ snap] pr obtain e' where
      "apply_committed crc p api es e1 = (Inr (), e')" "progressed e1 (entries_cmds es) e'"
      "S e'" by (auto simp: progressed_def)
    with e1 cmd False progressed_step [OF pr] show ?thesis by (auto simp: entry_cmd_def)
  qed
qed (simp add: progressed_def)

end

interpretation snapshots: snapshot_taker p api "can_snapshot p api" for p api
  by unfold_locales (use can_snapshot_cong maybe_snapshot_calm in auto)

lemmas apply_append_entry_calm = snapshots.append_entry
lemmas apply_committed_calm = snapshots.committed

subsection \<open>An engine for examples\<close>

text \<open>Shard 1 with one applied record (stream 7, LSN 0, epoch 3), a cache of four records, and
  a raft node that counts proposals and hands out the entries \<open>es\<close> once.\<close>

definition demo_cmd :: "u64 \<Rightarrow> append_command" where
  "demo_cmd n = \<lparr>cmd_request_id = n, cmd_stream_id = 7, cmd_epoch = 3, cmd_stream_lsn = n,
     cmd_payload = replicate 20 97\<rparr>"

definition cmd_entry :: "u64 \<Rightarrow> append_command \<Rightarrow> raft_entry" where
  "cmd_entry i cmd = \<lparr>en_type = EntryNormal, en_term = 1, en_index = i,
     en_data = encode_append_command cmd, en_context = []\<rparr>"

definition no_snapshot :: "u64 raft_snapshot" where
  "no_snapshot = \<lparr>sn_data = [], sn_metadata = \<lparr>sm_conf_state = 5, sm_index = 0, sm_term = 0\<rparr>\<rparr>"

definition demo_ready :: "raft_entry list \<Rightarrow> (nat, u64) raft_ready" where
  "demo_ready es = \<lparr>rdy_committed = es, rdy_hs = None, rdy_snapshot = no_snapshot,
     rdy_entries = [], rdy_messages = [], rdy_persisted_messages = []\<rparr>"

definition demo_api :: "state_role \<Rightarrow> raft_entry list \<Rightarrow> (nat, nat, u64) raft_api" where
  "demo_api role es =
     \<lparr>ra_role = (\<lambda>_. role), ra_leader_id = (\<lambda>_. 2), ra_committed = (\<lambda>_. 10),
      ra_applied = (\<lambda>_. 10), ra_propose = (\<lambda>_ _ _ r. (Inr (), Suc r)),
      ra_step = (\<lambda>_ _ r. (Inr (), r)), ra_tick = (\<lambda>_ r. r),
      ra_campaign = (\<lambda>_ r. (Inr (), r)), ra_has_ready = (\<lambda>_ r. r = 0),
      ra_ready = (\<lambda>_ r. (demo_ready es, Suc r)),
      ra_advance = (\<lambda>_ _ r. (\<lparr>lr_committed = [], lr_messages = []\<rparr>, r)),
      ra_msg_to = of_nat\<rparr>"

definition demo_streams :: "nat \<Rightarrow> stream_state_table" where
  "demo_streams limit = observe_recovered 7 3 10 0 (replicate 20 97) (table_new limit)"

definition demo_engine ::
  "nat \<Rightarrow> (u64, pending_client_write) hash_map \<Rightarrow> (nat, nat, u64) engine" where
  "demo_engine limit ps =
     \<lparr>eg_shard_id = 1, eg_node_id = 1, eg_writer = demo_writer, eg_reader = reader_new 1,
      eg_index = index_insert 7 0 (fst (hd (segment_log demo_segment))) index_new,
      eg_streams = demo_streams limit, eg_raft = 0, eg_store = bootstrap_state 5,
      eg_request_seq = 1, eg_pending = ps, eg_bootstrapped = True, eg_observed_role = Leader,
      eg_observed_leader = 1, eg_disk = demo_disk demo_segment, eg_raft_disk = demo_raft_disk [],
      eg_now = 5, eg_response_sends = [], eg_offered = [], eg_delivered = [],
      eg_outbound_sends = [], eg_outbound = []\<rparr>"

lemma demo_engine_simps [simp]:
  "eg_shard_id (demo_engine limit ps) = 1" "eg_node_id (demo_engine limit ps) = 1"
  "eg_writer (demo_engine limit ps) = demo_writer" "eg_reader (demo_engine limit ps) = reader_new 1"
  "eg_streams (demo_engine limit ps) = demo_streams limit" "eg_raft (demo_engine limit ps) = 0"
  "eg_store (demo_engine limit ps) = bootstrap_state 5" "eg_pending (demo_engine limit ps) = ps"
  "eg_disk (demo_engine limit ps) = demo_disk demo_segment" "eg_offered (demo_engine limit ps) = []"
  "eg_observed_role (demo_engine limit ps) = Leader" "eg_bootstrapped (demo_engine limit ps) = True"
  "eg_raft_disk (demo_engine limit ps) = demo_raft_disk []" "eg_outbound (demo_engine limit ps) = []"
  "eg_index (demo_engine limit ps) = index_insert 7 0 (fst (hd (segment_log demo_segment))) index_new"
  "eg_request_seq (demo_engine limit ps) = 1" "eg_response_sends (demo_engine limit ps) = []"
  by (simp_all add: demo_engine_def)

lemma demo_api_simps [simp]:
  "ra_role (demo_api role es) r = role" "ra_leader_id (demo_api role es) r = 2"
  "ra_applied (demo_api role es) r = 10" "ra_committed (demo_api role es) r = 10"
  "ra_has_ready (demo_api role es) st r = (r = 0)"
  "ra_ready (demo_api role es) st r = (demo_ready es, Suc r)"
  "ra_advance (demo_api role es) st rdy r = (\<lparr>lr_committed = [], lr_messages = []\<rparr>, r)"
  "ra_propose (demo_api role es) st ctx bs r = (Inr (), Suc r)"
  "ra_step (demo_api role es) st m r = (Inr (), r)" "ra_tick (demo_api role es) st r = r"
  by (simp_all add: demo_api_def)

lemma demo_writer_next [simp]: "ww_next_segment_id demo_writer = 3" "ww_shard_id demo_writer = 1"
  by (simp_all add: demo_writer_def)

lemma demo_streams_ok: "streams_ok (demo_streams limit)"
  "ensure_stream 7 (demo_streams limit) =
    \<lparr>sr_stream_id = 7, sr_max_epoch = 3, sr_next_stream_lsn = 1, sr_commit_stream_lsn = 1,
     sr_consumed_stream_lsn = 0, sr_last_entry_id = 10, sr_tail_cache = trim_front limit
       [\<lparr>tr_stream_lsn = 0, tr_entry_id = 10, tr_payload = replicate 20 97\<rparr>]\<rparr>"
  "x \<noteq> 7 \<Longrightarrow> ensure_stream x (demo_streams limit) = replica_new x"
  by (auto simp: streams_ok_def demo_streams_def ensure_observe table_new_def) (auto simp: ensure_stream_def replica_new_def hm_get_def observe_recovered_def Let_def)

lemma demo_engine_ok: "engine_ok demo_crc [demo_cmd 0] [demo_segment] (demo_engine limit ps)"
proof -
  have "set (sr_tail_cache (ensure_stream sid (demo_streams limit))) \<subseteq>
      {\<lparr>tr_stream_lsn = 0, tr_entry_id = 10, tr_payload = replicate 20 97\<rparr>}
    \<and> (sid \<noteq> 7 \<longrightarrow> sr_tail_cache (ensure_stream sid (demo_streams limit)) = [])" for sid
    by (cases "sid = 7") (auto simp: demo_streams_ok trim_front_drop replica_new_def dest: in_set_dropD)
  then have cache: "cache_applied [demo_cmd 0] (demo_streams limit)"
    unfolding cache_applied_def is_applied_def by (fastforce simp: demo_cmd_def)
  have log: "wal_log [demo_segment] = [(fst (hd (segment_log demo_segment)), lw_record (demo_write 0))]"
    by (simp add: wal_log_def segment_log_def demo_segment_def)
  have "index_applied [demo_cmd 0] (wal_log [demo_segment])
      (index_insert 7 0 (fst (hd (segment_log demo_segment))) index_new)"
    by (auto simp: index_applied_def log log_map_def is_applied_def demo_cmd_def record_key_def
        lw_record_def demo_write_def)
  moreover have "sizes_ok demo_crc 1 [demo_segment] demo_writer"
    by (simp add: sizes_ok_def addressable_def demo_segment_length)
      (simp add: demo_writer_def demo_segment_def encoded_size_def RECORD_HEADER_SIZE_def
        lw_record_def demo_write_def)
  moreover have "sg_tail demo_segment = []" by (simp add: demo_segment_def)
  ultimately show ?thesis
    using demo_writer_at cache demo_streams_ok(1)
    by (simp add: engine_ok_def reader_new_def [of 1] index_ok_insert reader_ok_new [unfolded reader_new_def])
qed

text \<open>
  C3: On a data disk that answers every call, applying the entries that raft hands out
  returns without an error, while segment ids last: whatever rotations it takes, and whether
  or not a snapshot of the raft state is due (then the raft log must hold the applied index,
  and its disk answer). The answers are one \<open>Ok\<close> for every client whose command is among the
  entries, with the epoch and the stream LSN of its request, in the order of the log, and
  exactly these requests are no longer pending. What the response channel is given are those of
  these answers for which it has room; if it takes all that is sent, every client gets its
  answer. (One that finds the channel full is dropped and not sent again.)
\<close>

theorem committed_writes_are_answered:
  assumes "engine_ok crc A segs e" and "entries_fit es" and "entries_decode es"
    and "ww_next_segment_id (eg_writer e) \<noteq> 0"
    and "unat (ww_next_segment_id (eg_writer e)) + length es < 2 ^ 64"
    and "dk_faults (eg_disk e) = []" and "can_snapshot p api e"
  shows "\<exists>e'. apply_committed crc p api es e = (Inr (), e') \<and>
    eg_delivered e' = eg_delivered e @ accepted (eg_response_sends e) (acks (eg_pending e) (entries_cmds es)) \<and>
    (set (eg_response_sends e) \<subseteq> {SendOk} \<longrightarrow>
       eg_delivered e' = eg_delivered e @ acks (eg_pending e) (entries_cmds es)) \<and>
    eg_pending e' = fold hm_remove (map cmd_request_id (entries_cmds es)) (eg_pending e)"
  using apply_committed_calm [OF assms] by (auto simp: progressed_def accepted_all)

lemma demo_entry_cmd [simp]:
  "entry_cmd (cmd_entry i (demo_cmd n)) = Some (demo_cmd n)"
  "decode_append_command (en_data (cmd_entry i (demo_cmd n))) = Inr (demo_cmd n)"
  by (simp_all add: entry_cmd_def cmd_entry_def decode_encode_command command_fits_def demo_cmd_def)

lemma demo_entries:
  "entries_fit [cmd_entry i (demo_cmd n)]" "entries_decode [cmd_entry i (demo_cmd n)]"
  by (simp_all add: entries_fit_def entries_decode_def)
    (simp add: cmd_entry_def length_encode_append_command demo_cmd_def)

lemma demo_between: "between_snapshots (demo_api role es) (demo_engine limit ps)"
  by (simp add: between_snapshots_def snap_index_def bootstrap_state_def SNAPSHOT_INTERVAL_def)

definition demo_pending :: pending_client_write where
  "demo_pending = \<lparr>pcw_connection_id = 9, pcw_stream_id = 7, pcw_epoch = 3, pcw_stream_lsn = 1\<rparr>"

lemma demo_request_id: "cmd_request_id (demo_cmd n) = n"
  by (simp add: demo_cmd_def)

lemma demo_acks: "hm_get [(k, demo_pending)] k = Some demo_pending" "hm_remove k [(k, demo_pending)] = []"
  "ack demo_pending = answer 9 Ok 3 1 []"
  by (simp_all add: hm_get_def hm_remove_def ack_def demo_pending_def)

text \<open>A raft log with the entries 1 to 70, of which a snapshot is due at index 70.\<close>

definition open_proto :: "u64 proto" where
  "open_proto = demo_proto\<lparr>write_snapshot := (\<lambda>s. Some (sn_data s))\<rparr>"

definition long_log :: "u64 persistent_state" where
  "long_log = (bootstrap_state 5)\<lparr>ps_entries := map (\<lambda>i. demo_entry (of_nat i) 1) [1..<71]\<rparr>"

definition due_api :: "(nat, nat, u64) raft_api" where
  "due_api = (demo_api Leader [])\<lparr>ra_applied := (\<lambda>_. 70)\<rparr>"

definition due_engine :: "(nat, nat, u64) engine" where
  "due_engine = (demo_engine 4 [(1, demo_pending)])\<lparr>eg_store := long_log, eg_response_sends := [SendOk]\<rparr>"

lemma contiguous_range:
  "m + k \<le> 2 ^ 64 \<Longrightarrow> contiguous m (map (\<lambda>i. demo_entry (of_nat i) t) [m..<m + k])"
proof (induction k arbitrary: m)
  case (Suc k)
  have "[m..<m + Suc k] = m # [Suc m..<Suc m + k]" by (simp add: upt_conv_Cons)
  moreover have "unat (of_nat m :: u64) = m" using Suc.prems by (intro unat_u64_of_nat) simp
  ultimately show ?case using Suc.IH [of "Suc m"] Suc.prems by (simp add: demo_entry_def)
qed simp

lemma snapshot_due:
  "snapshot_possible open_proto due_api due_engine" "\<not> between_snapshots due_api due_engine"
proof -
  have first: "first_index long_log = 1" and snap: "snap_index long_log = 0"
    by (simp_all add: long_log_def first_index_def snap_index_def bootstrap_state_def upt_conv_Cons demo_entry_def)
  have last: "last_index long_log = 70"
    by (simp add: long_log_def last_index_def last_map) (simp add: demo_entry_def)
  have "contiguous 1 (ps_entries long_log)"
    using contiguous_range [of 1 70 1] by (simp add: long_log_def)
  then have "log_ok long_log" by (simp add: log_ok_def first snap) (simp add: long_log_def)
  moreover have "state_writable open_proto long_log"
    by (simp add: state_writable_def long_log_def bootstrap_state_def open_proto_def demo_proto_def
        demo_entry_bytes_def demo_entry_def list_all_iff)
  ultimately show "snapshot_possible open_proto due_api due_engine"
    by (simp add: snapshot_possible_def due_engine_def due_api_def snap last Let_def open_proto_def)
      (simp add: demo_raft_disk_def)
  show "\<not> between_snapshots due_api due_engine"
    by (simp add: between_snapshots_def due_api_def due_engine_def snap SNAPSHOT_INTERVAL_def)
qed

lemma committed_writes_are_answered_witness:
  "\<not> between_snapshots due_api due_engine \<and>
   (\<exists>e'. apply_committed demo_crc open_proto due_api [cmd_entry 11 (demo_cmd 1)] due_engine = (Inr (), e') \<and>
      eg_delivered e' = [answer 9 Ok 3 1 []] \<and> eg_pending e' = [])"
proof -
  have core: "engine_core due_engine = engine_core (demo_engine 4 [(1, demo_pending)])"
    by (simp add: due_engine_def engine_core_def)
  have ok: "engine_ok demo_crc [demo_cmd 0] [demo_segment] due_engine"
    using demo_engine_ok [of 4 "[(1, demo_pending)]"] engine_ok_core [OF core] by simp
  have e: "eg_writer due_engine = demo_writer" "eg_pending due_engine = [(1, demo_pending)]"
    "eg_response_sends due_engine = [SendOk]" "eg_delivered due_engine = []" "dk_faults (eg_disk due_engine) = []"
    by (simp_all add: due_engine_def demo_disk_def) (simp add: demo_engine_def)
  have "can_snapshot open_proto due_api due_engine" using snapshot_due(1) by (simp add: can_snapshot_def)
  from committed_writes_are_answered [OF ok demo_entries [of 11 1] _ _ _ this] snapshot_due(2) show ?thesis
    by (simp add: e demo_acks demo_request_id del: apply_committed.simps)
qed

text \<open>A round of the example engine that applies a command.\<close>

definition timer_round :: "bool \<Rightarrow> nat loop_input" where
  "timer_round gc = \<lparr>li_wake = WakeTimer, li_tick_due = False, li_campaign_due = False,
     li_gc_due = gc, li_now = 5\<rparr>"

lemma demo_api_bounded: "entries_fit es \<Longrightarrow> api_bounded (demo_api role es) (length es)"
  by (simp add: api_bounded_def demo_ready_def)

lemma demo_round:
  "\<exists>e'. run_round demo_crc demo_proto (demo_api Leader [cmd_entry 11 (demo_cmd 1)])
     (timer_round False) (demo_engine limit ps) = (Inr (), e')"
proof -
  let ?api = "demo_api Leader [cmd_entry 11 (demo_cmd 1)]"
  let ?e = "(demo_engine limit ps)\<lparr>eg_now := 5, eg_raft := Suc 0\<rparr>"
  have ok: "engine_ok demo_crc [demo_cmd 0] [demo_segment] ?e"
    using demo_engine_ok [of limit ps] by (simp add: engine_ok_def)
  have snap: "can_snapshot demo_proto ?api ?e" using demo_between [of Leader _ limit ps]
    by (intro can_snapshotI) (simp add: between_snapshots_def)
  from apply_committed_calm [OF ok demo_entries [of 11 1] _ _ _ snap] obtain e' where
    app: "apply_committed demo_crc demo_proto ?api [cmd_entry 11 (demo_cmd 1)] ?e = (Inr (), e')"
    by (auto simp: demo_disk_def simp del: apply_committed.simps)
  show ?thesis
    by (simp add: run_round_def timer_round_def drive_ready_def demo_ready_def no_snapshot_def
        snapshot_is_empty_def app Let_def del: apply_committed.simps)
qed

end
