(* ===== verification/EngineReads.thy ===== *)
theory EngineReads
  imports EngineProgress
begin

text \<open>
  What a client sees of the engine's reads: an answer that carries data carries a record that
  was applied, in every reachable state; what was applied can be read back; garbage collection
  keeps everything from the consumption watermark on. And where the code falls short: an
  acknowledgement is neither fenced nor bounded, and the epoch in an answer depends on where
  the record was found.
\<close>

subsection \<open>One read\<close>

text \<open>What a read answers, by where the record is found.\<close>

definition below_commit :: "u64 \<Rightarrow> u64 \<Rightarrow> stream_state_table \<Rightarrow> bool" where
  "below_commit sid lsn t =
     (case stream_status sid t of Some st \<Rightarrow> lsn < ss_commit_stream_lsn st | None \<Rightarrow> True)"

lemma read_stream_cases:
  assumes ok: "engine_ok crc A segs e"
  shows "\<exists>rsp. fst (read_stream crc conn sid lsn e) = Inr () \<and>
    eg_offered (snd (read_stream crc conn sid lsn e)) = eg_offered e @ [rsp] \<and>
    (rsp = answer conn ErrNotFound (current_epoch sid (eg_streams e)) lsn [] \<or>
     below_commit sid lsn (eg_streams e) \<and>
     (\<exists>ep payload. rsp = answer conn Ok ep lsn payload \<and> is_applied A sid lsn payload))"
proof (cases "below_commit sid lsn (eg_streams e)")
  case False
  then show ?thesis
    by (auto simp: read_stream_def below_commit_def Let_def stream_status_def
        current_epoch_def status_of_def split: option.splits)
next
  case True
  note below = this
  obtain res rd d where rr: "read_record crc sid lsn (eg_index e) (eg_reader e, eg_disk e) = (res, rd, d)"
    using prod_cases3 by blast
  note keeps = read_record_keeps [OF engine_okD(1-3) [OF ok] rr]
  have eq: "read_stream crc conn sid lsn e = (case read_from_tail sid lsn (eg_streams e) of
      Some tail \<Rightarrow> send_response conn Ok (current_epoch sid (eg_streams e)) (tr_stream_lsn tail) (tr_payload tail) e
    | None \<Rightarrow> (let e1 = e\<lparr>eg_reader := rd, eg_disk := d\<rparr> in case res of
        Inr r \<Rightarrow> send_response conn Ok (wr_epoch r) (wr_stream_lsn r) (wr_payload r) e1
      | Inl Panic \<Rightarrow> (Inl Panic, e1)
      | Inl (Err _) \<Rightarrow> send_response conn ErrNotFound (current_epoch sid (eg_streams e)) lsn [] e1))"
    using below by (auto simp: read_stream_def below_commit_def Let_def rr split: option.splits sum.splits fault.splits)
  show ?thesis
  proof (cases "read_from_tail sid lsn (eg_streams e)")
    case (Some r)
    then show ?thesis
      using below read_from_tail_Some [OF Some] engine_okD(5) [OF ok]
      by (auto simp: eq cache_applied_def)
  next
    case None
    show ?thesis
    proof (cases "index_lookup (eg_index e) sid lsn")
      case None
      then show ?thesis using keeps \<open>read_from_tail _ _ _ = None\<close>
        by (auto simp: eq Let_def)
    next
      case (Some loc)
      from index_appliedD [OF engine_okD(6) [OF ok] this] obtain r where
        r: "(loc, r) \<in> set (wal_log segs)" "record_key r = (sid, lsn)" "is_applied A sid lsn (wr_payload r)"
        by blast
      then have "res = Inr r \<or> (\<exists>err. res = Inl (Err err))" using keeps Some by blast
      then show ?thesis
        using None below r by (auto simp: eq Let_def record_key_def)
    qed
  qed
qed

text \<open>
  C4: The invariant of the shard holds while it runs. From a state in which the writer, the
  segment files, the index, the stream table, its caches and the cache of open files describe
  one list of commands, any number of rounds of the main loop lead to such a state again, for
  the commands at the start followed by commands that raft handed out as committed: through
  client requests, raft messages, rotations, snapshots, garbage collection, losses of
  leadership, and I/O errors that a round survives.
\<close>

theorem running_engine_keeps_invariant:
  assumes "engine_ok crc A segs e" and "api_bounded api n"
    and "ww_next_segment_id (eg_writer e) \<noteq> 0"
    and "unat (ww_next_segment_id (eg_writer e)) + k * n < 2 ^ 64"
    and "engine_reaches crc p api e k e'"
  shows "\<exists>B segs'. engine_ok crc (A @ B) segs' e' \<and> (\<forall>cmd \<in> set B. handed_out api cmd)"
  using engine_reaches_ok [OF assms(5,1-4)] by blast

lemma running_engine_keeps_invariant_witness:
  "\<exists>e' B segs'. engine_reaches demo_crc demo_proto (demo_api Leader [cmd_entry 11 (demo_cmd 1)])
      (demo_engine 4 []) 1 e' \<and> engine_ok demo_crc ([demo_cmd 0] @ B) segs' e'"
proof -
  let ?api = "demo_api Leader [cmd_entry 11 (demo_cmd 1)]"
  obtain e' where "run_round demo_crc demo_proto ?api (timer_round False) (demo_engine 4 []) = (Inr (), e')"
    using demo_round by blast
  then have reach: "engine_reaches demo_crc demo_proto ?api (demo_engine 4 []) 1 e'"
    using reach_round [OF reach_start] by (metis One_nat_def)
  from running_engine_keeps_invariant [OF demo_engine_ok demo_api_bounded [OF demo_entries(1)] _ _ this] reach
  show ?thesis by auto
qed

text \<open>
  C1: A read is answered with data only on a leader and only with a record that was applied: in
  every state that any number of rounds of the main loop reach from a good one, whatever
  clients, raft and the disks did on the way (errors of the read path included), a read
  request gets exactly one answer, and if that answer is \<open>Ok\<close> its payload is that of a command
  for this stream and this LSN which was in the log at the start or was handed out by raft as
  committed. A read never panics and never stops the shard.
\<close>

theorem reads_return_applied:
  assumes "engine_ok crc A segs e" and "api_bounded api n"
    and "ww_next_segment_id (eg_writer e) \<noteq> 0"
    and "unat (ww_next_segment_id (eg_writer e)) + k * n < 2 ^ 64"
    and "engine_reaches crc p api e k e'" and op: "req_op (sreq_request req) = Read"
  shows "\<exists>rsp. fst (handle_client_request crc api req e') = Inr () \<and>
    eg_offered (snd (handle_client_request crc api req e')) = eg_offered e' @ [rsp] \<and>
    srsp_connection_id rsp = sreq_connection_id req \<and>
    (resp_status (srsp_response rsp) = Ok \<longrightarrow>
       ra_role api (eg_raft e') = Leader \<and>
       resp_offset (srsp_response rsp) = req_offset (sreq_request req) \<and>
       (\<exists>cmd. (cmd \<in> set A \<or> handed_out api cmd) \<and>
          cmd_stream_id cmd = req_stream_id (sreq_request req) \<and>
          cmd_stream_lsn cmd = req_offset (sreq_request req) \<and>
          cmd_payload cmd = resp_payload (srsp_response rsp)))"
proof -
  from engine_reaches_ok [OF assms(5,1-4)] obtain B segs' where
    ok: "engine_ok crc (A @ B) segs' e'" and B: "\<forall>cmd \<in> set B. handed_out api cmd" by blast
  show ?thesis
  proof (cases "ra_role api (eg_raft e') = Leader")
    case True
    from read_stream_cases [OF ok, of "sreq_connection_id req" "req_stream_id (sreq_request req)"
        "req_offset (sreq_request req)"] True B op show ?thesis
      by (auto simp: handle_client_request_def Let_def is_applied_def) blast+
  qed (simp add: handle_client_request_def send_not_leader_def op Let_def)
qed

definition read_req :: "u64 \<Rightarrow> u64 \<Rightarrow> shard_request" where
  "read_req sid lsn = \<lparr>sreq_connection_id = 9, sreq_request =
     \<lparr>req_op = Read, req_stream_id = sid, req_epoch = 3, req_offset = lsn, req_payload = []\<rparr>\<rparr>"

lemma reads_return_applied_witness:
  "\<exists>e' rsp. engine_reaches demo_crc demo_proto (demo_api Leader [cmd_entry 11 (demo_cmd 1)])
      (demo_engine 4 []) 1 e' \<and>
    eg_offered (snd (handle_client_request demo_crc (demo_api Leader [cmd_entry 11 (demo_cmd 1)])
      (read_req 7 1) e')) = eg_offered e' @ [rsp]"
proof -
  let ?api = "demo_api Leader [cmd_entry 11 (demo_cmd 1)]"
  obtain e' where "run_round demo_crc demo_proto ?api (timer_round False) (demo_engine 4 []) = (Inr (), e')"
    using demo_round by blast
  then have reach: "engine_reaches demo_crc demo_proto ?api (demo_engine 4 []) 1 e'"
    using reach_round [OF reach_start] by (metis One_nat_def)
  from reads_return_applied [OF demo_engine_ok demo_api_bounded [OF demo_entries(1)] _ _ this, of "read_req 7 1"]
  show ?thesis using reach by (auto simp: read_req_def)
qed

subsection \<open>What was applied can be read\<close>

lemma find_trimmed_last:
  assumes "P x" and "0 < limit" and "\<forall>y \<in> set xs. \<not> P y"
  shows "List.find P (trim_front limit (xs @ [x])) = Some x"
  unfolding trim_front_drop using assms by (intro find_drop_snoc) auto

lemma find_trimmed_two:
  assumes "P x" and "P y" and "0 < limit" and "\<forall>z \<in> set zs. \<not> P z"
  shows "List.find P (trim_front limit (trim_front limit (zs @ [x]) @ [y])) = Some (if 2 \<le> limit then x else y)"
proof -
  define ws where "ws = drop (Suc (length zs) - limit) zs"
  have none: "List.find P (drop k ws) = None" for k
    using assms(4) unfolding ws_def by (auto simp: find_None_iff dest!: in_set_dropD)
  have skip: "List.find P (vs @ us) = List.find P us" if "List.find P vs = None" for vs us
    using that by (induction vs) (auto split: if_splits)
  have inner: "trim_front limit (zs @ [x]) = ws @ [x]" using assms(3) by (simp add: trim_front_drop ws_def)
  have small: "length ws + 1 \<le> limit" using assms(3) by (simp add: ws_def)
  show ?thesis
  proof (cases "2 \<le> limit")
    case True
    with small have "trim_front limit ((ws @ [x]) @ [y]) = drop (length ws + 2 - limit) ws @ [x, y]"
      by (simp add: trim_front_drop)
    then show ?thesis using True assms(1) skip [OF none, of "length ws + 2 - limit" "[x, y]"] by (simp add: inner)
  next
    case False
    with assms(3) have one: "limit = 1" by simp
    with small have "trim_front limit ((ws @ [x]) @ [y]) = [y]" by (simp add: trim_front_drop)
    then show ?thesis using False assms(2) by (simp add: inner)
  qed
qed

text \<open>The answer to a read that finds its record in the tail cache, and to one that finds it through
  the index.\<close>

lemma read_cached:
  assumes "req_op (sreq_request req) = Read" and "ra_role api (eg_raft e) = Leader"
    and "below_commit (req_stream_id (sreq_request req)) (req_offset (sreq_request req)) (eg_streams e)"
    and "read_from_tail (req_stream_id (sreq_request req)) (req_offset (sreq_request req)) (eg_streams e) = Some r"
  shows "\<exists>ep. eg_offered (snd (handle_client_request crc api req e)) =
    eg_offered e @ [answer (sreq_connection_id req) Ok ep (tr_stream_lsn r) (tr_payload r)]"
  using assms by (auto simp: handle_client_request_def read_stream_def below_commit_def Let_def split: option.splits)

lemma read_indexed:
  assumes ok: "engine_ok crc A segs e" and calm: "dk_faults (eg_disk e) = []"
    and req: "req_op (sreq_request req) = Read" "ra_role api (eg_raft e) = Leader"
      "below_commit (req_stream_id (sreq_request req)) (req_offset (sreq_request req)) (eg_streams e)"
      "read_from_tail (req_stream_id (sreq_request req)) (req_offset (sreq_request req)) (eg_streams e) = None"
    and at: "index_lookup (eg_index e) (req_stream_id (sreq_request req)) (req_offset (sreq_request req)) = Some loc"
    and r: "(loc, r) \<in> set (wal_log segs)" "record_key r = (req_stream_id (sreq_request req), req_offset (sreq_request req))"
  shows "\<exists>ep. eg_offered (snd (handle_client_request crc api req e)) =
    eg_offered e @ [answer (sreq_connection_id req) Ok ep (wr_stream_lsn r) (wr_payload r)]"
proof -
  from read_record_stores [OF engine_okD(1,2) [OF ok] calm engine_okD(3) [OF ok] r(1) at] r(2) obtain rd where
    "read_record crc (req_stream_id (sreq_request req)) (req_offset (sreq_request req)) (eg_index e)
      (eg_reader e, eg_disk e) = (Inr r, rd, eg_disk e)" by auto
  then show ?thesis using req
    by (auto simp: handle_client_request_def read_stream_def below_commit_def Let_def split: option.splits)
qed

lemma hm_get_observed:
  assumes "hm_ok (st_streams t)"
  shows "hm_get (st_streams (observe_recovered sid ep eid lsn payload t)) sid =
    Some (ensure_stream sid (observe_recovered sid ep eid lsn payload t))"
  using assms by (simp add: observe_recovered_def Let_def)

lemma max_lsn: "lsn + 1 \<noteq> 0 \<Longrightarrow> (lsn :: u64) < max c (lsn + 1)"
proof -
  assume "lsn + 1 \<noteq> 0"
  then have "lsn < lsn + 1" using unatSuc [of lsn] by (simp add: word_less_nat_alt add.commute)
  then show "lsn < max c (lsn + 1)" by (rule less_le_trans) simp
qed

text \<open>
  C2: Read after apply: once an entry has been applied, the leader answers a read of its
  stream and LSN with \<open>Ok\<close>, the LSN and exactly the payload of the command, through the tail
  cache when it holds the record (which it does unless its limit is 0) and through the index,
  the segment cache and the segment file otherwise. The exceptions are stated as hypotheses:
  the last LSN of the 64-bit range, at which the commit position wraps, and an LSN that an
  older cached record already has.
\<close>

theorem applied_is_readable:
  assumes ok: "engine_ok crc A segs e" and fits: "length (cmd_payload cmd) + 48 < 2 ^ 32"
    and seg: "ww_next_segment_id (eg_writer e) \<noteq> 0"
    and run: "apply_append_entry crc p api i tm cmd e = (Inr (), e')"
    and wrap: "cmd_stream_lsn cmd + 1 \<noteq> 0"
    and fresh: "\<forall>r \<in> set (sr_tail_cache (ensure_stream (cmd_stream_id cmd) (eg_streams e))).
      tr_stream_lsn r \<noteq> cmd_stream_lsn cmd"
    and calm: "dk_faults (eg_disk e') = []"
    and req: "req_op (sreq_request req) = Read" "req_stream_id (sreq_request req) = cmd_stream_id cmd"
      "req_offset (sreq_request req) = cmd_stream_lsn cmd"
    and lead: "ra_role api (eg_raft e') = Leader"
  shows "\<exists>ep. eg_offered (snd (handle_client_request crc api req e')) =
    eg_offered e' @ [answer (sreq_connection_id req) Ok ep (cmd_stream_lsn cmd) (cmd_payload cmd)]"
proof -
  let ?sid = "cmd_stream_id cmd" and ?lsn = "cmd_stream_lsn cmd"
  from apply_append_entry_ok [OF ok fits seg run] obtain segs' loc where
    ok': "engine_ok crc (A @ [cmd]) segs' e'"
    and log: "wal_log segs' = wal_log segs @ [(loc, lw_record (cmd_write (eg_now e) i cmd))]"
    and idx: "eg_index e' = index_insert ?sid ?lsn loc (eg_index e)"
    and str: "eg_streams e' = observe_recovered ?sid (cmd_epoch cmd) i ?lsn (cmd_payload cmd) (eg_streams e)"
    by blast
  note hm = streams_okD(1) [OF engine_okD(4) [OF ok]]
  define st where "st = ensure_stream ?sid (eg_streams e')"
  have get: "hm_get (st_streams (eg_streams e')) ?sid = Some st"
    using hm_get_observed [OF hm] by (simp add: str st_def)
  have "?lsn < sr_commit_stream_lsn st" and
    cache: "sr_tail_cache st = trim_front (st_tail_cache_limit (eg_streams e))
      (sr_tail_cache (ensure_stream ?sid (eg_streams e)) @
       [\<lparr>tr_stream_lsn = ?lsn, tr_entry_id = i, tr_payload = cmd_payload cmd\<rparr>])"
    using max_lsn [OF wrap] by (simp_all add: st_def str ensure_observe [OF hm] Let_def)
  then have below: "below_commit ?sid ?lsn (eg_streams e')"
    by (simp add: below_commit_def stream_status_def get status_of_def)
  show ?thesis
  proof (cases "0 < st_tail_cache_limit (eg_streams e)")
    case True
    have "read_from_tail ?sid ?lsn (eg_streams e') =
        Some \<lparr>tr_stream_lsn = ?lsn, tr_entry_id = i, tr_payload = cmd_payload cmd\<rparr>"
      unfolding read_from_tail_def get option.case cache
      using fresh by (intro find_trimmed_last [OF _ True]) auto
    with below req show ?thesis using read_cached [OF req(1) lead] by fastforce
  next
    case False
    then have none: "read_from_tail ?sid ?lsn (eg_streams e') = None"
      by (simp add: read_from_tail_def get cache trim_front_drop)
    have "index_lookup (eg_index e') ?sid ?lsn = Some loc"
      using ok by (simp add: idx engine_ok_def)
    from read_indexed [OF ok' calm req(1) lead _ _ _ _, of loc "lw_record (cmd_write (eg_now e) i cmd)"] this log
    show ?thesis using below none req(2,3) by (simp add: lw_record_def cmd_write_def record_key_def)
  qed
qed

lemma applied_is_readable_witness:
  "\<exists>e' ep. apply_append_entry demo_crc demo_proto (demo_api Leader []) 11 1 (demo_cmd 1)
      (demo_engine 0 []) = (Inr (), e') \<and>
    eg_offered (snd (handle_client_request demo_crc (demo_api Leader []) (read_req 7 1) e')) =
      eg_offered e' @ [answer 9 Ok ep 1 (replicate 20 97)]"
proof -
  have calm: "dk_faults (eg_disk (demo_engine 0 [])) = []" by (simp add: demo_disk_def)
  from apply_append_entry_calm [OF demo_engine_ok _ calm can_snapshotI [OF demo_between [of Leader "[]"]], where
      p = demo_proto and i = 11 and tm = 1 and cmd = "demo_cmd 1"]
  obtain e' where run: "apply_append_entry demo_crc demo_proto (demo_api Leader []) 11 1 (demo_cmd 1)
      (demo_engine 0 []) = (Inr (), e')" and pr: "progressed (demo_engine 0 []) [demo_cmd 1] e'" by auto
  have "sr_tail_cache (ensure_stream 7 (demo_streams 0)) = []" by (simp add: demo_streams_ok)
  with applied_is_readable [OF demo_engine_ok _ _ run, of "read_req 7 1"] pr run show ?thesis
    by (auto simp: progressed_def read_req_def demo_cmd_def)
qed


subsection \<open>Garbage collection\<close>

lemma gc_truncate_exact:
  "index_ok idx \<Longrightarrow> index_lookup (gc_truncate sts idx) sid lsn =
     (if \<exists>s \<in> set sts. ss_stream_id s = sid \<and> lsn < ss_consumed_stream_lsn s then None
      else index_lookup idx sid lsn)"
proof (induction sts arbitrary: idx)
  case (Cons s sts)
  let ?one = "if 0 < ss_consumed_stream_lsn s
    then truncate_stream_before (ss_stream_id s) (ss_consumed_stream_lsn s) idx else idx"
  have "index_ok ?one" using Cons.prems by (simp add: index_ok_truncate)
  moreover have "index_lookup ?one sid lsn =
      (if ss_stream_id s = sid \<and> lsn < ss_consumed_stream_lsn s then None else index_lookup idx sid lsn)"
    using Cons.prems by (auto simp: word_gt_0)
  ultimately show ?case
    using Cons.IH [of ?one] by (auto simp: gc_truncate_def)
qed (simp add: gc_truncate_def)

lemma consumed_statuses:
  assumes "streams_ok t"
  shows "(\<exists>s \<in> set (all_statuses t). ss_stream_id s = sid \<and> lsn < ss_consumed_stream_lsn s) \<longleftrightarrow>
    lsn < sr_consumed_stream_lsn (ensure_stream sid t)"
proof -
  have "st \<in> set (hm_values (st_streams t)) \<longleftrightarrow> (\<exists>k. hm_get (st_streams t) k = Some st)" for st
    using hm_get_in_set [OF streams_okD(1) [OF assms]] by (force simp: hm_values_def)
  moreover have "sr_stream_id st = k" if "hm_get (st_streams t) k = Some st" for k st
    using streams_okD(2) [OF assms, of k] that by (simp add: ensure_stream_def)
  ultimately show ?thesis
    by (auto simp: all_statuses_def status_of_def ensure_stream_def replica_new_def split: option.split)
qed

lemma gc_segments_files:
  assumes "disk_ok (eg_disk e)" and "gc_segments live cur ss e = (Inr (), e')"
  shows "disk_file (eg_disk e') name =
    (if \<exists>s \<in> set ss. snd s = name \<and> fst s \<noteq> cur \<and> fst s \<notin> live then None
     else disk_file (eg_disk e) name)"
  using assms
proof (induction ss arbitrary: e)
  case (Cons s ss)
  show ?case
  proof (cases "fst s = cur \<or> fst s \<in> live")
    case True
    with Cons.IH [OF Cons.prems(1)] Cons.prems(2) show ?thesis by (auto split: if_splits)
  next
    case False
    with Cons.prems(2) obtain d where rm: "io_remove_file (snd s) (eg_disk e) = (Inr (), d)" and
      rest: "gc_segments live cur ss
        (e\<lparr>eg_reader := evict_segment (fst s) (eg_reader e), eg_disk := d\<rparr>) = (Inr (), e')"
      by (auto simp: Let_def split: prod.splits sum.splits)
    note d = io_remove_file_Inr [OF rm]
    have "disk_ok d" using d Cons.prems(1) by (simp add: disk_ok_def)
    moreover have "disk_file d name = (if name = snd s then None else disk_file (eg_disk e) name)"
      using d Cons.prems(1) by (simp add: disk_file_def disk_ok_def)
    ultimately show ?thesis using Cons.IH [OF _ rest] False by auto
  qed
qed simp

lemma run_gc_file:
  assumes ok: "engine_ok crc A segs e" and run: "run_gc e = (Inr (), e')" and s: "s \<in> set segs"
  shows "disk_file (eg_disk e') (segment_filename (eg_shard_id e) (sg_id s)) =
    (if sg_id s = ww_current_segment_id (eg_writer e) \<or> sg_id s \<in> live_segment_ids (eg_index e')
     then Some (segment_bytes crc (eg_shard_id e) s) else None)"
proof -
  from run_gc_ok [OF ok run] have idx: "eg_index e' = gc_truncate (all_statuses (eg_streams e)) (eg_index e)"
    by blast
  have st: "stores crc (eg_shard_id e) segs (eg_disk e)"
    using ok by (auto simp: engine_ok_def writer_at_def)
  from run obtain l d where l: "list_segments (eg_shard_id e) (eg_disk e) = (Inr l, d)" and
    gc: "gc_segments (live_segment_ids (eg_index e')) (ww_current_segment_id (eg_writer e)) l
      (e\<lparr>eg_index := eg_index e', eg_disk := d\<rparr>) = (Inr (), e')"
    by (auto simp: run_gc_def Let_def idx split: prod.splits sum.splits)
  from list_segments_stores(1) [OF st l] have names: "l = seg_names (eg_shard_id e) segs"
    and same: "same_files (eg_disk e) d" by auto
  have "disk_ok d" using st same by (simp add: stores_def same_files_facts)
  note files = gc_segments_files [OF _ gc, simplified, OF this]
  have "disk_file d (segment_filename (eg_shard_id e) (sg_id s)) = Some (segment_bytes crc (eg_shard_id e) s)"
    using st s same by (simp add: stores_def same_files_facts)
  moreover have "(\<exists>x \<in> set l. snd x = segment_filename (eg_shard_id e) (sg_id s) \<and>
        fst x \<noteq> ww_current_segment_id (eg_writer e) \<and> fst x \<notin> live_segment_ids (eg_index e')) \<longleftrightarrow>
      sg_id s \<noteq> ww_current_segment_id (eg_writer e) \<and> sg_id s \<notin> live_segment_ids (eg_index e')"
    using s by (auto simp: names seg_names_def)
  ultimately show ?thesis unfolding files by auto
qed

text \<open>
  C16: Garbage collection removes exactly what the consumers have released: after a run that
  returns, the index has lost the entries of each stream below its consumption watermark and
  no other; the file of a segment is gone if and only if it is not the one being written and
  no remaining entry points into it, and every file that stays is unchanged; and the engine's
  invariant still holds, so every remaining entry still reads its record.
\<close>

theorem gc_removes_exactly_the_consumed:
  assumes ok: "engine_ok crc A segs e" and run: "run_gc e = (Inr (), e')"
  shows "(\<forall>sid lsn. index_lookup (eg_index e') sid lsn =
      (if lsn < sr_consumed_stream_lsn (ensure_stream sid (eg_streams e)) then None
       else index_lookup (eg_index e) sid lsn)) \<and>
    (\<forall>s \<in> set segs. disk_file (eg_disk e') (segment_filename (eg_shard_id e) (sg_id s)) =
      (if sg_id s = ww_current_segment_id (eg_writer e) \<or>
          (\<exists>sid lsn loc. index_lookup (eg_index e') sid lsn = Some loc \<and> loc_segment_id loc = sg_id s)
       then Some (segment_bytes crc (eg_shard_id e) s) else None)) \<and>
    (\<exists>segs'. engine_ok crc A segs' e')"
proof (intro conjI allI ballI)
  from run_gc_ok [OF ok run] show "\<exists>segs'. engine_ok crc A segs' e'" by blast
  from run_gc_ok [OF ok run] have idx: "eg_index e' = gc_truncate (all_statuses (eg_streams e)) (eg_index e)"
    by blast
  have iok: "index_ok (eg_index e)" using ok by (simp add: engine_ok_def)
  then show "index_lookup (eg_index e') sid lsn =
      (if lsn < sr_consumed_stream_lsn (ensure_stream sid (eg_streams e)) then None
       else index_lookup (eg_index e) sid lsn)" for sid lsn
    by (simp add: idx gc_truncate_exact consumed_statuses [OF engine_okD(4) [OF ok]])
  have live: "g \<in> live_segment_ids (eg_index e') \<longleftrightarrow>
      (\<exists>sid lsn loc. index_lookup (eg_index e') sid lsn = Some loc \<and> loc_segment_id loc = g)" for g
    using gc_truncate_lookup [OF iok] by (intro live_segment_ids_iff) (simp add: idx)
  fix s assume s: "s \<in> set segs"
  have "disk_file (eg_disk e') (segment_filename (eg_shard_id e) (sg_id s)) =
      (if sg_id s = ww_current_segment_id (eg_writer e) \<or> sg_id s \<in> live_segment_ids (eg_index e')
       then Some (segment_bytes crc (eg_shard_id e) s) else None)"
    using run_gc_file [OF ok run s] by simp
  then show "disk_file (eg_disk e') (segment_filename (eg_shard_id e) (sg_id s)) =
      (if sg_id s = ww_current_segment_id (eg_writer e) \<or>
          (\<exists>sid lsn loc. index_lookup (eg_index e') sid lsn = Some loc \<and> loc_segment_id loc = sg_id s)
       then Some (segment_bytes crc (eg_shard_id e) s) else None)"
    unfolding live .
qed

definition consumed_engine :: "(nat, nat, u64) engine" where
  "consumed_engine = (demo_engine 4 [])\<lparr>eg_streams := snd (advance_consumed 7 1 (demo_streams 4))\<rparr>"

lemma consumed_engine_ok: "engine_ok demo_crc [demo_cmd 0] [demo_segment] consumed_engine"
  unfolding consumed_engine_def
proof (rule engine_ok_streams [OF demo_engine_ok])
  obtain c t where "advance_consumed 7 1 (demo_streams 4) = (c, t)" by force
  with advance_keeps [OF _ _ this] engine_okD(4,5) [OF demo_engine_ok [of 4]] show
    "streams_ok (snd (advance_consumed 7 1 (demo_streams 4))) \<and>
     cache_applied [demo_cmd 0] (snd (advance_consumed 7 1 (demo_streams 4)))" by simp
qed

lemma run_gc_one_segment:
  assumes "engine_ok crc A [s] e" and "dk_faults (eg_disk e) = []"
  shows "\<exists>e'. run_gc e = (Inr (), e')"
proof -
  have "stores crc (eg_shard_id e) [s] (eg_disk e)" "sg_id s = ww_current_segment_id (eg_writer e)"
    using assms(1) by (auto simp: engine_ok_def writer_at_def stands_at_def)
  from list_segments_stores(2) [OF this(1) assms(2)] this(2) show ?thesis
    by (simp add: run_gc_def Let_def seg_names_def)
qed

lemma gc_removes_exactly_the_consumed_witness:
  "\<exists>e'. run_gc consumed_engine = (Inr (), e') \<and>
    index_lookup (eg_index consumed_engine) 7 0 \<noteq> None \<and> index_lookup (eg_index e') 7 0 = None \<and>
    disk_file (eg_disk e') (segment_filename 1 2) = Some (segment_bytes demo_crc 1 demo_segment)"
proof -
  have "dk_faults (eg_disk consumed_engine) = []" by (simp add: consumed_engine_def demo_disk_def)
  from run_gc_one_segment [OF consumed_engine_ok this] obtain e' where run: "run_gc consumed_engine = (Inr (), e')"
    by blast
  have "sr_consumed_stream_lsn (ensure_stream 7 (eg_streams consumed_engine)) = 1"
    using streams_okD(1) [OF demo_streams_ok(1)]
    by (simp add: consumed_engine_def advance_consumed_def Let_def demo_streams_ok)
  moreover have "sg_id demo_segment = 2" "ww_current_segment_id (eg_writer consumed_engine) = 2"
    "eg_shard_id consumed_engine = 1" "index_lookup (eg_index consumed_engine) 7 0 \<noteq> None"
    by (simp_all add: demo_segment_def consumed_engine_def demo_writer_def)
  ultimately show ?thesis
    using gc_removes_exactly_the_consumed [OF consumed_engine_ok run] run by auto
qed

text \<open>
  An acknowledgement is not checked. Any client that sends one, with any epoch (a fenced
  one included), to any role of node, moves the consumption watermark of the stream on its
  node to the offset it names, even beyond what is committed; the answer is \<open>Ok\<close> with the new
  watermark. The next garbage collection on that node then drops every index entry of the
  stream below it, whether or not the consumer of the stream ever read the record.
\<close>

theorem ack_is_unchecked:
  assumes ok: "engine_ok crc A segs e" and op: "req_op (sreq_request req) = Ack"
    and acked: "handle_client_request crc api req e = (Inr (), e1)"
    and gc: "run_gc e1 = (Inr (), e2)"
    and below: "lsn < req_offset (sreq_request req)"
  shows "eg_offered e1 = eg_offered e @ [answer (sreq_connection_id req) Ok
      (sr_max_epoch (ensure_stream (req_stream_id (sreq_request req)) (eg_streams e)))
      (max (sr_consumed_stream_lsn (ensure_stream (req_stream_id (sreq_request req)) (eg_streams e)))
         (req_offset (sreq_request req))) []] \<and>
    index_lookup (eg_index e2) (req_stream_id (sreq_request req)) lsn = None"
proof -
  let ?sid = "req_stream_id (sreq_request req)" and ?c = "req_offset (sreq_request req)"
  note hm = streams_okD(1) [OF engine_okD(4) [OF ok]]
  obtain c t where adv: "advance_consumed ?sid ?c (eg_streams e) = (c, t)" by force
  from acked have e1: "e1 = snd (send_response (sreq_connection_id req) Ok (current_epoch ?sid t) c []
      (e\<lparr>eg_streams := t\<rparr>))"
    by (simp add: handle_client_request_def op adv Let_def)
  from adv have c: "c = max (sr_consumed_stream_lsn (ensure_stream ?sid (eg_streams e))) ?c"
    and t: "sr_consumed_stream_lsn (ensure_stream ?sid t) = c"
      "sr_max_epoch (ensure_stream ?sid t) = sr_max_epoch (ensure_stream ?sid (eg_streams e))"
    using hm by (auto simp: advance_consumed_def Let_def)
  have "engine_ok crc A segs e1"
    using engine_ok_streams [OF ok advance_keeps [OF engine_okD(4,5) [OF ok] adv]] by (simp add: e1)
  from run_gc_ok [OF this gc] have "eg_index e2 = gc_truncate (all_statuses t) (eg_index e)"
    by (simp add: e1)
  moreover have "streams_ok t" using advance_keeps [OF engine_okD(4,5) [OF ok] adv] by blast
  moreover have "lsn < c" using below by (simp add: c less_max_iff_disj)
  ultimately have "index_lookup (eg_index e2) ?sid lsn = None"
    using ok by (simp add: gc_truncate_exact consumed_statuses t engine_ok_def)
  then show ?thesis using c t by (simp add: e1 current_epoch_ensure)
qed

definition stale_ack :: shard_request where
  "stale_ack = \<lparr>sreq_connection_id = 8, sreq_request =
     \<lparr>req_op = Ack, req_stream_id = 7, req_epoch = 0, req_offset = 100, req_payload = []\<rparr>\<rparr>"

lemma ack_is_unchecked_witness:
  "\<exists>e1 e2. handle_client_request demo_crc (demo_api Follower []) stale_ack (demo_engine 4 []) = (Inr (), e1) \<and>
    run_gc e1 = (Inr (), e2) \<and> eg_offered e1 = [answer 8 Ok 3 100 []] \<and>
    sr_commit_stream_lsn (ensure_stream 7 (demo_streams 4)) = 1 \<and>
    index_lookup (eg_index e2) 7 0 = None"
proof -
  let ?h = "handle_client_request demo_crc (demo_api Follower []) stale_ack (demo_engine 4 [])"
  have h: "?h = (Inr (), snd ?h)"
    by (rule prod_eqI) (simp_all add: handle_client_request_def stale_ack_def Let_def split: prod.split)
  have ok: "engine_ok demo_crc [demo_cmd 0] [demo_segment] (snd ?h)"
    by (rule handle_client_request_ok [OF demo_engine_ok])
  have "dk_faults (eg_disk (snd ?h)) = []"
    by (simp add: handle_client_request_def stale_ack_def Let_def demo_disk_def split: prod.split)
  from run_gc_one_segment [OF ok this] obtain e2 where gc: "run_gc (snd ?h) = (Inr (), e2)" by blast
  have "(0 :: u64) < req_offset (sreq_request stale_ack)" by (simp add: stale_ack_def)
  from ack_is_unchecked [OF demo_engine_ok _ h gc this] h gc show ?thesis
    by (auto simp: demo_streams_ok) (auto simp: stale_ack_def max_def word_less_nat_alt word_le_nat_alt demo_streams_ok)
qed

end
