(* ===== verification/EngineOpen.thy ===== *)
theory EngineOpen
  imports EngineReads
begin

text \<open>
  Opening a shard and what a restart keeps: opening a directory that holds segments gives an
  engine in which the invariant holds, with the commands of the log as what was applied; so
  all that is proved for every reachable state holds from the opening on. And what a running
  engine can read from its log it can read after it was killed and opened again.
\<close>

subsection \<open>The tables that opening builds\<close>

definition bare_streams :: "(u64, stream_replica_state) hash_map \<Rightarrow> bool" where
  "bare_streams m = (hm_ok m \<and>
     (\<forall>sid st. hm_get m sid = Some st \<longrightarrow> sr_stream_id st = sid \<and> sr_tail_cache st = []))"

lemma decode_entries_ok:
  "bare_streams m \<Longrightarrow> decode_entries n buf cursor m = Inr m' \<Longrightarrow> bare_streams m'"
proof (induction n arbitrary: cursor m)
  case (Suc n)
  from Suc.prems(2) obtain st where
    "decode_entries n buf (cursor + 48) (hm_insert (sr_stream_id st) st m) = Inr m'" "sr_tail_cache st = []"
    unfolding decode_entries.simps Let_def by (auto split: if_splits) (metis stream_replica_state.select_convs(1,7))
  moreover from this(2) Suc.prems(1) have "bare_streams (hm_insert (sr_stream_id st) st m)"
    by (auto simp: bare_streams_def)
  ultimately show ?case by (blast intro: Suc.IH)
qed auto

lemma decode_snapshot_ok:
  assumes "decode_snapshot limit buf = Inr t"
  shows "streams_ok t \<and> cache_applied A t"
proof -
  have "bare_streams (st_streams t)"
  proof (cases "buf = []")
    case False
    with assms obtain n where "decode_entries n buf 4 [] = Inr (st_streams t)"
      by (auto simp: decode_snapshot_def Let_def split: if_splits sum.splits)
    then show ?thesis by (rule decode_entries_ok [rotated]) (simp add: bare_streams_def)
  qed (use assms in \<open>auto simp: decode_snapshot_def table_new_def bare_streams_def\<close>)
  then show ?thesis
    by (auto simp: bare_streams_def streams_ok_def cache_applied_def ensure_stream_def replica_new_def
        split: option.splits)
qed

text \<open>The commands of a log, as far as the log records them.\<close>

definition record_cmd :: "wal_record \<Rightarrow> append_command" where
  "record_cmd r = \<lparr>cmd_request_id = 0, cmd_stream_id = wr_stream_id r, cmd_epoch = wr_epoch r,
     cmd_stream_lsn = wr_stream_lsn r, cmd_payload = wr_payload r\<rparr>"

definition log_cmds :: "segment list \<Rightarrow> append_command list" where
  "log_cmds segs = map (record_cmd \<circ> snd) (wal_log segs)"

lemma record_applied: "r \<in> snd ` set l \<Longrightarrow>
    is_applied (map (record_cmd \<circ> snd) l) (wr_stream_id r) (wr_stream_lsn r) (wr_payload r)"
  by (force simp: is_applied_def record_cmd_def)

lemma replay_log_tables:
  assumes "streams_ok (rp_streams s)" and "cache_applied A (rp_streams s)" and "index_ok (rp_index s)"
    and "\<forall>(loc, r) \<in> set l. is_applied A (wr_stream_id r) (wr_stream_lsn r) (wr_payload r)"
  shows "streams_ok (rp_streams (replay_log base l s)) \<and> cache_applied A (rp_streams (replay_log base l s)) \<and>
    index_ok (rp_index (replay_log base l s))"
  using assms
proof (induction l arbitrary: s)
  case (Cons x l)
  obtain loc r where x: "x = (loc, r)" by (cases x)
  have "streams_ok (rp_streams (replay_record base loc r s)) \<and>
      cache_applied A (rp_streams (replay_record base loc r s)) \<and>
      index_ok (rp_index (replay_record base loc r s))"
    using Cons.prems observe_keeps [of "rp_streams s" A] x
    by (auto simp: replay_record_def intro: index_ok_insert)
  with Cons.IH [of "replay_record base loc r s"] Cons.prems(4) x show ?case by simp
qed simp

lemma index_applied_replay:
  "index_applied (map (record_cmd \<circ> snd) l) l (rp_index (replay_log base l (replay_init t)))"
  unfolding index_applied_def index_lookup_replay
proof (intro allI impI)
  fix sid lsn loc
  assume "map_option fst (log_map l (sid, lsn)) = Some loc"
  then obtain r where r: "log_map l (sid, lsn) = Some (loc, r)" by auto
  from log_map_in [OF r] have "(loc, r) \<in> set l" "record_key r = (sid, lsn)" by auto
  moreover from this have "r \<in> snd ` set l" by force
  ultimately show "\<exists>r. log_map l (sid, lsn) = Some (loc, r) \<and>
      is_applied (map (record_cmd \<circ> snd) l) sid lsn (wr_payload r)"
    using r record_applied [of r l] by (auto simp: record_key_def)
qed

subsection \<open>Opening an engine\<close>

lemma engine_open_Inr:
  assumes "engine_open crc p new_node voters shard cfg now rd d = (Inr e, rd', d')"
  shows "\<exists>st t w idx t' r. decode_snapshot (cfg_tail_cache_entries cfg) (sn_data (ps_snapshot st)) = Inr t \<and>
    storage_open p (voters (map peer_id (cfg_peers cfg))) rd = (Inr st, rd') \<and>
    writer_open crc now shard (cfg_segment_max_bytes cfg) (cfg_tail_cache_entries cfg) (Some t)
      (snap_index st) d = (Inr (w, idx, t'), d') \<and>
    eg_shard_id e = shard \<and> eg_writer e = w \<and> eg_reader e = reader_new shard \<and> eg_index e = idx \<and>
    eg_streams e = t' \<and> eg_raft e = r \<and> eg_store e = st \<and> eg_disk e = d' \<and> eg_pending e = []"
  using assms by (auto simp: engine_open_def split: prod.splits sum.splits)

lemma opened_tables:
  assumes "decode_snapshot limit buf = Inr t"
    and rs: "rs = replay_log base (wal_log segs) (replay_init (recovered_from limit' (Some t)))"
  shows "streams_ok (rp_streams rs) \<and> cache_applied (log_cmds segs) (rp_streams rs) \<and>
    index_ok (rp_index rs) \<and> index_applied (log_cmds segs) (wal_log segs) (rp_index rs)"
proof -
  let ?s = "replay_init (recovered_from limit' (Some t))"
  have "streams_ok (rp_streams ?s)" "cache_applied (log_cmds segs) (rp_streams ?s)" "index_ok (rp_index ?s)"
    using decode_snapshot_ok [OF assms(1)] by (simp_all add: replay_init_def recovered_from_def)
  moreover have "\<forall>(loc, r) \<in> set (wal_log segs).
      is_applied (log_cmds segs) (wr_stream_id r) (wr_stream_lsn r) (wr_payload r)"
    unfolding log_cmds_def by (auto intro!: record_applied) force
  ultimately show ?thesis
    using replay_log_tables [of ?s "log_cmds segs" "wal_log segs" base] index_applied_replay
    by (simp add: rs log_cmds_def)
qed

lemma open_invariant:
  assumes "stores crc shard segs d" and "segs \<noteq> []" and "sg_tail (last segs) = []"
    and "\<forall>s \<in> set segs. addressable crc shard s"
    and "unat (cfg_segment_max_bytes cfg) < 2 ^ 63"
    and "length (segment_bytes crc shard (last segs)) < 2 ^ 63 + 2 ^ 32"
    and "engine_open crc p new_node voters shard cfg now rd d = (Inr e, rd', d')"
  shows "engine_ok crc (log_cmds segs) segs e \<and> eg_pending e = [] \<and> eg_shard_id e = shard"
proof -
  from engine_open_Inr [OF assms(7)] obtain st t w idx t' where
    t: "decode_snapshot (cfg_tail_cache_entries cfg) (sn_data (ps_snapshot st)) = Inr t" and
    w: "writer_open crc now shard (cfg_segment_max_bytes cfg) (cfg_tail_cache_entries cfg) (Some t)
      (snap_index st) d = (Inr (w, idx, t'), d')" and
    e: "eg_shard_id e = shard" "eg_writer e = w" "eg_reader e = reader_new shard" "eg_index e = idx"
      "eg_streams e = t'" "eg_disk e = d'" "eg_pending e = []" "eg_store e = st"
    by blast
  note o = writer_open_stores(1) [OF assms(1,2) refl w]
  note tabs = opened_tables [OF t refl, of "snap_index st" segs "cfg_tail_cache_entries cfg"]
  have "writer_at crc segs (w, d')"
    using o assms(2) by (simp add: writer_at_def) (simp add: opened_def)
  moreover have "ww_shard_id w = shard" "ww_max_segment_bytes w = cfg_segment_max_bytes cfg"
    using o by (simp_all add: opened_def)
  ultimately show ?thesis
    using assms(3-6) tabs o
    by (simp add: engine_ok_def sizes_ok_def e reader_new_def [of shard] reader_ok_new [unfolded reader_new_def])
qed

text \<open>
  C23: Opening a shard establishes the invariant that all the properties of the running engine
  rest on: if the directory holds segments without a torn tail, none of them beyond the sizes
  that the writer respects, then whatever raft state, configuration and I/O errors there are,
  an opening that succeeds gives an engine whose index, tables and writer describe exactly the
  commands of the log on disk, with nothing pending.
\<close>

theorem open_establishes_invariant:
  assumes "stores crc shard segs d" and "segs \<noteq> []" and "sg_tail (last segs) = []"
    and "\<forall>s \<in> set segs. addressable crc shard s"
    and "unat (cfg_segment_max_bytes cfg) < 2 ^ 63"
    and "length (segment_bytes crc shard (last segs)) < 2 ^ 63 + 2 ^ 32"
    and "engine_open crc p new_node voters shard cfg now rd d = (Inr e, rd', d')"
  shows "engine_ok crc (log_cmds segs) segs e \<and> eg_pending e = []"
  using open_invariant [OF assms] by blast

text \<open>
  C11: What could be read before a restart can be read after it. Take an engine in any state in
  which the invariant holds (by the properties above, any state it reaches), kill it there and
  open the directory again, with whatever snapshot and configuration: if the opening succeeds,
  every record that the running engine's index knew is in the new index at the same place,
  and reading it gives a record that was applied, with the payload it had; garbage collection
  before the restart included.
\<close>

theorem restart_keeps_readable:
  assumes ok: "engine_ok crc A segs e" and calm: "dk_faults d = []"
    and opened: "writer_open crc now (eg_shard_id e) max_bytes limit rec base (eg_disk e) = (Inr (w, idx, t), d)"
    and known: "index_lookup (eg_index e) sid lsn = Some loc"
  shows "index_lookup idx sid lsn = Some loc \<and>
    (\<exists>r rd. read_record crc sid lsn idx (reader_new (eg_shard_id e), d) = (Inr r, rd, d) \<and>
       wr_stream_id r = sid \<and> wr_stream_lsn r = lsn \<and> is_applied A sid lsn (wr_payload r))"
proof -
  have st: "stores crc (eg_shard_id e) segs (eg_disk e)" "segs \<noteq> []"
    and addr: "\<forall>s \<in> set segs. addressable crc (eg_shard_id e) s"
    using ok by (auto simp: engine_ok_def writer_at_def sizes_ok_def)
  note o = writer_open_stores(1) [OF st refl opened]
  from engine_okD(6) [OF ok] known obtain r where log: "log_map (wal_log segs) (sid, lsn) = Some (loc, r)"
    and app: "is_applied A sid lsn (wr_payload r)"
    unfolding index_applied_def by blast
  then have idx: "index_lookup idx sid lsn = Some loc" using o by (simp add: index_lookup_replay)
  have r: "(loc, r) \<in> set (wal_log segs)" "record_key r = (sid, lsn)" using log_map_in [OF log] by auto
  have "wrd_shard_id (reader_new (eg_shard_id e)) = eg_shard_id e" by (simp add: reader_new_def)
  with read_record_stores [of crc "reader_new (eg_shard_id e)" segs d loc r idx sid lsn] o calm addr r(1) idx
  show ?thesis using app r(2) by (auto simp: record_key_def)
qed

text \<open>The example directory opens.\<close>

lemma demo_open:
  "\<exists>(e :: (nat, nat, u64) engine) rd'. engine_open demo_crc demo_proto (\<lambda>_. Inr 0) (\<lambda>_. 5) 1 default_config 5
     (demo_raft_disk []) (demo_disk demo_segment) = (Inr e, rd', demo_disk demo_segment)"
proof -
  have calm: "dk_faults (demo_disk demo_segment) = []" by (simp add: demo_disk_def)
  obtain rd' where st: "storage_open demo_proto 5 (demo_raft_disk []) = (Inr (bootstrap_state 5), rd')"
    using storage_open_saved [OF demo_raft_saved] by (auto simp: demo_raft_disk_def)
  have snap: "decode_snapshot limit (sn_data (ps_snapshot (bootstrap_state 5))) = Inr (table_new limit)" for limit
    by (simp add: bootstrap_state_def decode_snapshot_def)
  show ?thesis
    using writer_open_stores(2) [OF demo_stores _ refl calm] by (simp add: engine_open_def st snap)
qed

lemma open_establishes_invariant_witness:
  "\<exists>(e :: (nat, nat, u64) engine) rd'.
     engine_open demo_crc demo_proto (\<lambda>_. Inr 0) (\<lambda>_. 5) 1 default_config 5 (demo_raft_disk [])
       (demo_disk demo_segment) = (Inr e, rd', demo_disk demo_segment) \<and>
     engine_ok demo_crc (log_cmds [demo_segment]) [demo_segment] e \<and> log_cmds [demo_segment] \<noteq> []"
proof -
  obtain e :: "(nat, nat, u64) engine" and rd' where e: "engine_open demo_crc demo_proto (\<lambda>_. Inr 0) (\<lambda>_. 5) 1
      default_config 5 (demo_raft_disk []) (demo_disk demo_segment) = (Inr e, rd', demo_disk demo_segment)"
    using demo_open by blast
  have "\<forall>s \<in> set [demo_segment]. addressable demo_crc 1 s" "sg_tail demo_segment = []"
    using demo_engine_ok [of 4 "[]"] by (simp_all add: engine_ok_def sizes_ok_def)
  with open_establishes_invariant [OF demo_stores _ _ _ _ _ e] e show ?thesis
    by (auto simp: demo_segment_length default_config_def log_cmds_def wal_log_def segment_log_def)
      (simp add: demo_segment_def)
qed

lemma restart_keeps_readable_witness:
  "\<exists>w idx t. writer_open demo_crc 9 1 200 4 None 0 (demo_disk demo_segment) =
      (Inr (w, idx, t), demo_disk demo_segment) \<and>
    (\<exists>r rd. read_record demo_crc 7 0 idx (reader_new 1, demo_disk demo_segment) =
        (Inr r, rd, demo_disk demo_segment) \<and> wr_payload r = replicate 20 97)"
proof -
  have calm: "dk_faults (demo_disk demo_segment) = []" by (simp add: demo_disk_def)
  obtain w idx t where o: "writer_open demo_crc 9 1 200 4 None 0 (demo_disk demo_segment) =
      (Inr (w, idx, t), demo_disk demo_segment)"
    using writer_open_stores(2) [OF demo_stores _ refl calm] by blast
  have "index_lookup (eg_index (demo_engine 4 [])) 7 0 = Some (fst (hd (segment_log demo_segment)))"
    by simp
  from restart_keeps_readable [OF demo_engine_ok calm _ this] o show ?thesis
    by (fastforce simp: is_applied_def demo_cmd_def)
qed

end
