(* ===== verification/EngineWrites.thy ===== *)
theory EngineWrites
  imports EngineOpen "HOL-Library.Multiset"
begin

text \<open>
  The write path of the engine over any number of rounds: the positions of a stream never go
  back, so a fence once set holds; what a client is told when it is fenced, when the node is
  not the leader, and when the node loses the leadership with writes pending.
\<close>

subsection \<open>Positions of a stream\<close>

definition positions_le :: "stream_replica_state \<Rightarrow> stream_replica_state \<Rightarrow> bool" where
  "positions_le a b =
     (sr_max_epoch a \<le> sr_max_epoch b \<and> sr_commit_stream_lsn a \<le> sr_commit_stream_lsn b \<and>
      sr_consumed_stream_lsn a \<le> sr_consumed_stream_lsn b \<and> sr_last_entry_id a \<le> sr_last_entry_id b)"

lemma positions_refl [simp]: "positions_le a a"
  by (simp add: positions_le_def)

lemma positions_trans: "positions_le a b \<Longrightarrow> positions_le b c \<Longrightarrow> positions_le a c"
  by (auto simp: positions_le_def)

text \<open>The tail caches stay within the limit of the table.\<close>

definition caches_within :: "stream_state_table \<Rightarrow> bool" where
  "caches_within t =
     (\<forall>sid. length (sr_tail_cache (ensure_stream sid t)) \<le> st_tail_cache_limit t)"

definition table_le :: "stream_state_table \<Rightarrow> stream_state_table \<Rightarrow> bool" where
  "table_le t t' = (streams_ok t \<longrightarrow>
     streams_ok t' \<and> (\<forall>sid. positions_le (ensure_stream sid t) (ensure_stream sid t')) \<and>
     st_tail_cache_limit t' = st_tail_cache_limit t \<and> (caches_within t \<longrightarrow> caches_within t'))"

lemma table_le_refl [simp]: "table_le t t"
  by (simp add: table_le_def)

lemma table_le_trans: "table_le a b \<Longrightarrow> table_le b c \<Longrightarrow> table_le a c"
  unfolding table_le_def by (auto intro: positions_trans)

lemma table_le_put:
  assumes "sr_stream_id st = sr_stream_id (ensure_stream sid t)" and "positions_le (ensure_stream sid t) st"
    and len: "length (sr_tail_cache st) \<le> st_tail_cache_limit t \<or>
      length (sr_tail_cache st) \<le> length (sr_tail_cache (ensure_stream sid t))"
  shows "table_le t (put_stream sid st t)"
  unfolding table_le_def
proof (intro impI conjI allI)
  assume ok: "streams_ok t"
  then have at: "ensure_stream x (put_stream sid st t) = (if x = sid then st else ensure_stream x t)" for x
    by (simp add: streams_okD)
  show "streams_ok (put_stream sid st t)" using ok assms(1) by (simp add: streams_ok_def)
  show "positions_le (ensure_stream x t) (ensure_stream x (put_stream sid st t))" for x
    using assms(2) by (simp add: at)
  assume "caches_within t"
  then show "caches_within (put_stream sid st t)"
    using len by (auto simp: caches_within_def at intro: order_trans)
qed simp

lemma table_le_allocate: "allocate_append sid ep t = (res, t') \<Longrightarrow> table_le t t'"
  by (auto simp: allocate_append_def Let_def positions_le_def split: if_splits intro!: table_le_put)

lemma table_le_advance: "advance_consumed sid c t = (res, t') \<Longrightarrow> table_le t t'"
  by (auto simp: advance_consumed_def Let_def positions_le_def length_dropWhile_le intro!: table_le_put)

lemma table_le_rollback: "table_le t (rollback_uncommitted_append sid lsn t)"
  by (auto simp: rollback_uncommitted_append_def Let_def ensure_stream_def positions_le_def
      split: option.split intro!: table_le_put)

lemma table_le_applied:
  "table_le t (mark_committed sid i lsn (mark_appended sid ep i lsn payload t))"
proof -
  have "table_le t (mark_appended sid ep i lsn payload t)" for t
    by (auto simp: mark_appended_def Let_def positions_le_def length_trim_front intro!: table_le_put)
  moreover have "table_le t (mark_committed sid i lsn t)" for t
    by (auto simp: mark_committed_def Let_def positions_le_def intro!: table_le_put)
  ultimately show ?thesis using table_le_trans by blast
qed

subsection \<open>Every step of the engine\<close>

text \<open>What a preorder on index and stream table must satisfy to hold between the beginning and
  the end of any step of the engine: the operations that the engine uses on the two.\<close>

locale engine_order =
  fixes le :: "stream_log_index \<times> stream_state_table \<Rightarrow> stream_log_index \<times> stream_state_table \<Rightarrow> bool"
  assumes refl: "le a a" and trans: "le a b \<Longrightarrow> le b c \<Longrightarrow> le a c"
    and allocate: "allocate_append sid ep t = (res, t') \<Longrightarrow> le (i, t) (i, t')"
    and advance: "advance_consumed sid lsn t = (res', t') \<Longrightarrow> le (i, t) (i, t')"
    and rollback: "le (i, t) (i, rollback_uncommitted_append sid lsn t)"
    and applied: "le (i, t) (index_insert sid lsn loc i,
      mark_committed sid k lsn (mark_appended sid ep k lsn payload t))"
    and collect: "le (i, t) (gc_truncate ss i, t)"
begin

definition step :: "('r, 'm, 'c) engine \<Rightarrow> ('r, 'm, 'c) engine \<Rightarrow> bool" where
  "step e e' = le (eg_index e, eg_streams e) (eg_index e', eg_streams e')"

lemma step_refl [simp]: "step e e" and step_trans: "step a b \<Longrightarrow> step b c \<Longrightarrow> step a c"
  by (simp_all add: step_def refl) (rule trans)

lemma step_core: "engine_core e' = engine_core e \<Longrightarrow> step e e'"
  by (simp add: step_def engine_core_def refl)

lemma step_and_then:
  assumes "step e (snd r)" and "\<And>a s. step s (snd (f a s))"
  shows "step e (snd (and_then r f))"
  using assms by (cases r) (auto simp: and_then_def split: sum.split intro: step_trans)

lemma step_handle_client_request: "step e (snd (handle_client_request crc api req e))"
proof (cases "req_op (sreq_request req)")
  case Write
  let ?r = "sreq_request req"
  obtain res t where a: "allocate_append (req_stream_id ?r) (req_epoch ?r) (eg_streams e) = (res, t)"
    by force
  have "eg_streams (snd (raft_call f s)) = eg_streams s" "eg_index (snd (raft_call f s)) = eg_index s"
    for f :: "'a \<Rightarrow> (raft_error + unit) \<times> 'a" and s :: "('a, 'b, 'c) engine"
    using raft_call_core [of f s] by (simp_all add: engine_core_def)
  with allocate [OF a] show ?thesis
    by (auto simp: handle_client_request_def handle_write_def Write a Let_def send_not_leader_def step_def refl
        split: sum.split epoch_fence_error.split)
next
  case Read
  then show ?thesis
    by (auto simp: handle_client_request_def read_stream_def Let_def send_not_leader_def step_def refl
        split: option.split prod.split sum.split fault.split)
next
  case Ack
  obtain c t where a: "advance_consumed (req_stream_id (sreq_request req)) (req_offset (sreq_request req))
      (eg_streams e) = (c, t)" by force
  with advance [OF a] show ?thesis
    by (simp add: handle_client_request_def Ack Let_def step_def)
qed (auto simp: handle_client_request_def Let_def step_def refl split: option.split)

lemma step_process_client_requests: "step e (snd (process_client_requests crc api reqs e))"
  by (induction reqs arbitrary: e) (auto intro!: step_and_then step_handle_client_request)

lemma step_apply_append_entry: "apply_append_entry crc p api i tm cmd e = (Inr (), e') \<Longrightarrow> step e e'"
  using apply_append_entry_Inr [of crc p api i tm cmd e e'] applied
  by (auto simp: step_def engine_core_def)

lemma step_apply_committed: "apply_committed crc p api es e = (Inr (), e') \<Longrightarrow> step e e'"
proof (induction es arbitrary: e)
  case (Cons en es)
  then show ?case
    by (auto simp: and_then_Inr split: if_splits sum.splits
        intro: step_trans step_apply_append_entry)
qed simp

lemma step_drive_ready: "drive_ready crc p api e = (Inr (), e') \<Longrightarrow> step e e'"
proof (cases "ra_has_ready api (eg_store e) (eg_raft e)")
  case True
  assume "drive_ready crc p api e = (Inr (), e')"
  from drive_ready_committed [OF this True] show ?thesis
    by (meson step_apply_committed step_core step_trans)
qed (simp add: drive_ready_def)

lemma step_fail_pending: "step e (fail_pending leader ps e)"
proof (induction ps arbitrary: e)
  case (Cons p ps)
  let ?e = "e\<lparr>eg_streams := rollback_uncommitted_append (pcw_stream_id p) (pcw_stream_lsn p) (eg_streams e)\<rparr>"
  have "step e (snd (send_response conn st ep off pl ?e))" for conn st ep off pl
    by (simp add: step_def rollback)
  then show ?case using Cons.IH step_trans by (simp add: Let_def) blast
qed simp

lemma step_log_raft_state: "step e (log_raft_state_if_changed api e)"
proof -
  have "step e (fail_pending_writes_not_leader api e)"
    using step_fail_pending [of "e\<lparr>eg_pending := []\<rparr>"]
    by (auto simp: fail_pending_writes_not_leader_def Let_def step_def refl)
  then show ?thesis by (simp add: log_raft_state_if_changed_def Let_def step_def refl)
qed

lemma step_run_gc: "run_gc e = (Inr (), e') \<Longrightarrow> step e e'"
proof -
  have "gc_segments live cur ss e = (Inr (), e') \<Longrightarrow> eg_streams e' = eg_streams e \<and> eg_index e' = eg_index e"
    for live cur ss and e e' :: "('a, 'b, 'c) engine"
    by (induction ss arbitrary: e) (auto simp: Let_def split: if_splits prod.splits sum.splits)
  then show "run_gc e = (Inr (), e') \<Longrightarrow> step e e'"
    by (auto simp: run_gc_def Let_def step_def collect split: prod.splits sum.splits)
qed

lemma step_run_round:
  assumes "run_round crc p api inp e = (Inr (), e')"
  shows "step e e'"
proof -
  from run_round_Inr [OF assms] obtain e0 e1 e2 e3 where
    c0: "engine_core e0 = engine_core e" and
    e1: "e1 = (case li_wake inp of
        WakeRequests reqs \<Rightarrow> snd (process_client_requests crc api reqs e0)
      | WakeRaft ms \<Rightarrow> snd (process_raft_messages api ms e0) | WakeTimer \<Rightarrow> e0)" and
    c2: "engine_core e2 = engine_core e1" and drive: "drive_ready crc p api e2 = (Inr (), e3)" and
    gc: "(if li_gc_due inp then run_gc (log_raft_state_if_changed api e3)
      else (Inr (), log_raft_state_if_changed api e3)) = (Inr (), e')" by blast
  have "step e0 e1" unfolding e1
    by (auto split: wake_up.split intro: step_process_client_requests step_core)
  moreover have "step (log_raft_state_if_changed api e3) e'"
    using gc step_run_gc by (auto split: if_splits)
  ultimately show ?thesis
    using step_core [OF c0] step_core [OF c2] step_drive_ready [OF drive] step_log_raft_state [of e3 api]
      step_trans by metis
qed

lemma step_engine_reaches: "engine_reaches crc p api e k e' \<Longrightarrow> step e e'"
  by (induction rule: engine_reaches.induct) (auto intro: step_trans step_run_round)

end

text \<open>The positions of the streams are such an order, and so is keeping the tables well-formed.\<close>

interpretation positions: engine_order "\<lambda>(i, t) (i', t'). table_le t t'"
  by unfold_locales
    (auto intro: table_le_trans table_le_allocate table_le_advance table_le_rollback table_le_applied)

definition tables_ok :: "stream_log_index \<times> stream_state_table \<Rightarrow> bool" where
  "tables_ok = (\<lambda>(i, t). index_ok i \<and> streams_ok t)"

lemma index_ok_gc_truncate: "index_ok i \<Longrightarrow> index_ok (gc_truncate ss i)"
  unfolding gc_truncate_def by (induction ss arbitrary: i) (auto intro: index_ok_truncate)

lemma table_le_streams_ok: "table_le t t' \<Longrightarrow> streams_ok t \<Longrightarrow> streams_ok t'"
  by (simp add: table_le_def)

interpretation tables: engine_order "\<lambda>a b. tables_ok a \<longrightarrow> tables_ok b"
  by unfold_locales
    (auto simp: tables_ok_def index_ok_gc_truncate intro: index_ok_insert
      table_le_streams_ok [OF table_le_allocate] table_le_streams_ok [OF table_le_advance]
      table_le_streams_ok [OF table_le_rollback] table_le_streams_ok [OF table_le_applied])

lemma apply_append_entry_grows:
  "apply_append_entry crc p api i tm cmd e = (Inr (), e') \<Longrightarrow> table_le (eg_streams e) (eg_streams e')"
  using positions.step_apply_append_entry by (simp add: positions.step_def)

lemma engine_reaches_grows: "engine_reaches crc p api e k e' \<Longrightarrow> table_le (eg_streams e) (eg_streams e')"
  using positions.step_engine_reaches by (simp add: positions.step_def)

text \<open>
  The positions of a stream never go back. Over any number of rounds of the main loop,
  whatever clients, raft and the disks do, and through every loss of leadership with its
  rollbacks, the epoch fence, the committed position, the consumption watermark and the last
  entry of every stream are at least what they were.
\<close>

theorem positions_never_go_back:
  assumes "streams_ok (eg_streams e)" and "engine_reaches crc p api e k e'"
  shows "streams_ok (eg_streams e') \<and>
    positions_le (ensure_stream sid (eg_streams e)) (ensure_stream sid (eg_streams e'))"
  using engine_reaches_grows [OF assms(2)] assms(1) by (simp add: table_le_def)

lemma positions_never_go_back_witness:
  "\<exists>e'. engine_reaches demo_crc demo_proto (demo_api Leader [cmd_entry 11 (demo_cmd 1)])
      (demo_engine 4 []) 1 e' \<and> 3 \<le> sr_max_epoch (ensure_stream 7 (eg_streams e'))"
proof -
  obtain e' where "run_round demo_crc demo_proto (demo_api Leader [cmd_entry 11 (demo_cmd 1)])
      (timer_round False) (demo_engine 4 []) = (Inr (), e')" using demo_round by blast
  then have reach: "engine_reaches demo_crc demo_proto (demo_api Leader [cmd_entry 11 (demo_cmd 1)])
      (demo_engine 4 []) 1 e'" using reach_round [OF reach_start] by (metis One_nat_def)
  from positions_never_go_back [OF _ this, of 7] reach show ?thesis
    by (auto simp: demo_streams_ok positions_le_def)
qed

lemma replay_caches:
  "hm_ok (st_streams (rp_streams s)) \<Longrightarrow> caches_within (rp_streams s) \<Longrightarrow>
   st_tail_cache_limit (rp_streams (replay_log base l s)) = st_tail_cache_limit (rp_streams s) \<and>
   caches_within (rp_streams (replay_log base l s))"
proof (induction l arbitrary: s)
  case (Cons x l)
  obtain loc r where x: "x = (loc, r)" by (cases x)
  let ?s = "replay_record base loc r s"
  have "st_tail_cache_limit (rp_streams ?s) = st_tail_cache_limit (rp_streams s) \<and>
      hm_ok (st_streams (rp_streams ?s)) \<and> caches_within (rp_streams ?s)"
    using Cons.prems length_trim_front
    by (auto simp: replay_record_def observe_recovered_def Let_def caches_within_def)
  with Cons.IH [of ?s] x show ?case by simp
qed simp

text \<open>
  C33: The memory for recent records is bounded. In an engine opened on a directory with segments,
  after any number of rounds no stream's tail cache holds more records than the configured
  limit, whatever was replayed at the opening and applied since.
\<close>

theorem tail_caches_bounded:
  assumes "stores crc shard segs d" and "segs \<noteq> []"
    and "engine_open crc p new_node voters shard cfg now rd d = (Inr e, rd', d')"
    and "engine_reaches crc p api e k e'"
  shows "length (sr_tail_cache (ensure_stream sid (eg_streams e'))) \<le> cfg_tail_cache_entries cfg"
proof -
  let ?limit = "cfg_tail_cache_entries cfg"
  from engine_open_Inr [OF assms(3)] obtain st t w idx t' where
    t: "decode_snapshot ?limit (sn_data (ps_snapshot st)) = Inr t" and
    w: "writer_open crc now shard (cfg_segment_max_bytes cfg) ?limit (Some t) (snap_index st) d =
      (Inr (w, idx, t'), d')" and e: "eg_streams e = t'" "eg_store e = st" by blast
  note o = writer_open_stores(1) [OF assms(1,2) refl w]
  have limit: "st_tail_cache_limit t = ?limit"
    using t by (auto simp: decode_snapshot_def Let_def table_new_def split: if_splits sum.splits)
  have "caches_within t"
    using decode_snapshot_ok [OF t, of "[]"] by (auto simp: caches_within_def cache_applied_def is_applied_def)
  moreover have "hm_ok (st_streams t)" using decode_snapshot_ok [OF t, of "[]"] streams_okD(1) by blast
  ultimately have "st_tail_cache_limit t' = ?limit \<and> caches_within t'"
    using replay_caches [of "replay_init (recovered_from ?limit (Some t))" "snap_index st" "wal_log segs"] o limit
    by (simp add: replay_init_def recovered_from_def)
  moreover have "streams_ok t'" using opened_tables [OF t refl] o by simp
  ultimately show ?thesis
    using engine_reaches_grows [OF assms(4)] by (auto simp: table_le_def e(1) caches_within_def)
qed

lemma tail_caches_bounded_witness:
  "\<exists>(e :: (nat, nat, u64) engine) rd'. engine_open demo_crc demo_proto (\<lambda>_. Inr 0) (\<lambda>_. 5) 1 default_config 5
     (demo_raft_disk []) (demo_disk demo_segment) = (Inr e, rd', demo_disk demo_segment) \<and>
   length (sr_tail_cache (ensure_stream 7 (eg_streams e))) \<le> 128"
proof -
  obtain e :: "(nat, nat, u64) engine" and rd' where e: "engine_open demo_crc demo_proto (\<lambda>_. Inr 0) (\<lambda>_. 5) 1
      default_config 5 (demo_raft_disk []) (demo_disk demo_segment) = (Inr e, rd', demo_disk demo_segment)"
    using demo_open by blast
  from tail_caches_bounded [OF demo_stores _ e reach_start, of 7] e show ?thesis
    by (auto simp: default_config_def)
qed

subsection \<open>The fence\<close>

definition same_streams :: "stream_state_table \<Rightarrow> stream_state_table \<Rightarrow> bool" where
  "same_streams t t' = (\<forall>sid. ensure_stream sid t' = ensure_stream sid t)"

definition write_req :: "u64 \<Rightarrow> u64 \<Rightarrow> shard_request" where
  "write_req sid ep = \<lparr>sreq_connection_id = 9, sreq_request =
     \<lparr>req_op = Write, req_stream_id = sid, req_epoch = ep, req_offset = 0, req_payload = [98]\<rparr>\<rparr>"

text \<open>
  C7: A fenced writer stays fenced. Once a record of a stream with some epoch has been applied
  on a node, then in every later round a write to that stream with a lower epoch is refused:
  it gets exactly one answer, \<open>ErrEpochFenced\<close> with the fence (at least that epoch) on a leader
  and \<open>ErrNotLeader\<close> with the leader's id otherwise; nothing is proposed to raft, nothing becomes
  pending, no LSN is used up and no stream changes.
\<close>

theorem fenced_writer_stays_fenced:
  assumes ok: "streams_ok (eg_streams e0)"
    and applied: "apply_append_entry crc p api i tm cmd e0 = (Inr (), e)"
    and reach: "engine_reaches crc p api e k e'"
    and req: "req_op (sreq_request req) = Write" "req_stream_id (sreq_request req) = cmd_stream_id cmd"
      "req_epoch (sreq_request req) < cmd_epoch cmd"
  shows "\<exists>rsp e''. handle_client_request crc api req e' = (Inr (), e'') \<and>
    eg_offered e'' = eg_offered e' @ [rsp] \<and>
    (\<exists>fence. cmd_epoch cmd \<le> fence \<and> rsp =
      (if ra_role api (eg_raft e') = Leader then answer (sreq_connection_id req) ErrEpochFenced fence 0 []
       else answer (sreq_connection_id req) ErrNotLeader 0 (ra_leader_id api (eg_raft e')) [])) \<and>
    eg_raft e'' = eg_raft e' \<and> eg_pending e'' = eg_pending e' \<and>
    eg_request_seq e'' = eg_request_seq e' \<and> same_streams (eg_streams e') (eg_streams e'')"
proof -
  let ?sid = "cmd_stream_id cmd"
  let ?fence = "sr_max_epoch (ensure_stream ?sid (eg_streams e'))"
  from apply_append_entry_Inr [OF applied] have "eg_streams e =
      mark_committed ?sid i (cmd_stream_lsn cmd) (mark_appended ?sid (cmd_epoch cmd) i (cmd_stream_lsn cmd)
        (cmd_payload cmd) (eg_streams e0))"
    by (auto simp: engine_core_def)
  then have "cmd_epoch cmd \<le> sr_max_epoch (ensure_stream ?sid (eg_streams e))" and okd: "streams_ok (eg_streams e)"
    using ok apply_append_entry_grows [OF applied]
    by (simp_all add: table_le_def observe_recovered_applied [symmetric] ensure_observe
        streams_okD Let_def)
  moreover have "streams_ok (eg_streams e')" and "sr_max_epoch (ensure_stream ?sid (eg_streams e)) \<le> ?fence"
    using engine_reaches_grows [OF reach] okd by (simp_all add: table_le_def positions_le_def)
  ultimately have ok': "streams_ok (eg_streams e')" and fence: "cmd_epoch cmd \<le> ?fence"
    by (auto intro: order_trans)
  then have stale: "allocate_append ?sid (req_epoch (sreq_request req)) (eg_streams e') =
      (Inl (Stale ?fence (req_epoch (sreq_request req))), put_stream ?sid (ensure_stream ?sid (eg_streams e')) (eg_streams e'))"
    using req(3) by (auto simp: allocate_append_def Let_def)
  let ?h = "handle_client_request crc api req e'"
  let ?rsp = "if ra_role api (eg_raft e') = Leader then answer (sreq_connection_id req) ErrEpochFenced ?fence 0 []
    else answer (sreq_connection_id req) ErrNotLeader 0 (ra_leader_id api (eg_raft e')) []"
  have "fst ?h = Inr () \<and> eg_offered (snd ?h) = eg_offered e' @ [?rsp] \<and> eg_raft (snd ?h) = eg_raft e' \<and>
      eg_pending (snd ?h) = eg_pending e' \<and> eg_request_seq (snd ?h) = eg_request_seq e' \<and>
      same_streams (eg_streams e') (eg_streams (snd ?h))"
    using streams_okD(1) [OF ok']
    by (auto simp: handle_client_request_def handle_write_def req stale Let_def send_not_leader_def
        same_streams_def)
  then show ?thesis
    using fence by (cases ?h, intro exI [of _ ?rsp] exI [of _ "snd ?h"]) auto
qed

lemma fenced_writer_stays_fenced_witness:
  "\<exists>e e'' fence. apply_append_entry demo_crc demo_proto (demo_api Leader []) 11 1 (demo_cmd 1)
      (demo_engine 4 []) = (Inr (), e) \<and>
    handle_client_request demo_crc (demo_api Leader []) (write_req 7 2) e = (Inr (), e'') \<and>
    eg_offered e'' = eg_offered e @ [answer 9 ErrEpochFenced fence 0 []] \<and> 3 \<le> fence"
proof -
  have calm: "dk_faults (eg_disk (demo_engine 4 [])) = []" by (simp add: demo_disk_def)
  from apply_append_entry_calm [OF demo_engine_ok _ calm can_snapshotI [OF demo_between [of Leader "[]"]], where
      p = demo_proto and i = 11 and tm = 1 and cmd = "demo_cmd 1"]
  obtain e where run: "apply_append_entry demo_crc demo_proto (demo_api Leader []) 11 1 (demo_cmd 1)
      (demo_engine 4 []) = (Inr (), e)" by auto
  have "streams_ok (eg_streams (demo_engine 4 []))" by (simp add: demo_streams_ok)
  from fenced_writer_stays_fenced [OF this run reach_start, of "write_req 7 2"] run show ?thesis
    by (auto simp: write_req_def demo_cmd_def word_less_nat_alt)
qed

subsection \<open>Losing the leadership\<close>

lemma drain_order_spec:
  "mset (drain_order ps) = mset ps"
  "filter (\<lambda>p. pcw_stream_id p = sid) (drain_order ps) =
     sort_key (\<lambda>p. 2 ^ 64 - unat (pcw_stream_lsn p)) (filter (\<lambda>p. pcw_stream_id p = sid) ps)"
  by (simp_all add: drain_order_def sort_key_stable filter_sort)

definition rollback_pending :: "pending_client_write \<Rightarrow> stream_state_table \<Rightarrow> stream_state_table" where
  "rollback_pending p = rollback_uncommitted_append (pcw_stream_id p) (pcw_stream_lsn p)"

lemma fail_pending_effect:
  "eg_streams (fail_pending leader ps e) = fold rollback_pending ps (eg_streams e)"
  "eg_offered (fail_pending leader ps e) = eg_offered e @
     map (\<lambda>p. answer (pcw_connection_id p) ErrNotLeader (pcw_epoch p) leader []) ps"
  "eg_pending (fail_pending leader ps e) = eg_pending e"
  "eg_raft (fail_pending leader ps e) = eg_raft e"
  by (induction ps arbitrary: e) (simp_all add: Let_def rollback_pending_def)

lemma u64_bound: "unat (x :: u64) < 2 ^ 64"
proof -
  have "unat x < 2 ^ LENGTH(64)" by (rule unsigned_less)
  then show ?thesis by simp
qed

text \<open>The effect on one stream, and of all of them in a row.\<close>

definition rb_state :: "pending_client_write \<Rightarrow> stream_replica_state \<Rightarrow> stream_replica_state" where
  "rb_state p st =
     (if sr_next_stream_lsn st = saturating_add (pcw_stream_lsn p) 1 \<and>
         sr_commit_stream_lsn st \<le> pcw_stream_lsn p
      then st\<lparr>sr_next_stream_lsn := pcw_stream_lsn p\<rparr> else st)"

lemma saturating_add_pos: "saturating_add a 1 \<noteq> 0"
  using unat_add_1 [of a] by (auto simp: saturating_add_def word_unat_eq_iff [of "a + 1"])

lemma ensure_rolled_back:
  assumes "streams_ok t"
  shows "streams_ok (rollback_pending p t)"
    and "ensure_stream sid (rollback_pending p t) =
      (if pcw_stream_id p = sid then rb_state p (ensure_stream sid t) else ensure_stream sid t)"
  using table_le_rollback [of t] assms saturating_add_pos [of "pcw_stream_lsn p"]
  by (auto simp: table_le_def rollback_pending_def rollback_uncommitted_append_def Let_def streams_okD(1)
      rb_state_def ensure_stream_def replica_new_def split: option.splits)

lemma ensure_rollbacks:
  "streams_ok t \<Longrightarrow> ensure_stream sid (fold rollback_pending ps t) =
     fold rb_state (filter (\<lambda>p. pcw_stream_id p = sid) ps) (ensure_stream sid t)"
  by (induction ps arbitrary: t) (auto simp: ensure_rolled_back)

lemma rb_states_top:
  assumes "map (unat \<circ> pcw_stream_lsn) ps = rev [b ..< n]" and "unat (sr_next_stream_lsn st) = n"
    and "unat (sr_commit_stream_lsn st) \<le> b" and "b \<le> n"
  shows "fold rb_state ps st = st\<lparr>sr_next_stream_lsn := of_nat b\<rparr>"
  using assms
proof (induction ps arbitrary: n st)
  case Nil
  then have "n = b" by auto
  then have "sr_next_stream_lsn st = of_nat b" using Nil.prems(2) by auto
  then show ?case by (cases st) simp
next
  case (Cons p ps)
  then obtain m where n: "n = Suc m" "b \<le> m"
    by (cases n) (auto split: if_splits)
  then have p: "unat (pcw_stream_lsn p) = m" "map (unat \<circ> pcw_stream_lsn) ps = rev [b ..< m]"
    using Cons.prems(1) by (auto simp: comp_def)
  have "Suc m < 2 ^ 64" using Cons.prems(2) u64_bound [of "sr_next_stream_lsn st"] n by simp
  then have "saturating_add (pcw_stream_lsn p) 1 = sr_next_stream_lsn st"
    using Cons.prems(2) n p by (simp add: saturating_add_def word_unat_eq_iff [of "_ + 1"] unat_add_1)
  then have "rb_state p st = st\<lparr>sr_next_stream_lsn := pcw_stream_lsn p\<rparr>"
    using Cons.prems(3) n p by (simp add: rb_state_def word_le_nat_alt)
  with Cons.IH [OF p(2), of "st\<lparr>sr_next_stream_lsn := pcw_stream_lsn p\<rparr>"] p Cons.prems(3) n show ?case
    by simp
qed

lemma desc_key: "2 ^ 64 - unat p \<le> 2 ^ 64 - unat q \<Longrightarrow> unat (q :: u64) \<le> unat (p :: u64)"
  using u64_bound [of p] u64_bound [of q] by simp

lemma drained_lsns:
  assumes "distinct (map pcw_stream_lsn ps)" and "unat ` set (map pcw_stream_lsn ps) = {b ..< n}"
  shows "map (unat \<circ> pcw_stream_lsn) (sort_key (\<lambda>p. 2 ^ 64 - unat (pcw_stream_lsn p)) ps) = rev [b ..< n]"
    (is "?l = _")
proof -
  let ?s = "sort_key (\<lambda>p. 2 ^ 64 - unat (pcw_stream_lsn p)) ps"
  have "sorted (map (\<lambda>p. 2 ^ 64 - unat (pcw_stream_lsn p)) ?s)" by simp
  then have "sorted_wrt (\<lambda>p q. unat (pcw_stream_lsn q) \<le> unat (pcw_stream_lsn p)) ?s"
    unfolding sorted_map
    by (rule sorted_wrt_mono_rel [rotated]) (rule desc_key)
  then have "sorted (rev ?l)" by (simp add: sorted_wrt_rev sorted_wrt_map)
  moreover have "distinct (rev ?l)"
  proof -
    have "distinct (map pcw_stream_lsn ?s)" using assms(1) by (simp add: distinct_map)
    then show ?thesis by (auto simp: distinct_map inj_on_def word_unat_eq_iff)
  qed
  moreover have "set (rev ?l) = set [b ..< n]" using assms(2) by (auto simp: image_image image_comp)
  ultimately have "rev ?l = [b ..< n]" by (intro sorted_distinct_set_unique) auto
  then show ?thesis by (simp add: rev_swap)
qed

text \<open>
  C15: Losing the leadership answers everyone and gives the LSNs back. When a node that was the
  leader finds that it no longer is, every pending write gets exactly one answer
  \<open>ErrNotLeader\<close> with its epoch and the new leader's id, and none stays pending; and if the
  pending LSNs of a stream are the ones between some position at or above the committed one and
  the next LSN (those handed out and not yet committed), then the next LSN of the stream falls
  back to that position exactly, whatever the order in which the hash map yields the writes;
  nothing else of the stream changes.
\<close>

theorem step_down_rolls_back:
  assumes ok: "streams_ok (eg_streams e)"
    and lost: "eg_observed_role e = Leader" "ra_role api (eg_raft e) \<noteq> Leader"
    and e': "e' = log_raft_state_if_changed api e"
    and mine: "mine = filter (\<lambda>p. pcw_stream_id p = sid) (hm_values (eg_pending e))"
    and top: "distinct (map pcw_stream_lsn mine)"
      "unat ` set (map pcw_stream_lsn mine) = {b ..< unat (sr_next_stream_lsn (ensure_stream sid (eg_streams e)))}"
      "unat (sr_commit_stream_lsn (ensure_stream sid (eg_streams e))) \<le> b"
      "b \<le> unat (sr_next_stream_lsn (ensure_stream sid (eg_streams e)))"
  shows "eg_pending e' = [] \<and>
    (\<exists>ps. mset ps = mset (hm_values (eg_pending e)) \<and> eg_offered e' = eg_offered e @
       map (\<lambda>p. answer (pcw_connection_id p) ErrNotLeader (pcw_epoch p) (ra_leader_id api (eg_raft e)) []) ps) \<and>
    ensure_stream sid (eg_streams e') =
      (ensure_stream sid (eg_streams e))\<lparr>sr_next_stream_lsn := of_nat b\<rparr>"
proof -
  let ?ps = "drain_order (hm_values (eg_pending e))"
  have "e' = (fail_pending_writes_not_leader api e)\<lparr>eg_observed_role := ra_role api (eg_raft e),
      eg_observed_leader := ra_leader_id api (eg_raft e)\<rparr>"
    using lost by (simp add: e' log_raft_state_if_changed_def Let_def)
  moreover have "eg_pending e = [] \<Longrightarrow> ?ps = []" by (simp add: drain_order_def hm_values_def)
  ultimately have fields: "eg_pending e' = []"
    "eg_streams e' = fold rollback_pending ?ps (eg_streams e)"
    "eg_offered e' = eg_offered e @
       map (\<lambda>p. answer (pcw_connection_id p) ErrNotLeader (pcw_epoch p) (ra_leader_id api (eg_raft e)) []) ?ps"
    by (auto simp: fail_pending_writes_not_leader_def Let_def fail_pending_effect)
  have "ensure_stream sid (eg_streams e') =
      fold rb_state (sort_key (\<lambda>p. 2 ^ 64 - unat (pcw_stream_lsn p)) mine) (ensure_stream sid (eg_streams e))"
    by (simp add: fields ensure_rollbacks [OF ok] drain_order_spec mine)
  also have "\<dots> = (ensure_stream sid (eg_streams e))\<lparr>sr_next_stream_lsn := of_nat b\<rparr>"
    using drained_lsns [OF top(1,2)] top(3,4) by (intro rb_states_top) auto
  finally show ?thesis using fields drain_order_spec(1) by blast
qed

definition waiting :: "u64 \<Rightarrow> u64 \<Rightarrow> pending_client_write" where
  "waiting conn lsn = \<lparr>pcw_connection_id = conn, pcw_stream_id = 7, pcw_epoch = 3, pcw_stream_lsn = lsn\<rparr>"

definition deposed :: "(nat, nat, u64) engine" where
  "deposed = (demo_engine 4 [(2, waiting 8 1), (3, waiting 9 2)])\<lparr>eg_streams :=
     snd (allocate_append 7 3 (snd (allocate_append 7 3 (demo_streams 4))))\<rparr>"

lemma step_down_rolls_back_witness:
  "let e' = log_raft_state_if_changed (demo_api Follower []) deposed in
     eg_pending e' = [] \<and> length (eg_offered e') = 2 \<and>
     sr_next_stream_lsn (ensure_stream 7 (eg_streams deposed)) = 3 \<and>
     sr_next_stream_lsn (ensure_stream 7 (eg_streams e')) = 1"
proof -
  have ok: "streams_ok (demo_streams 4)" by (rule demo_streams_ok)
  obtain r1 t1 where a1: "allocate_append 7 3 (demo_streams 4) = (r1, t1)" by force
  obtain r2 t2 where a2: "allocate_append 7 3 t1 = (r2, t2)" by force
  have ok1: "streams_ok t1" "streams_ok t2"
    using table_le_allocate [OF a1] table_le_allocate [OF a2] ok by (simp_all add: table_le_def)
  have "ensure_stream 7 t1 = (ensure_stream 7 (demo_streams 4))\<lparr>sr_next_stream_lsn := 2\<rparr>"
    using ensure_allocate [OF streams_okD(1) [OF ok], of 7 7 3] by (simp add: a1 demo_streams_ok)
  then have t2: "ensure_stream 7 t2 = (ensure_stream 7 (demo_streams 4))\<lparr>sr_next_stream_lsn := 3\<rparr>"
    using ensure_allocate [OF streams_okD(1) [OF ok1(1)], of 7 7 3] by (simp add: a2 demo_streams_ok)
  have d: "eg_streams deposed = t2" "eg_pending deposed = [(2, waiting 8 1), (3, waiting 9 2)]"
    "eg_observed_role deposed = Leader" "eg_offered deposed = []"
    by (simp_all add: deposed_def a1 a2)
  have mine: "[waiting 8 1, waiting 9 2] = filter (\<lambda>p. pcw_stream_id p = 7) (hm_values (eg_pending deposed))"
    by (simp add: d hm_values_def waiting_def)
  have "{1 ..< 3 :: nat} = {1, 2}" by auto
  then have top: "unat ` set (map pcw_stream_lsn [waiting 8 1, waiting 9 2]) =
      {1 ..< unat (sr_next_stream_lsn (ensure_stream 7 (eg_streams deposed)))}"
    by (simp add: d t2 waiting_def)
  have "distinct (map pcw_stream_lsn [waiting 8 1, waiting 9 2])" by (simp add: waiting_def)
  from step_down_rolls_back [OF _ d(3) _ refl mine this top, of "demo_api Follower []"] ok1 obtain ps where
    e': "eg_pending (log_raft_state_if_changed (demo_api Follower []) deposed) = []"
      "mset ps = mset (hm_values (eg_pending deposed))"
      "length (eg_offered (log_raft_state_if_changed (demo_api Follower []) deposed)) = length ps"
      "ensure_stream 7 (eg_streams (log_raft_state_if_changed (demo_api Follower []) deposed)) =
        (ensure_stream 7 (eg_streams deposed))\<lparr>sr_next_stream_lsn := of_nat 1\<rparr>"
    by (auto simp: d(1,4) t2 demo_streams_ok)
  have "length ps = 2" using mset_eq_length [OF e'(2)] by (simp add: d hm_values_def)
  with e' show ?thesis by (simp add: d t2 Let_def)
qed

end
