(* ===== verification/EngineGaps.thy ===== *)
theory EngineGaps
  imports EngineWrites
begin

text \<open>
  Where the engine does not do what it means to: each property here is a run of the code in
  which a client is told something untrue or committed data goes missing. They are theorems
  of the model, each with a concrete run as its witness.
\<close>

subsection \<open>Request ids\<close>

lemma handle_write_admitted:
  assumes "streams_ok (eg_streams e)" and "ra_role api (eg_raft e) = Leader"
    and "req_op (sreq_request req) = Write"
    and "sr_max_epoch (ensure_stream (req_stream_id (sreq_request req)) (eg_streams e)) \<le>
      req_epoch (sreq_request req)"
    and run: "handle_client_request crc api req e = (Inr (), e')"
  defines "lsn \<equiv> sr_next_stream_lsn (ensure_stream (req_stream_id (sreq_request req)) (eg_streams e))"
  shows "eg_pending e' = hm_insert (eg_request_seq e + 1)
      \<lparr>pcw_connection_id = sreq_connection_id req, pcw_stream_id = req_stream_id (sreq_request req),
       pcw_epoch = req_epoch (sreq_request req), pcw_stream_lsn = lsn\<rparr> (eg_pending e)"
    and "eg_offered e' = eg_offered e"
    and "engine_core e' = engine_core (e\<lparr>eg_streams := snd (allocate_append
      (req_stream_id (sreq_request req)) (req_epoch (sreq_request req)) (eg_streams e))\<rparr>)"
    and "eg_response_sends e' = eg_response_sends e"
proof -
  let ?r = "sreq_request req"
  obtain t where a: "allocate_append (req_stream_id ?r) (req_epoch ?r) (eg_streams e) = (Inr lsn, t)"
    using assms(4) by (cases "req_epoch ?r < sr_max_epoch (ensure_stream (req_stream_id ?r) (eg_streams e))")
      (simp_all add: allocate_append_def Let_def lsn_def)
  have fields: "eg_pending (snd (raft_call f s)) = eg_pending s" "eg_offered (snd (raft_call f s)) = eg_offered s"
    "eg_response_sends (snd (raft_call f s)) = eg_response_sends s"
    for f :: "'a \<Rightarrow> (raft_error + unit) \<times> 'a" and s :: "('a, 'b, 'c) engine"
    by (auto simp: raft_call_def map_err_def split: prod.splits sum.splits)
  have e': "e' = snd (handle_client_request crc api req e)" by (simp add: run)
  show "eg_pending e' = hm_insert (eg_request_seq e + 1)
      \<lparr>pcw_connection_id = sreq_connection_id req, pcw_stream_id = req_stream_id ?r,
       pcw_epoch = req_epoch ?r, pcw_stream_lsn = lsn\<rparr> (eg_pending e)"
    and "eg_offered e' = eg_offered e" and "eg_response_sends e' = eg_response_sends e"
    unfolding e' by (simp_all add: handle_client_request_def handle_write_def assms(2,3) a Let_def fields)
  show "engine_core e' = engine_core (e\<lparr>eg_streams := snd (allocate_append
      (req_stream_id ?r) (req_epoch ?r) (eg_streams e))\<rparr>)"
    unfolding e' by (simp add: handle_client_request_def handle_write_def assms(2,3) a Let_def)
      (simp add: engine_core_def)
qed

text \<open>What an apply does to the answers and the pending writes, the snapshot step included.\<close>

lemma maybe_snapshot_fields:
  "eg_offered (snd (maybe_snapshot_raft_state p api e)) = eg_offered e"
  "eg_delivered (snd (maybe_snapshot_raft_state p api e)) = eg_delivered e"
  "eg_pending (snd (maybe_snapshot_raft_state p api e)) = eg_pending e"
  by (auto simp: maybe_snapshot_raft_state_def and_then_def store_call_def map_err_def Let_def
      split: prod.splits sum.splits)

lemma apply_append_entry_answers:
  assumes "apply_append_entry crc p api i tm cmd e = (Inr (), e')"
  shows "eg_offered e' = eg_offered e @
      (case hm_get (eg_pending e) (cmd_request_id cmd) of Some q \<Rightarrow> [ack q] | None \<Rightarrow> [])"
    and "eg_pending e' = hm_remove (cmd_request_id cmd) (eg_pending e)"
    and "hm_get (eg_pending e) (cmd_request_id cmd) = Some q \<Longrightarrow> eg_response_sends e = s # ss \<Longrightarrow>
      s \<noteq> SendOk \<Longrightarrow> eg_delivered e' = eg_delivered e"
proof -
  from assms obtain el e1 u e2 where
    w: "wal_call (append_write crc (cmd_write (eg_now e) i cmd)) e = (Inr el, e1)"
      "wal_call (\<lambda>(w, d). beside w (writer_sync w d)) e1 = (Inr u, e2)" and
    r: "e' = snd (apply_append_entry crc p api i tm cmd e)"
    by (auto simp: apply_append_entry_def append_as_write and_then_Inr)
  have same: "eg_offered e2 = eg_offered e" "eg_pending e2 = eg_pending e" "eg_delivered e2 = eg_delivered e"
    "eg_response_sends e2 = eg_response_sends e"
    using w by (auto simp: wal_call_def map_err_def split: prod.splits sum.splits)
  show "eg_offered e' = eg_offered e @
      (case hm_get (eg_pending e) (cmd_request_id cmd) of Some q \<Rightarrow> [ack q] | None \<Rightarrow> [])"
    and "eg_pending e' = hm_remove (cmd_request_id cmd) (eg_pending e)"
    by (auto simp: r apply_append_entry_def append_as_write w Let_def maybe_snapshot_fields same ack_def
        hm_remove_absent split: option.split)
  show "hm_get (eg_pending e) (cmd_request_id cmd) = Some q \<Longrightarrow> eg_response_sends e = s # ss \<Longrightarrow>
      s \<noteq> SendOk \<Longrightarrow> eg_delivered e' = eg_delivered e"
    by (cases s) (auto simp: r apply_append_entry_def append_as_write w Let_def maybe_snapshot_fields same
        send_response_def)
qed

text \<open>
  C37: A restarted leader acknowledges a write that is not committed. Request ids are a counter
  that starts at 0 in every process, and a committed entry is matched with the pending writes
  by this number alone. So when a node that has just been opened (counter 0) leads, takes a
  write to one stream, and then applies an entry of another stream that an earlier leader or
  an earlier process of its own proposed with its own number 1, the client of the first stream
  is answered \<open>Ok\<close> with its epoch and LSN: its write is no longer pending, and nothing of its
  stream has been committed.
\<close>

theorem restarted_leader_acks_uncommitted_write:
  assumes "streams_ok (eg_streams e)" and "eg_request_seq e = 0" and "ra_role api (eg_raft e) = Leader"
    and "req_op (sreq_request req) = Write"
    and "sr_max_epoch (ensure_stream (req_stream_id (sreq_request req)) (eg_streams e)) \<le>
      req_epoch (sreq_request req)"
    and written: "handle_client_request crc api req e = (Inr (), e1)"
    and foreign: "cmd_request_id cmd = 1" "cmd_stream_id cmd \<noteq> req_stream_id (sreq_request req)"
    and applied: "apply_append_entry crc p api i tm cmd e1 = (Inr (), e2)"
    and fresh: "hm_ok (eg_pending e)"
  shows "eg_offered e2 = eg_offered e @ [answer (sreq_connection_id req) Ok (req_epoch (sreq_request req))
      (sr_next_stream_lsn (ensure_stream (req_stream_id (sreq_request req)) (eg_streams e))) []] \<and>
    hm_get (eg_pending e2) 1 = None \<and>
    sr_commit_stream_lsn (ensure_stream (req_stream_id (sreq_request req)) (eg_streams e2)) =
      sr_commit_stream_lsn (ensure_stream (req_stream_id (sreq_request req)) (eg_streams e))"
proof -
  let ?sid = "req_stream_id (sreq_request req)"
  note adm = handle_write_admitted [OF assms(1,3-5) written]
  note ans = apply_append_entry_answers [OF applied]
  have "eg_streams e1 = snd (allocate_append ?sid (req_epoch (sreq_request req)) (eg_streams e))"
    using adm(3) by (simp add: engine_core_def)
  moreover from this have ok1: "hm_ok (st_streams (eg_streams e1))"
    using streams_okD(1) [OF assms(1)] by (auto simp: allocate_append_def Let_def)
  moreover from apply_append_entry_Inr [OF applied] ok1 have "ensure_stream ?sid (eg_streams e2) =
      ensure_stream ?sid (eg_streams e1)"
    using foreign(2) by (auto simp: engine_core_def observe_recovered_applied [symmetric] ensure_observe)
  ultimately have "sr_commit_stream_lsn (ensure_stream ?sid (eg_streams e2)) =
      sr_commit_stream_lsn (ensure_stream ?sid (eg_streams e))"
    using ensure_allocate [OF streams_okD(1) [OF assms(1)]] by simp
  then show ?thesis
    using ans(1,2) adm(1,2) assms(2) foreign(1) fresh by (simp add: ack_def)
qed

text \<open>A request of the example leader, written out, and the two applies that follow it.\<close>

definition after_write :: "u64 \<Rightarrow> u64 \<Rightarrow> (nat, nat, u64) engine" where
  "after_write seq sid = snd (handle_client_request demo_crc (demo_api Leader []) (write_req sid 5)
     ((demo_engine 4 [])\<lparr>eg_request_seq := seq\<rparr>))"

lemma after_write:
  "handle_client_request demo_crc (demo_api Leader []) (write_req sid 5)
     ((demo_engine 4 [])\<lparr>eg_request_seq := seq\<rparr>) = (Inr (), after_write seq sid)"
  "engine_ok demo_crc [demo_cmd 0] [demo_segment] (after_write seq sid)"
  "dk_faults (eg_disk (after_write seq sid)) = []"
  "eg_writer (after_write seq sid) = demo_writer"
  "between_snapshots (demo_api Leader []) (after_write seq sid)"
proof -
  let ?e = "(demo_engine 4 [])\<lparr>eg_request_seq := seq\<rparr>"
  have "\<not> 5 < sr_max_epoch (ensure_stream sid (demo_streams 4))"
    by (cases "sid = 7") (simp_all add: demo_streams_ok replica_new_def)
  then have "\<exists>t. allocate_append sid 5 (demo_streams 4) = (Inr (sr_next_stream_lsn (ensure_stream sid (demo_streams 4))), t)"
    by (simp add: allocate_append_def Let_def)
  then obtain lsn t where "allocate_append sid 5 (demo_streams 4) = (Inr lsn, t)" by blast
  then show "handle_client_request demo_crc (demo_api Leader []) (write_req sid 5) ?e = (Inr (), after_write seq sid)"
    and "dk_faults (eg_disk (after_write seq sid)) = []" and "eg_writer (after_write seq sid) = demo_writer"
    and "between_snapshots (demo_api Leader []) (after_write seq sid)"
    using demo_between [of Leader "[]" 4 "[]"]
    by (simp_all add: after_write_def handle_client_request_def handle_write_def write_req_def Let_def
        raft_call_def map_err_def demo_disk_def between_snapshots_def)
  have "engine_ok demo_crc [demo_cmd 0] [demo_segment] ?e"
    using demo_engine_ok [of 4 "[]"] by (simp add: engine_ok_def)
  then show "engine_ok demo_crc [demo_cmd 0] [demo_segment] (after_write seq sid)"
    unfolding after_write_def by (rule handle_client_request_ok)
qed

lemma apply_after_write:
  "\<exists>e2. apply_append_entry demo_crc demo_proto (demo_api Leader []) i 1 cmd (after_write seq sid) = (Inr (), e2)"
  using apply_append_entry_calm [OF after_write(2) _ after_write(3) can_snapshotI [OF after_write(5)]] after_write(4) by fastforce

lemma restarted_leader_acks_uncommitted_write_witness:
  "\<exists>e2. apply_append_entry demo_crc demo_proto (demo_api Leader []) 11 1 (demo_cmd 1) (after_write 0 8) =
      (Inr (), e2) \<and>
    eg_offered e2 = [answer 9 Ok 5 0 []] \<and> hm_get (eg_pending e2) 1 = None \<and>
    sr_commit_stream_lsn (ensure_stream 8 (eg_streams e2)) = 0"
proof -
  obtain e2 where run: "apply_append_entry demo_crc demo_proto (demo_api Leader []) 11 1 (demo_cmd 1)
      (after_write 0 8) = (Inr (), e2)" using apply_after_write by blast
  have "streams_ok (eg_streams ((demo_engine 4 [])\<lparr>eg_request_seq := 0\<rparr>))" by (simp add: demo_streams_ok)
  from restarted_leader_acks_uncommitted_write [OF this _ _ _ _ after_write(1) _ _ run] run
  show ?thesis by (simp add: write_req_def demo_streams_ok replica_new_def demo_cmd_def hm_ok_def)
qed

subsection \<open>Positions of entries not yet applied\<close>

text \<open>The command that a leader proposes for a write.\<close>

definition proposed_command :: "shard_request \<Rightarrow> ('r, 'm, 'c) engine \<Rightarrow> append_command" where
  "proposed_command req e =
     (let r = sreq_request req in
      \<lparr>cmd_request_id = eg_request_seq e + 1, cmd_stream_id = req_stream_id r, cmd_epoch = req_epoch r,
       cmd_stream_lsn = sr_next_stream_lsn (ensure_stream (req_stream_id r) (eg_streams e)),
       cmd_payload = req_payload r\<rparr>)"

lemma proposed_command_simps [simp]:
  "cmd_stream_id (proposed_command req e) = req_stream_id (sreq_request req)"
  "cmd_payload (proposed_command req e) = req_payload (sreq_request req)"
  "cmd_stream_lsn (proposed_command req e) =
     sr_next_stream_lsn (ensure_stream (req_stream_id (sreq_request req)) (eg_streams e))"
  by (simp_all add: proposed_command_def Let_def)

lemma handle_write_proposes:
  assumes "ra_role api (eg_raft e) = Leader" and "req_op (sreq_request req) = Write"
    and "sr_max_epoch (ensure_stream (req_stream_id (sreq_request req)) (eg_streams e)) \<le>
      req_epoch (sreq_request req)"
  shows "\<exists>e1. handle_client_request crc api req e =
    raft_call (ra_propose api (eg_store e) [] (encode_append_command (proposed_command req e))) e1"
proof -
  have "\<not> req_epoch (sreq_request req) <
      sr_max_epoch (ensure_stream (req_stream_id (sreq_request req)) (eg_streams e))"
    using assms(3) by simp
  then show ?thesis
    using assms(1,2) by (auto simp: handle_client_request_def handle_write_def Let_def
        allocate_append_def proposed_command_def)
qed

text \<open>
  C35: A new leader gives out an LSN that a committed entry already has. The position of a write
  is the next LSN of the leader's stream table, which only counts entries that have been
  applied here. If the raft log holds an entry of the stream with that LSN (replicated by the
  previous leader, not yet applied) when the write arrives, then the write is proposed with
  the same LSN; once both are applied the log has two records for it, and what a read of the
  LSN returns depends on the tail cache: as long as the cache holds both records (its limit
  is at least 2 and the two are the latest) a read is answered with the payload of the first,
  otherwise with that of the second, the only one that the index knows. So a record that its
  writer was told is at this position is replaced, for the readers, by another one. (The LSN
  is not the last of the 64-bit range, no older record of it is cached, and the read after
  the two applies meets no disk error on a node that still leads.)
\<close>

theorem unapplied_lsn_is_reused:
  assumes "engine_ok crc A segs e" and "ra_role api (eg_raft e) = Leader"
    and "req_op (sreq_request req) = Write"
    and "sr_max_epoch (ensure_stream (req_stream_id (sreq_request req)) (eg_streams e)) \<le>
      req_epoch (sreq_request req)"
    and unapplied: "cmd_stream_id cmd = req_stream_id (sreq_request req)"
      "cmd_stream_lsn cmd = sr_next_stream_lsn (ensure_stream (cmd_stream_id cmd) (eg_streams e))"
    and written: "handle_client_request crc api req e = (Inr (), e1)"
    and first: "apply_append_entry crc p api i tm cmd e1 = (Inr (), e2)"
    and second: "apply_append_entry crc p api j tm' (proposed_command req e) e2 = (Inr (), e3)"
    and small: "length (cmd_payload cmd) + 48 < 2 ^ 32"
      "length (req_payload (sreq_request req)) + 48 < 2 ^ 32"
    and ids: "ww_next_segment_id (eg_writer e) \<noteq> 0" "ww_next_segment_id (eg_writer e) + 1 \<noteq> 0"
    and uncached: "\<forall>r \<in> set (sr_tail_cache (ensure_stream (cmd_stream_id cmd) (eg_streams e))).
      tr_stream_lsn r \<noteq> cmd_stream_lsn cmd"
    and wrap: "cmd_stream_lsn cmd + 1 \<noteq> 0" and calm: "dk_faults (eg_disk e3) = []"
    and read: "req_op (sreq_request rd) = Read" "req_stream_id (sreq_request rd) = cmd_stream_id cmd"
      "req_offset (sreq_request rd) = cmd_stream_lsn cmd" "ra_role api (eg_raft e3) = Leader"
  shows "\<exists>segs' x y ep. engine_ok crc (A @ [cmd, proposed_command req e]) segs' e3 \<and>
    wal_log segs' = wal_log segs @ [x, y] \<and>
    record_key (snd x) = (cmd_stream_id cmd, cmd_stream_lsn cmd) \<and> wr_payload (snd x) = cmd_payload cmd \<and>
    record_key (snd y) = record_key (snd x) \<and> wr_payload (snd y) = req_payload (sreq_request req) \<and>
    index_lookup (eg_index e3) (cmd_stream_id cmd) (cmd_stream_lsn cmd) = Some (fst y) \<and>
    eg_offered (snd (handle_client_request crc api rd e3)) = eg_offered e3 @
      [answer (sreq_connection_id rd) Ok ep (cmd_stream_lsn cmd)
        (if 2 \<le> st_tail_cache_limit (eg_streams e) then cmd_payload cmd else req_payload (sreq_request req))]"
proof -
  let ?sid = "cmd_stream_id cmd" and ?lsn = "cmd_stream_lsn cmd"
  have ok1: "engine_ok crc A segs e1" using handle_client_request_ok [OF assms(1), of api req] written by simp
  have w1: "eg_writer e1 = eg_writer e" using handle_request_writer [of crc api req e] written by simp
  from apply_append_entry_ok [OF ok1 small(1) _ first] ids(1) w1 obtain segs2 x where
    ok2: "engine_ok crc (A @ [cmd]) segs2 e2"
    and w2: "ww_next_segment_id (eg_writer e2) \<in>
      {ww_next_segment_id (eg_writer e), ww_next_segment_id (eg_writer e) + 1}"
    and log2: "wal_log segs2 = wal_log segs @ [(x, lw_record (cmd_write (eg_now e1) i cmd))]"
    and str2: "eg_streams e2 = observe_recovered ?sid (cmd_epoch cmd) i ?lsn (cmd_payload cmd) (eg_streams e1)"
    by auto
  have "ww_next_segment_id (eg_writer e2) \<noteq> 0" using w2 ids by auto
  with apply_append_entry_ok [OF ok2 _ _ second] small(2) obtain segs3 y where
    ok3: "engine_ok crc ((A @ [cmd]) @ [proposed_command req e]) segs3 e3"
    and log3: "wal_log segs3 = wal_log segs2 @
      [(y, lw_record (cmd_write (eg_now e2) j (proposed_command req e)))]"
    and idx: "eg_index e3 = index_insert (req_stream_id (sreq_request req))
      (cmd_stream_lsn (proposed_command req e)) y (eg_index e2)"
    and str3: "eg_streams e3 = observe_recovered ?sid (cmd_epoch (proposed_command req e)) j ?lsn
      (req_payload (sreq_request req)) (eg_streams e2)"
    using unapplied by auto
  let ?y = "lw_record (cmd_write (eg_now e2) j (proposed_command req e))"
  note hm = streams_okD(1) [OF engine_okD(4) [OF ok1]] streams_okD(1) [OF engine_okD(4) [OF ok2]]
  from handle_write_admitted(3) [OF engine_okD(4) [OF assms(1)] assms(2-4) written] have str1:
    "eg_streams e1 = snd (allocate_append (req_stream_id (sreq_request req)) (req_epoch (sreq_request req)) (eg_streams e))"
    by (simp add: engine_core_def)
  have cache1: "sr_tail_cache (ensure_stream ?sid (eg_streams e1)) = sr_tail_cache (ensure_stream ?sid (eg_streams e))"
    and limit1: "st_tail_cache_limit (eg_streams e1) = st_tail_cache_limit (eg_streams e)"
    using ensure_allocate [OF streams_okD(1) [OF engine_okD(4) [OF assms(1)]]]
    by (simp_all add: str1) (simp add: allocate_append_def Let_def)
  have limit2: "st_tail_cache_limit (eg_streams e2) = st_tail_cache_limit (eg_streams e)"
    by (simp add: str2 limit1 observe_recovered_def Let_def)
  define st where "st = ensure_stream ?sid (eg_streams e3)"
  have get: "hm_get (st_streams (eg_streams e3)) ?sid = Some st"
    using hm_get_observed [OF hm(2)] by (simp add: str3 st_def)
  have "?lsn < sr_commit_stream_lsn st" and
    cache: "sr_tail_cache st = trim_front (st_tail_cache_limit (eg_streams e))
      (trim_front (st_tail_cache_limit (eg_streams e)) (sr_tail_cache (ensure_stream ?sid (eg_streams e)) @
        [\<lparr>tr_stream_lsn = ?lsn, tr_entry_id = i, tr_payload = cmd_payload cmd\<rparr>]) @
       [\<lparr>tr_stream_lsn = ?lsn, tr_entry_id = j, tr_payload = req_payload (sreq_request req)\<rparr>])"
    using max_lsn [OF wrap]
    by (simp_all add: st_def str3 ensure_observe [OF hm(2)] Let_def limit2)
      (simp add: str2 ensure_observe [OF hm(1)] Let_def limit1 cache1)
  then have below: "below_commit ?sid ?lsn (eg_streams e3)"
    by (simp add: below_commit_def stream_status_def get status_of_def)
  have "index_ok (eg_index e2)" using ok2 by (simp add: engine_ok_def)
  then have at: "index_lookup (eg_index e3) ?sid ?lsn = Some y" using idx unapplied by simp
  have iny: "(y, ?y) \<in> set (wal_log segs3)" by (simp add: log3)
  have "\<exists>ep. eg_offered (snd (handle_client_request crc api rd e3)) = eg_offered e3 @
      [answer (sreq_connection_id rd) Ok ep ?lsn
        (if 2 \<le> st_tail_cache_limit (eg_streams e) then cmd_payload cmd else req_payload (sreq_request req))]"
  proof (cases "0 < st_tail_cache_limit (eg_streams e)")
    case True
    then have "\<exists>r. read_from_tail ?sid ?lsn (eg_streams e3) = Some r \<and> tr_stream_lsn r = ?lsn \<and>
        tr_payload r = (if 2 \<le> st_tail_cache_limit (eg_streams e) then cmd_payload cmd else req_payload (sreq_request req))"
      using find_trimmed_two [OF _ _ True, where zs = "sr_tail_cache (ensure_stream ?sid (eg_streams e))" and
          P = "\<lambda>r. tr_stream_lsn r = ?lsn"] uncached
      by (auto simp: read_from_tail_def get cache)
    then show ?thesis using read_cached [OF read(1,4)] below read(2,3) by fastforce
  next
    case False
    then have "read_from_tail ?sid ?lsn (eg_streams e3) = None"
      by (simp add: read_from_tail_def get cache trim_front_drop)
    with read_indexed [OF ok3 calm read(1,4), of y ?y] at below iny read(2,3) False unapplied show ?thesis
      by (simp add: lw_record_def cmd_write_def record_key_def)
  qed
  then show ?thesis
    using ok3 log2 log3 at unapplied
    by (auto intro!: exI [of _ segs3] exI [of _ "(x, lw_record (cmd_write (eg_now e1) i cmd))"]
        exI [of _ "(y, ?y)"])
qed

lemma unapplied_lsn_is_reused_witness:
  "\<exists>segs' (e3 :: (nat, nat, u64) engine) (x :: record_location \<times> wal_record)
    (y :: record_location \<times> wal_record). engine_ok demo_crc [demo_cmd 0, demo_cmd 1,
      \<lparr>cmd_request_id = 1, cmd_stream_id = 7, cmd_epoch = 5, cmd_stream_lsn = 1, cmd_payload = [98]\<rparr>]
      segs' e3 \<and>
    wr_payload (snd x) = replicate 20 97 \<and> record_key (snd y) = record_key (snd x) \<and>
    wr_payload (snd y) = [98] \<and> index_lookup (eg_index e3) 7 1 = Some (fst y) \<and>
    (\<exists>ep. eg_offered (snd (handle_client_request demo_crc (demo_api Leader []) (read_req 7 1) e3)) =
      eg_offered e3 @ [answer 9 Ok ep 1 (replicate 20 97)])"
proof -
  let ?e = "(demo_engine 4 [])\<lparr>eg_request_seq := 0\<rparr>" and ?new = "\<lparr>cmd_request_id = 1,
      cmd_stream_id = 7, cmd_epoch = 5, cmd_stream_lsn = 1, cmd_payload = [98]\<rparr>"
  have ok: "engine_ok demo_crc [demo_cmd 0] [demo_segment] ?e"
    using demo_engine_ok [of 4 "[]"] by (simp add: engine_ok_def)
  have new: "proposed_command (write_req 7 5) ?e = ?new"
    by (simp add: proposed_command_def write_req_def demo_streams_ok)
  have run: "\<exists>e2 e3. apply_append_entry demo_crc demo_proto (demo_api Leader []) 11 1 (demo_cmd 1)
      (after_write 0 7) = (Inr (), e2) \<and>
    apply_append_entry demo_crc demo_proto (demo_api Leader []) 12 1 ?new e2 = (Inr (), e3) \<and>
    dk_faults (eg_disk e3) = []"
  proof -
    from apply_append_entry_calm [OF after_write(2) _ after_write(3) can_snapshotI [OF after_write(5)], where p = demo_proto and
        i = 11 and tm = 1 and cmd = "demo_cmd 1"] after_write(4) obtain e2 where
      e2: "apply_append_entry demo_crc demo_proto (demo_api Leader []) 11 1 (demo_cmd 1)
        (after_write 0 7) = (Inr (), e2)" and pr: "progressed (after_write 0 7) [demo_cmd 1] e2"
      and snap: "can_snapshot demo_proto (demo_api Leader []) e2" by fastforce
    have "length (cmd_payload (demo_cmd 1)) + 48 < 2 ^ 32" by (simp add: demo_cmd_def)
    from apply_append_entry_ok [OF after_write(2) this _ e2] after_write(4) obtain segs2 where
      "engine_ok demo_crc ([demo_cmd 0] @ [demo_cmd 1]) segs2 e2" "ww_next_segment_id (eg_writer e2) \<in> {3, 4}"
      by fastforce
    with apply_append_entry_calm [of demo_crc "[demo_cmd 0] @ [demo_cmd 1]" segs2 e2 demo_proto "demo_api Leader []"
        12 1 ?new] pr snap e2
    show ?thesis by (fastforce simp: progressed_def)
  qed
  then obtain e2 e3 where runs:
    "apply_append_entry demo_crc demo_proto (demo_api Leader []) 11 1 (demo_cmd 1)
      (after_write 0 7) = (Inr (), e2)"
    "apply_append_entry demo_crc demo_proto (demo_api Leader []) 12 1 (proposed_command (write_req 7 5) ?e) e2 =
      (Inr (), e3)" and calm: "dk_faults (eg_disk e3) = []" by (auto simp: new)
  have limit: "st_tail_cache_limit (demo_streams 4) = 4"
    by (simp add: demo_streams_def table_new_def observe_recovered_def Let_def)
  from runs obtain segs' and x y :: "record_location \<times> wal_record" and ep where
    "engine_ok demo_crc ([demo_cmd 0] @ [demo_cmd 1, proposed_command (write_req 7 5) ?e]) segs' e3"
    "wr_payload (snd x) = cmd_payload (demo_cmd 1)" "record_key (snd y) = record_key (snd x)"
    "wr_payload (snd y) = req_payload (sreq_request (write_req 7 5))"
    "index_lookup (eg_index e3) (cmd_stream_id (demo_cmd 1)) (cmd_stream_lsn (demo_cmd 1)) = Some (fst y)"
    "eg_offered (snd (handle_client_request demo_crc (demo_api Leader []) (read_req 7 1) e3)) =
      eg_offered e3 @ [answer 9 Ok ep 1 (cmd_payload (demo_cmd 1))]"
    using unapplied_lsn_is_reused [OF ok _ _ _ _ _ after_write(1) runs _ _ _ _ _ _ calm, of "read_req 7 1"]
    by (auto simp: write_req_def demo_cmd_def demo_streams_ok read_req_def limit)
  moreover have "cmd_payload (demo_cmd 1) = replicate 20 97" "cmd_stream_id (demo_cmd 1) = 7"
    "cmd_stream_lsn (demo_cmd 1) = 1" "req_payload (sreq_request (write_req 7 5)) = [98]"
    by (simp_all add: demo_cmd_def write_req_def)
  ultimately show ?thesis unfolding new append_Cons append_Nil by metis
qed

subsection \<open>What the ready loop leaves undone\<close>

text \<open>Only \<open>drive_ready\<close> calls \<open>ra_advance\<close>.\<close>

definition with_light_entries ::
  "('c persistent_state \<Rightarrow> 'r \<Rightarrow> raft_entry list) \<Rightarrow> ('r, 'm, 'c) raft_api \<Rightarrow> ('r, 'm, 'c) raft_api" where
  "with_light_entries ces api = api\<lparr>ra_advance := (\<lambda>st rdy r.
     (case ra_advance api st rdy r of (light, r') \<Rightarrow> (light\<lparr>lr_committed := ces st r'\<rparr>, r')))\<rparr>"

lemma with_light_entries_simps [simp]:
  "ra_role (with_light_entries ces api) = ra_role api"
  "ra_applied (with_light_entries ces api) = ra_applied api"
  "ra_step (with_light_entries ces api) = ra_step api"
  "ra_msg_to (with_light_entries ces api) = ra_msg_to api"
  "ra_has_ready (with_light_entries ces api) = ra_has_ready api"
  "ra_ready (with_light_entries ces api) = ra_ready api"
  "ra_advance (with_light_entries ces api) st rdy r =
     (case ra_advance api st rdy r of (light, r') \<Rightarrow> (light\<lparr>lr_committed := ces st r'\<rparr>, r'))"
  by (simp_all add: with_light_entries_def)

lemma with_light_entries_dispatch [simp]:
  "dispatch_raft_messages (with_light_entries ces api) ms = dispatch_raft_messages api ms"
proof (induction ms)
  case (Cons m ms)
  show ?case by (rule ext) (simp add: Let_def Cons.IH split: prod.split bool.split)
qed (rule ext, simp)

lemma with_light_entries_apply [simp]:
  "apply_committed crc p (with_light_entries ces api) es = apply_committed crc p api es"
proof (induction es)
  case (Cons en es)
  have "apply_append_entry crc p (with_light_entries ces api) i tm cmd e = apply_append_entry crc p api i tm cmd e"
    for i tm cmd e
    by (simp add: apply_append_entry_def maybe_snapshot_raft_state_def)
  with Cons.IH show ?case by (intro ext) (simp split: sum.split)
qed (rule ext, simp)

text \<open>
  Committed entries that the library hands out with its answer to \<open>advance\<close> are not
  applied: whatever entries that answer carries, the ready step does the same. The answer
  carries the entries that became committed by what was just persisted, and the library does
  not hand them out again.
\<close>

theorem light_ready_entries_ignored:
  "drive_ready crc p (with_light_entries ces api) e = drive_ready crc p api e"
  by (simp add: drive_ready_def Let_def case_prod_unfold)

lemma raft_call_store [simp]: "eg_store (snd (raft_call f e)) = eg_store e"
  by (auto simp: raft_call_def map_err_def split: prod.splits sum.splits)

lemma dispatch_store: "dispatch_raft_messages api ms e = (Inr u, e') \<Longrightarrow> eg_store e' = eg_store e"
proof (induction ms arbitrary: e)
  case (Cons m ms)
  then show ?case
  proof (cases "ra_msg_to api m = eg_node_id e")
    case True
    with Cons.prems obtain e1 v where "raft_call (ra_step api (eg_store e) m) e = (Inr v, e1)"
      "dispatch_raft_messages api ms e1 = (Inr u, e')" by (auto simp: and_then_Inr)
    with Cons.IH raft_call_store [of "ra_step api (eg_store e) m" e] show ?thesis by simp
  next
    case False
    with Cons.prems Cons.IH show ?thesis by (auto simp: Let_def split: prod.splits bool.splits)
  qed
qed simp

lemma store_call_core_Inr:
  assumes "store_call f e = (Inr u, e')"
  shows "engine_core e' = engine_core e" and "\<exists>d. f (eg_store e, eg_raft_disk e) = (Inr u, eg_store e', d)"
  using assms store_call_core [of f e]
  by (auto simp: store_call_def map_err_def split: prod.splits sum.splits)

lemma storage_append_snapshot:
  "storage_append p es (st, d) = (Inr u, st', d') \<Longrightarrow> ps_snapshot st' = ps_snapshot st"
  by (auto simp: storage_append_def Let_def beside_def split: list.splits prod.splits if_splits)

lemma apply_snapshot_snapshot:
  "apply_snapshot p sn (st, d) = (Inr u, st', d') \<Longrightarrow> ps_snapshot st' = sn"
  by (auto simp: apply_snapshot_def Let_def beside_def split: prod.splits)

text \<open>
  A snapshot that the leader sends is stored and not installed. When the library hands out a
  snapshot, with nothing to apply, the ready step makes it the snapshot of the raft storage,
  and the entries it replaces are gone; but the stream table, the index and the data directory
  stay as they were, although the snapshot is the only carrier of the stream positions and of
  the records before it. The table in the snapshot is only looked at by the next opening.
\<close>

theorem leader_snapshot_not_installed:
  assumes "ra_has_ready api (eg_store e) (eg_raft e)"
    and rdy: "ra_ready api (eg_store e) (eg_raft e) = (rdy, r)"
    and snap: "\<not> snapshot_is_empty (rdy_snapshot rdy)" and "rdy_committed rdy = []"
    and run: "drive_ready crc p api e = (Inr (), e')"
  shows "ps_snapshot (eg_store e') = rdy_snapshot rdy \<and> eg_streams e' = eg_streams e \<and>
    eg_index e' = eg_index e \<and> eg_disk e' = eg_disk e"
proof -
  obtain a b c d1 d2 msgs r2 where
    a: "(case rdy_hs rdy of Some hs \<Rightarrow> store_call (set_hardstate p hs) (e\<lparr>eg_raft := r\<rparr>)
          | None \<Rightarrow> (Inr (), e\<lparr>eg_raft := r\<rparr>)) = (Inr (), a)" and
    b: "store_call (apply_snapshot p (rdy_snapshot rdy)) a = (Inr (), b)" and
    c: "(if rdy_entries rdy \<noteq> [] then store_call (storage_append p (rdy_entries rdy)) b
          else (Inr (), b)) = (Inr (), c)" and
    d: "dispatch_raft_messages api (rdy_messages rdy) c = (Inr (), d1)"
      "dispatch_raft_messages api (rdy_persisted_messages rdy) d1 = (Inr (), d2)" and
    light: "dispatch_raft_messages api msgs (d2\<lparr>eg_raft := r2\<rparr>) = (Inr (), e')"
    using run assms(1,4) snap unfolding drive_ready_def rdy Let_def split_conv
    by (auto simp: and_then_Inr case_prod_beta)
  have "ps_snapshot (eg_store b) = rdy_snapshot rdy"
    using store_call_core_Inr(2) [OF b] by (auto dest: apply_snapshot_snapshot)
  moreover have "ps_snapshot (eg_store c) = ps_snapshot (eg_store b)"
    using c store_call_core_Inr(2) [of "storage_append p (rdy_entries rdy)" b "()" c]
    by (auto split: if_splits dest: storage_append_snapshot)
  moreover have "eg_store e' = eg_store c" using d light by (auto dest!: dispatch_store)
  moreover from drive_ready_committed [OF run assms(1)] assms(4)
  have "engine_core e' = engine_core e" by (auto simp: rdy)
  ultimately show ?thesis by (simp add: engine_core_def)
qed

text \<open>A ready step with a snapshot of one stream, on the example engine.\<close>

definition sent_snapshot :: "u64 raft_snapshot" where
  "sent_snapshot = \<lparr>sn_data = encode_snapshot (demo_streams 4),
     sn_metadata = \<lparr>sm_conf_state = 5, sm_index = 40, sm_term = 3\<rparr>\<rparr>"

definition snapshot_api :: "(nat, nat, u64) raft_api" where
  "snapshot_api = (demo_api Follower [])\<lparr>ra_ready := (\<lambda>_ r.
     ((demo_ready [])\<lparr>rdy_snapshot := sent_snapshot\<rparr>, Suc r))\<rparr>"

lemma leader_snapshot_not_installed_witness:
  "let (res, e') = drive_ready demo_crc demo_proto snapshot_api (demo_engine 4 []) in
     res = Inr () \<and> ps_snapshot (eg_store e') = sent_snapshot \<and> eg_streams e' = demo_streams 4 \<and>
     eg_disk e' = demo_disk demo_segment"
proof -
  let ?e = "demo_engine 4 []" and ?rdy = "(demo_ready [])\<lparr>rdy_snapshot := sent_snapshot\<rparr>"
  have api: "ra_has_ready snapshot_api (eg_store ?e) (eg_raft ?e)"
    "ra_ready snapshot_api (eg_store ?e) (eg_raft ?e) = (?rdy, 1)"
    by (simp_all add: snapshot_api_def)
  have snap: "\<not> snapshot_is_empty (rdy_snapshot ?rdy)" "rdy_committed ?rdy = []"
    by (simp_all add: snapshot_is_empty_def sent_snapshot_def demo_ready_def)
  let ?st = "(bootstrap_state 5)\<lparr>ps_snapshot := sent_snapshot, ps_entries := [],
      ps_hard_state := \<lparr>hs_term = 3, hs_vote = 0, hs_commit = 40\<rparr>\<rparr>"
  have "length (encode_snapshot (demo_streams 4)) < 1000"
    by (simp add: encode_snapshot_def all_statuses_def demo_streams_def observe_recovered_def Let_def
        put_stream_def table_new_def hm_values_def encode_status_def)
  then have "\<exists>buf. encode_state demo_proto ?st = Inr buf"
    by (simp add: encode_state_def append_message_def demo_proto_def bootstrap_state_def sent_snapshot_def)
  with persist_calm [of demo_proto ?st _ "demo_raft_disk []"] obtain d where
    "persist demo_proto ?st (demo_raft_disk []) = (Inr (), d)" by (auto simp: demo_raft_disk_def)
  then have "store_call (apply_snapshot demo_proto sent_snapshot) (?e\<lparr>eg_raft := 1\<rparr>) =
      (Inr (), ?e\<lparr>eg_raft := 1, eg_store := ?st, eg_raft_disk := d\<rparr>)"
    by (simp add: store_call_def apply_snapshot_def beside_def map_err_def Let_def bootstrap_state_def
        sent_snapshot_def max_def)
  then have "\<exists>e'. drive_ready demo_crc demo_proto snapshot_api ?e = (Inr (), e')"
    using snap api by (simp add: drive_ready_def Let_def) (simp add: demo_ready_def snapshot_api_def)
  then obtain e' where "drive_ready demo_crc demo_proto snapshot_api ?e = (Inr (), e')" by auto
  with leader_snapshot_not_installed [OF api snap] show ?thesis by (simp add: demo_ready_def)
qed

subsection \<open>Answers that find the channel full\<close>

text \<open>
  The answer to a committed write can be lost. The response channel is bounded and a send
  that fails is ignored: when the channel is full (or its reader gone) at the moment the
  client's entry is applied, the write is taken off the list of pending writes, its answer is
  not delivered, and nothing is kept from which it could be sent later.
\<close>

theorem full_channel_drops_ack:
  assumes "hm_ok (eg_pending e)" and "hm_get (eg_pending e) (cmd_request_id cmd) = Some q"
    and "eg_response_sends e = s # ss" and "s \<noteq> SendOk"
    and "apply_append_entry crc p api i tm cmd e = (Inr (), e')"
  shows "eg_delivered e' = eg_delivered e \<and> eg_offered e' = eg_offered e @ [ack q] \<and>
    hm_get (eg_pending e') (cmd_request_id cmd) = None"
  using apply_append_entry_answers [OF assms(5)] assms(1-4) by simp

lemma full_channel_drops_ack_witness:
  "\<exists>e'. apply_append_entry demo_crc demo_proto (demo_api Leader []) 11 1 (demo_cmd 1)
      ((demo_engine 4 [(1, demo_pending)])\<lparr>eg_response_sends := [SendFull]\<rparr>) = (Inr (), e') \<and>
    eg_delivered e' = [] \<and> hm_get (eg_pending e') 1 = None"
proof -
  let ?e = "(demo_engine 4 [(1, demo_pending)])\<lparr>eg_response_sends := [SendFull]\<rparr>"
  have "engine_ok demo_crc [demo_cmd 0] [demo_segment] ?e"
    using demo_engine_ok [of 4 "[(1, demo_pending)]"] by (simp add: engine_ok_def)
  moreover have "between_snapshots (demo_api Leader []) ?e"
    using demo_between [of Leader "[]" 4 "[(1, demo_pending)]"] by (simp add: between_snapshots_def)
  ultimately obtain e' where run: "apply_append_entry demo_crc demo_proto (demo_api Leader []) 11 1
      (demo_cmd 1) ?e = (Inr (), e')"
    using apply_append_entry_calm [of demo_crc _ _ ?e demo_proto "demo_api Leader []"]
    by (fastforce simp: demo_disk_def intro: can_snapshotI)
  have "eg_delivered ?e = []" by (simp add: demo_engine_def)
  then show ?thesis using full_channel_drops_ack [OF _ _ _ _ run] run
    by (simp add: hm_ok_def demo_request_id demo_acks)
qed

end
