(* ===== verification/EngineDurable.thy ===== *)
theory EngineDurable
  imports EngineGaps Crash
begin

text \<open>
  What has to be on disk before a node speaks: the part of a ready step that persists, and
  the part that sends, applies and answers.
\<close>

definition persist_ready ::
  "'c proto \<Rightarrow> ('m, 'c) raft_ready \<Rightarrow> ('r, 'm, 'c) engine \<Rightarrow>
   (engine_error fault + unit) \<times> ('r, 'm, 'c) engine" where
  "persist_ready p rdy e =
     and_then (case rdy_hs rdy of Some hs \<Rightarrow> store_call (set_hardstate p hs) e
                 | None \<Rightarrow> (Inr (), e)) (\<lambda>_ e.
     and_then (if \<not> snapshot_is_empty (rdy_snapshot rdy)
               then store_call (apply_snapshot p (rdy_snapshot rdy)) e else (Inr (), e)) (\<lambda>_ e.
     if rdy_entries rdy \<noteq> [] then store_call (storage_append p (rdy_entries rdy)) e
     else (Inr (), e)))"

definition act_on_ready ::
  "(bytes \<Rightarrow> u32) \<Rightarrow> 'c proto \<Rightarrow> ('r, 'm, 'c) raft_api \<Rightarrow> ('m, 'c) raft_ready \<Rightarrow> ('r, 'm, 'c) engine \<Rightarrow>
   (engine_error fault + unit) \<times> ('r, 'm, 'c) engine" where
  "act_on_ready crc p api rdy e =
     and_then (dispatch_raft_messages api (rdy_messages rdy) e) (\<lambda>_ e.
     and_then (dispatch_raft_messages api (rdy_persisted_messages rdy) e) (\<lambda>_ e.
     and_then (apply_committed crc p api (rdy_committed rdy) e) (\<lambda>_ e.
     let rest = rdy\<lparr>rdy_committed := [], rdy_messages := [], rdy_persisted_messages := []\<rparr> in
     (case ra_advance api (eg_store e) rest (eg_raft e) of
        (light, r) \<Rightarrow> dispatch_raft_messages api (lr_messages light) (e\<lparr>eg_raft := r\<rparr>)))))"

lemma and_then_assoc: "and_then (and_then r f) g = and_then r (\<lambda>x s. and_then (f x s) g)"
  by (cases r) (simp add: and_then_def split: sum.split)

lemma drive_ready_split:
  assumes "ra_has_ready api (eg_store e) (eg_raft e)"
    and "ra_ready api (eg_store e) (eg_raft e) = (rdy, r)"
  shows "drive_ready crc p api e =
    and_then (persist_ready p rdy (e\<lparr>eg_raft := r\<rparr>)) (\<lambda>_. act_on_ready crc p api rdy)"
  using assms unfolding drive_ready_def persist_ready_def act_on_ready_def and_then_assoc Let_def
  by simp

text \<open>What a storage call leaves alone, and what it leaves on disk.\<close>

definition spoken :: "('r, 'm, 'c) engine \<Rightarrow> 'm raft_outbound list \<times> shard_response list \<times> 'r" where
  "spoken e = (eg_outbound e, eg_offered e, eg_raft e)"

lemma store_call_step:
  assumes "proto_ok p" and "state_saved p (eg_store e) (eg_raft_disk e)"
    and run: "store_call (storage_call p c) e = (res, e1)" and "length (ps_entries (eg_store e1)) < 2 ^ 32"
  shows "spoken e1 = spoken e \<and> engine_core e1 = engine_core e \<and>
    (\<exists>st. state_saved p st (eg_raft_disk e1)) \<and>
    (res = Inr () \<longrightarrow> state_saved p (eg_store e1) (eg_raft_disk e1))"
proof -
  obtain res' st d where call: "storage_call p c (eg_store e, eg_raft_disk e) = (res', st, d)"
    by (metis prod.exhaust)
  then have "e1 = e\<lparr>eg_store := st, eg_raft_disk := d\<rparr>" and "res = Inr () \<longleftrightarrow> res' = Inr ()"
    using run by (auto simp: store_call_def map_err_def split: sum.splits)
  with storage_call_saved [OF assms(1,2) call] assms(4) show ?thesis
    by (auto simp: spoken_def engine_core_def)
qed

lemma storage_call_entries:
  assumes "storage_call p c (st, d) = (res, st', d')" and "\<forall>i bs. c \<noteq> CreateSnapshot i bs"
  shows "length (ps_entries st') \<le> length (ps_entries st) + (case c of AppendEntries es \<Rightarrow> length es | _ \<Rightarrow> 0)"
  using assms
  by (cases c) (auto simp: set_hardstate_def storage_append_def apply_snapshot_def compact_def beside_def
      Let_def split: list.splits if_splits sum.splits fault.splits)

definition entries_of_call :: "'c storage_op \<Rightarrow> raft_entry list" where
  "entries_of_call c = (case c of AppendEntries es \<Rightarrow> es | _ \<Rightarrow> [])"

definition persisted ::
  "'c proto \<Rightarrow> ('r, 'm, 'c) engine \<Rightarrow> nat \<Rightarrow> (engine_error fault + unit) \<times> ('r, 'm, 'c) engine \<Rightarrow> bool" where
  "persisted p e n r =
     (spoken (snd r) = spoken e \<and> engine_core (snd r) = engine_core e \<and>
      (\<exists>st. state_saved p st (eg_raft_disk (snd r))) \<and>
      (fst r = Inr () \<longrightarrow> state_saved p (eg_store (snd r)) (eg_raft_disk (snd r)) \<and>
         length (ps_entries (eg_store (snd r))) \<le> length (ps_entries (eg_store e)) + n))"

lemma persisted_step:
  assumes "proto_ok p" and saved: "state_saved p (eg_store e) (eg_raft_disk e)"
    and c: "\<forall>i bs. c \<noteq> CreateSnapshot i bs"
    and len: "length (ps_entries (eg_store e)) + length (entries_of_call c) < 2 ^ 32"
  shows "persisted p e (length (entries_of_call c))
    (if b then store_call (storage_call p c) e else (Inr (), e))"
proof (cases b)
  case True
  obtain res' st d where call: "storage_call p c (eg_store e, eg_raft_disk e) = (res', st, d)"
    by (metis prod.exhaust)
  obtain res e1 where run: "store_call (storage_call p c) e = (res, e1)" by force
  with call have "eg_store e1 = st" by (auto simp: store_call_def map_err_def split: sum.splits)
  with storage_call_entries [OF call c]
  have "length (ps_entries (eg_store e1)) \<le> length (ps_entries (eg_store e)) + length (entries_of_call c)"
    by (cases c) (auto simp: entries_of_call_def)
  with store_call_step [OF assms(1,2) run] True run len show ?thesis by (auto simp: persisted_def)
qed (use saved in \<open>auto simp: persisted_def\<close>)

lemma persisted_and_then:
  assumes "persisted p e n r"
    and "\<And>e1. state_saved p (eg_store e1) (eg_raft_disk e1) \<Longrightarrow>
      length (ps_entries (eg_store e1)) \<le> length (ps_entries (eg_store e)) + n \<Longrightarrow> persisted p e1 m (f () e1)"
  shows "persisted p e (n + m) (and_then r f)"
proof (cases r)
  case (Pair res e1)
  show ?thesis
  proof (cases res)
    case (Inr u)
    then have "state_saved p (eg_store e1) (eg_raft_disk e1)"
      "length (ps_entries (eg_store e1)) \<le> length (ps_entries (eg_store e)) + n"
      using assms(1) Pair by (auto simp: persisted_def)
    from assms(2) [OF this] this(2) assms(1) Pair Inr show ?thesis by (auto simp: persisted_def)
  qed (use assms(1) Pair in \<open>auto simp: persisted_def\<close>)
qed

lemma persist_ready_steps:
  "persist_ready p rdy e =
     and_then (if rdy_hs rdy \<noteq> None then store_call (storage_call p (SetHardState (the (rdy_hs rdy)))) e
       else (Inr (), e)) (\<lambda>_ e.
     and_then (if \<not> snapshot_is_empty (rdy_snapshot rdy)
       then store_call (storage_call p (ApplySnapshot (rdy_snapshot rdy))) e else (Inr (), e)) (\<lambda>_ e.
     if rdy_entries rdy \<noteq> [] then store_call (storage_call p (AppendEntries (rdy_entries rdy))) e
     else (Inr (), e)))"
  by (simp add: persist_ready_def split: option.split)

text \<open>What the stored state is after a successful persist.\<close>

definition holds_ready :: "('m, 'c) raft_ready \<Rightarrow> 'c persistent_state \<Rightarrow> bool" where
  "holds_ready rdy st =
     ((\<exists>kept. ps_entries st = kept @ rdy_entries rdy) \<and>
      (if snapshot_is_empty (rdy_snapshot rdy)
       then (case rdy_hs rdy of Some hs \<Rightarrow> ps_hard_state st = hs | None \<Rightarrow> True)
       else ps_snapshot st = rdy_snapshot rdy \<and>
         hs_commit (ps_hard_state st) = sm_index (sn_metadata (rdy_snapshot rdy)) \<and>
         (case rdy_hs rdy of Some hs \<Rightarrow> hs_vote (ps_hard_state st) = hs_vote hs \<and>
             hs_term hs \<le> hs_term (ps_hard_state st) | None \<Rightarrow> True)))"

lemma store_call_Inr_store:
  "store_call f e = (Inr (), e1) \<Longrightarrow> \<exists>d. f (eg_store e, eg_raft_disk e) = (Inr (), eg_store e1, d)"
  by (auto dest: store_call_core_Inr(2))

lemma storage_results:
  "set_hardstate p hs (st, d) = (res, st', d') \<Longrightarrow> st' = st\<lparr>ps_hard_state := hs\<rparr>"
  "apply_snapshot p sn (st, d) = (res, st', d') \<Longrightarrow> st' = st\<lparr>ps_snapshot := sn,
     ps_conf_state := sm_conf_state (sn_metadata sn), ps_entries := [],
     ps_hard_state := (ps_hard_state st)\<lparr>hs_commit := sm_index (sn_metadata sn),
       hs_term := max (hs_term (ps_hard_state st)) (sm_term (sn_metadata sn))\<rparr>\<rparr>"
  "storage_append p es (st, d) = (Inr u, st', d') \<Longrightarrow>
     \<exists>kept. st' = st\<lparr>ps_entries := kept @ es\<rparr>"
  by (auto simp: set_hardstate_def apply_snapshot_def storage_append_def beside_def Let_def
      split: list.splits if_splits prod.splits intro: exI [of _ "ps_entries st"])

lemma persist_ready_holds:
  assumes "persist_ready p rdy e = (Inr (), e')"
  shows "holds_ready rdy (eg_store e')"
proof -
  from assms obtain a b where
    a: "(case rdy_hs rdy of Some hs \<Rightarrow> store_call (set_hardstate p hs) e | None \<Rightarrow> (Inr (), e)) = (Inr (), a)"
    and b: "(if \<not> snapshot_is_empty (rdy_snapshot rdy)
       then store_call (apply_snapshot p (rdy_snapshot rdy)) a else (Inr (), a)) = (Inr (), b)"
    and c: "(if rdy_entries rdy \<noteq> [] then store_call (storage_append p (rdy_entries rdy)) b
       else (Inr (), b)) = (Inr (), e')"
    by (auto simp: persist_ready_def and_then_Inr)
  have hs: "rdy_hs rdy = Some h \<Longrightarrow> ps_hard_state (eg_store a) = h" for h
    using a by (auto dest!: store_call_Inr_store storage_results(1))
  have sn: "if snapshot_is_empty (rdy_snapshot rdy) then eg_store b = eg_store a
    else ps_snapshot (eg_store b) = rdy_snapshot rdy \<and> ps_hard_state (eg_store b) =
      (ps_hard_state (eg_store a))\<lparr>hs_commit := sm_index (sn_metadata (rdy_snapshot rdy)),
        hs_term := max (hs_term (ps_hard_state (eg_store a))) (sm_term (sn_metadata (rdy_snapshot rdy)))\<rparr>"
    using b by (auto dest!: store_call_Inr_store storage_results(2))
  have "\<exists>kept. eg_store e' = (eg_store b)\<lparr>ps_entries := kept @ rdy_entries rdy\<rparr>"
  proof (cases "rdy_entries rdy = []")
    case True
    with c show ?thesis by (intro exI [of _ "ps_entries (eg_store b)"]) simp
  qed (use c in \<open>auto dest!: store_call_Inr_store storage_results(3)\<close>)
  then show ?thesis using hs sn by (auto simp: holds_ready_def split: option.split if_splits)
qed

text \<open>No store syncs the file.\<close>

lemma persist_unsynced: "persist p st d = (Inr u, d') \<Longrightarrow> dk_synced d' STATE_FILE = None"
  by (auto simp: persist_def and_then_Inr map_err_Inr io_rename_def io_guard_Inr put_file_def
      split: sum.splits option.splits)

lemma storage_unsynced:
  "set_hardstate p hs (st, d) = (Inr u, st', d') \<Longrightarrow> dk_synced d' STATE_FILE = None"
  "apply_snapshot p sn (st, d) = (Inr u, st', d') \<Longrightarrow> dk_synced d' STATE_FILE = None"
  "es \<noteq> [] \<Longrightarrow> storage_append p es (st, d) = (Inr u, st', d') \<Longrightarrow> dk_synced d' STATE_FILE = None"
  by (auto simp: set_hardstate_def apply_snapshot_def storage_append_def beside_Inr Let_def
      split: list.splits if_splits dest: persist_unsynced)

lemma store_call_Inr_disk:
  "store_call f e = (Inr (), e1) \<Longrightarrow> \<exists>st. f (eg_store e, eg_raft_disk e) = (Inr (), st, eg_raft_disk e1)"
  by (auto simp: store_call_def map_err_Inr split: prod.splits)

definition stores_something :: "('m, 'c) raft_ready \<Rightarrow> bool" where
  "stores_something rdy =
     (rdy_hs rdy \<noteq> None \<or> \<not> snapshot_is_empty (rdy_snapshot rdy) \<or> rdy_entries rdy \<noteq> [])"

lemma persist_ready_unsynced:
  assumes "persist_ready p rdy e = (Inr (), e')" and "stores_something rdy"
  shows "dk_synced (eg_raft_disk e') STATE_FILE = None"
proof -
  from assms obtain a b where
    a: "(case rdy_hs rdy of Some hs \<Rightarrow> store_call (set_hardstate p hs) e | None \<Rightarrow> (Inr (), e)) = (Inr (), a)"
    and b: "(if \<not> snapshot_is_empty (rdy_snapshot rdy)
       then store_call (apply_snapshot p (rdy_snapshot rdy)) a else (Inr (), a)) = (Inr (), b)"
    and c: "(if rdy_entries rdy \<noteq> [] then store_call (storage_append p (rdy_entries rdy)) b
       else (Inr (), b)) = (Inr (), e')"
    by (auto simp: persist_ready_def and_then_Inr)
  have "rdy_hs rdy \<noteq> None \<Longrightarrow> dk_synced (eg_raft_disk a) STATE_FILE = None"
    using a by (auto dest!: store_call_Inr_disk storage_unsynced(1))
  then have "rdy_hs rdy \<noteq> None \<or> \<not> snapshot_is_empty (rdy_snapshot rdy) \<Longrightarrow> dk_synced (eg_raft_disk b) STATE_FILE = None"
    using b by (auto dest!: store_call_Inr_disk storage_unsynced(2) split: if_splits)
  then show ?thesis
    using c assms(2) by (auto simp: stores_something_def dest!: store_call_Inr_disk storage_unsynced(3) split: if_splits)
qed

lemma open_without_state:
  assumes "disk_file d STATE_FILE = None" and "dk_faults d = []" and "encode_state p (bootstrap_state conf) = Inr buf"
  shows "fst (storage_open p conf d) = Inr (bootstrap_state conf)"
proof -
  let ?d = "d\<lparr>dk_exists := True\<rparr>"
  have "io_create_dir_all d = (Inr (), ?d)" using assms(2) by (simp add: io_create_dir_all_def)
  moreover have "disk_file ?d STATE_FILE = None" using assms(1) by (simp add: disk_file_def)
  moreover obtain d' where "persist p (bootstrap_state conf) ?d = (Inr (), d')"
    using persist_calm [OF assms(3), of ?d] assms(2) by auto
  ultimately show ?thesis by (simp add: storage_open_def)
qed

lemma forgotten:
  assumes "state_saved p st d" and "dk_synced d STATE_FILE = None"
  shows "\<exists>d'. power_loss d d' \<and> (\<forall>conf buf. encode_state p (bootstrap_state conf) = Inr buf \<longrightarrow>
    fst (storage_open p conf d') = Inr (bootstrap_state conf))"
proof -
  let ?d = "d\<lparr>dk_files := hm_remove STATE_FILE (dk_files d), dk_faults := [], dk_synced := Map.empty\<rparr>"
  have ok: "disk_ok d" using assms(1) by (simp add: state_saved_def)
  then have "disk_file ?d STATE_FILE = None" by (simp add: disk_ok_def disk_file_def)
  with open_without_state [of ?d p] one_file_lost [OF ok assms(2), where fs = "[]" and sy = Map.empty] show ?thesis
    by (intro exI [of _ ?d]) auto
qed

text \<open>
  C10: A node writes its state before it speaks, and does not sync it. A ready step with work
  first stores the hard state, the snapshot and the new entries, and until this is done it
  sends no raft message, answers no client and applies nothing. If one of the stores fails, the
  step stops with nothing said and the raft directory still holds a state that an opening
  decodes. If they succeed, the state in memory contains what the library asked to persist
  (its term and vote, its snapshot, its entries at the end of the log), the state file decodes
  to exactly this state, and only then the messages go out. So the end of the process loses
  nothing that was said; but persist renames a file that it has not synced, and a power failure
  may take it: the storage then opens with the state of a new node, which has voted for
  nobody, after the messages were sent. Any schedule of I/O faults is covered; the hypotheses
  are the documented protobuf round trip and a log below 2^32 entries.
\<close>

theorem persisted_before_sent:
  fixes p :: "'c proto"
  assumes "proto_ok p" and "state_saved p (eg_store e) (eg_raft_disk e)"
    and "ra_has_ready api (eg_store e) (eg_raft e)"
    and "ra_ready api (eg_store e) (eg_raft e) = (rdy, r)"
    and len: "length (ps_entries (eg_store e)) + length (rdy_entries rdy) < 2 ^ 32"
  shows "\<exists>(res :: engine_error fault + unit) e1. spoken e1 = spoken (e\<lparr>eg_raft := r\<rparr>) \<and> engine_core e1 = engine_core e \<and>
    (\<exists>st. state_saved p st (eg_raft_disk e1)) \<and>
    (case res of
       Inl err \<Rightarrow> drive_ready crc p api e = (Inl err, e1)
     | Inr u \<Rightarrow> holds_ready rdy (eg_store e1) \<and> state_saved p (eg_store e1) (eg_raft_disk e1) \<and>
         drive_ready crc p api e = act_on_ready crc p api rdy e1 \<and>
         (stores_something rdy \<longrightarrow> (\<exists>d. power_loss (eg_raft_disk e1) d \<and>
            (\<forall>conf buf. encode_state p (bootstrap_state conf) = Inr buf \<longrightarrow>
               fst (storage_open p conf d) = Inr (bootstrap_state conf)))))"
proof -
  let ?e = "e\<lparr>eg_raft := r\<rparr>"
  obtain res e1 where run: "persist_ready p rdy ?e = (res, e1)" by force
  have saved: "state_saved p (eg_store ?e) (eg_raft_disk ?e)" using assms(2) by simp
  have "persisted p ?e (length (entries_of_call (SetHardState (the (rdy_hs rdy)) :: 'c storage_op)) +
      (length (entries_of_call (ApplySnapshot (rdy_snapshot rdy))) +
       length (entries_of_call (AppendEntries (rdy_entries rdy) :: 'c storage_op)))) (persist_ready p rdy ?e)"
    unfolding persist_ready_steps using saved len
    by (intro persisted_and_then persisted_step [OF assms(1)]) (simp_all add: entries_of_call_def)
  then have pr: "spoken e1 = spoken ?e \<and> engine_core e1 = engine_core e \<and> (\<exists>st. state_saved p st (eg_raft_disk e1)) \<and>
      (res = Inr () \<longrightarrow> state_saved p (eg_store e1) (eg_raft_disk e1))"
    by (auto simp: persisted_def run)
  have drive: "drive_ready crc p api e = and_then (res, e1) (\<lambda>_. act_on_ready crc p api rdy)"
    using drive_ready_split [OF assms(3,4), of crc p] run by simp
  show ?thesis
  proof (cases res)
    case (Inl err)
    with pr drive show ?thesis by (intro exI [of _ res] exI [of _ e1]) simp
  next
    case (Inr u)
    with run have ok: "persist_ready p rdy ?e = (Inr (), e1)" by simp
    note holds = persist_ready_holds [OF ok]
    have s: "state_saved p (eg_store e1) (eg_raft_disk e1)" using pr Inr by simp
    have "stores_something rdy \<longrightarrow> (\<exists>d. power_loss (eg_raft_disk e1) d \<and>
        (\<forall>conf buf. encode_state p (bootstrap_state conf) = Inr buf \<longrightarrow>
           fst (storage_open p conf d) = Inr (bootstrap_state conf)))"
      using forgotten [OF s persist_ready_unsynced [OF ok]] by blast
    moreover have "drive_ready crc p api e = act_on_ready crc p api rdy e1" using drive Inr by simp
    ultimately show ?thesis using pr holds s by (intro exI [of _ res] exI [of _ e1]) (simp add: Inr)
  qed
qed

text \<open>The rename of the example node's state file fails while it stores a vote.\<close>

definition voting_ready :: "(nat, u64) raft_ready" where
  "voting_ready = (demo_ready [])\<lparr>rdy_hs := Some \<lparr>hs_term = 2, hs_vote = 1, hs_commit = 1\<rparr>,
     rdy_messages := [2]\<rparr>"

definition voting_api :: "(nat, nat, u64) raft_api" where
  "voting_api = (demo_api Candidate [])\<lparr>ra_ready := (\<lambda>_ r. (voting_ready, Suc r))\<rparr>"

lemma persisted_before_sent_witness:
  "\<exists>(res :: engine_error fault + unit) e1.
     spoken e1 = ([], [], 1) \<and> (\<exists>st. state_saved demo_proto st (eg_raft_disk e1)) \<and>
     (case res of
        Inl err \<Rightarrow> drive_ready demo_crc demo_proto voting_api
          ((demo_engine 4 [])\<lparr>eg_raft_disk := demo_raft_disk [IoOk, IoFail 0]\<rparr>) = (Inl err, e1)
      | Inr u \<Rightarrow> ps_hard_state (eg_store e1) = \<lparr>hs_term = 2, hs_vote = 1, hs_commit = 1\<rparr> \<and>
          state_saved demo_proto (eg_store e1) (eg_raft_disk e1))"
proof -
  let ?e = "(demo_engine 4 [])\<lparr>eg_raft_disk := demo_raft_disk [IoOk, IoFail 0]\<rparr>"
  have "state_saved demo_proto (eg_store ?e) (eg_raft_disk ?e)" by (simp add: demo_raft_saved)
  moreover have "ra_has_ready voting_api (eg_store ?e) (eg_raft ?e)"
    "ra_ready voting_api (eg_store ?e) (eg_raft ?e) = (voting_ready, 1)"
    by (simp_all add: voting_api_def)
  moreover have "length (ps_entries (eg_store ?e)) + length (rdy_entries voting_ready) < 2 ^ 32"
    by (simp add: bootstrap_state_def voting_ready_def demo_ready_def)
  ultimately obtain res :: "engine_error fault + unit" and e1 where
    "spoken e1 = spoken (?e\<lparr>eg_raft := 1\<rparr>)" "\<exists>st. state_saved demo_proto st (eg_raft_disk e1)"
    "case res of Inl err \<Rightarrow> drive_ready demo_crc demo_proto voting_api ?e = (Inl err, e1)
     | Inr u \<Rightarrow> holds_ready voting_ready (eg_store e1) \<and> state_saved demo_proto (eg_store e1) (eg_raft_disk e1)"
    using persisted_before_sent [OF demo_proto_ok, of ?e voting_api voting_ready 1 demo_crc]
    by (fastforce split: sum.splits)
  moreover have "spoken (?e\<lparr>eg_raft := 1\<rparr>) = ([], [], 1)" by (simp add: spoken_def)
  moreover have "holds_ready voting_ready st \<Longrightarrow> ps_hard_state st = \<lparr>hs_term = 2, hs_vote = 1, hs_commit = 1\<rparr>" for st
    by (simp add: holds_ready_def voting_ready_def demo_ready_def no_snapshot_def snapshot_is_empty_def)
  ultimately show ?thesis
    by (intro exI [of _ res] exI [of _ e1]) (auto split: sum.splits)
qed

end
