(* ===== verification/EnginePower.thy ===== *)
theory EnginePower
  imports EngineDurable
begin

text \<open>
  A power failure while a shard runs. Between the calls that write, every segment file of the
  shard is synced in full: an apply syncs what it has written before it answers, a rotation
  syncs the segment it closes, and nothing else writes to the log. So whatever the failure takes,
  the log is there.
\<close>

definition log_synced :: "u16 \<Rightarrow> disk \<Rightarrow> bool" where
  "log_synced shard d =
     (\<forall>name g c. parse_segment_filename name = Some (shard, g) \<longrightarrow> disk_file d name = Some c \<longrightarrow>
        dk_synced d name = Some (length c))"

lemma log_synced_files:
  "log_synced shard d \<Longrightarrow> stores crc shard segs d \<Longrightarrow> files_synced crc shard segs d"
  unfolding log_synced_def files_synced_def stores_def log_name_def by (metis parse_segment_filename_roundtrip)

lemma files_log_synced:
  assumes "files_synced crc shard segs d" and "stores crc shard segs d"
  shows "log_synced shard d"
  unfolding log_synced_def
proof (intro allI impI)
  fix name g c assume n: "parse_segment_filename name = Some (shard, g)" "disk_file d name = Some c"
  then have "name = segment_filename shard g \<and> g \<in> sg_id ` set segs"
    using assms(2) unfolding stores_def by blast
  then obtain s where s: "s \<in> set segs" "name = log_name shard s" by (auto simp: log_name_def)
  with n(2) assms(2) have "c = segment_bytes crc shard s" by (simp add: stores_def log_name_def)
  with s assms(1) show "dk_synced d name = Some (length c)" by (simp add: files_synced_def)
qed

lemma log_synced_same: "same_disk d d' \<Longrightarrow> log_synced shard d' = log_synced shard d"
  by (simp add: log_synced_def same_disk_facts)

lemma stores_after_loss:
  assumes "log_synced shard d" and st: "stores crc shard segs d" and loss: "power_loss d d'"
  shows "stores crc shard segs d'"
proof -
  note pl = power_loss_file [OF loss]
  have "disk_file d' (log_name shard s) = Some (segment_bytes crc shard s)" if "s \<in> set segs" for s
  proof -
    have f: "disk_file d (log_name shard s) = Some (segment_bytes crc shard s)"
      using st that by (simp add: stores_def log_name_def)
    moreover have "dk_synced d (log_name shard s) = Some (length (segment_bytes crc shard s))"
      using log_synced_files [OF assms(1) st] that by (simp add: files_synced_def)
    ultimately show ?thesis using pl(2) by fastforce
  qed
  then have "\<forall>s \<in> set segs. segment_fits crc s \<and>
      disk_file d' (segment_filename shard (sg_id s)) = Some (segment_bytes crc shard s)"
    using st by (simp add: stores_def log_name_def)
  moreover have "\<forall>name g. parse_segment_filename name = Some (shard, g) \<longrightarrow> disk_file d' name \<noteq> None \<longrightarrow>
      name = segment_filename shard g \<and> g \<in> sg_id ` set segs"
    using st pl(1) unfolding stores_def by metis
  moreover have "disk_ok d'" "dk_exists d'" "sorted_wrt (<) (map sg_id segs)" using st pl(4,5) by (simp_all add: stores_def)
  ultimately show ?thesis unfolding stores_def by blast
qed

subsection \<open>Calls that only read\<close>

lemma same_disk_refl [simp]: "same_disk d d"
  by (simp add: same_disk_def)

lemma same_disk_trans: "same_disk a b \<Longrightarrow> same_disk b c \<Longrightarrow> same_disk a c"
  by (auto simp: same_disk_def intro: same_files_trans)

lemma reading_same_disk:
  "io_open name d = (r1, d') \<Longrightarrow> same_disk d d'"
  "io_read_exact_at name off len d = (r2, d') \<Longrightarrow> same_disk d d'"
  by (auto simp: io_open_def io_read_exact_at_def io_guard_def split: prod.splits io_outcome.splits
      option.splits if_splits dest!: next_outcome_same_disk)

lemma list_segments_same_disk: "list_segments shard d = (res, d') \<Longrightarrow> same_disk d d'"
  using list_segments_same [of shard d res d']
  by (auto simp: same_disk_def list_segments_def and_then_def dest: reading_synced(1)
      split: if_splits prod.splits sum.splits)

lemma get_or_open_same_disk: "get_or_open_segment g (rd, d) = (res, rd', d') \<Longrightarrow> same_disk d d'"
  by (auto simp: get_or_open_segment_def and_then_def beside_def map_err_def split: option.splits prod.splits sum.splits
      dest: list_segments_same_disk reading_same_disk(1) intro: same_disk_trans)

lemma read_record_same_disk:
  assumes "read_record crc sid lsn idx (rd, d) = (res, rd', d')"
  shows "same_disk d d'"
proof (cases "index_lookup idx sid lsn")
  case (Some loc)
  obtain f rd1 d1 where g: "get_or_open_segment (loc_segment_id loc) (rd, d) = (f, rd1, d1)"
    using prod_cases3 by blast
  note s = get_or_open_same_disk [OF g]
  show ?thesis
    using assms Some g s by (auto simp: read_record_def and_then_def beside_def map_err_def
        split: sum.splits prod.splits fault.splits dest: reading_same_disk(2) intro: same_disk_trans)
qed (use assms in \<open>simp add: read_record_def\<close>)

definition same_log :: "('r, 'm, 'c) engine \<Rightarrow> ('r, 'm, 'c) engine \<Rightarrow> bool" where
  "same_log e e' = (same_disk (eg_disk e) (eg_disk e') \<and> eg_shard_id e' = eg_shard_id e)"

lemma same_log_core: "engine_core e' = engine_core e \<Longrightarrow> same_log e e'"
  by (simp add: same_log_def engine_core_def)

lemma same_log_refl [simp]: "same_log e e"
  by (simp add: same_log_def)

lemma same_log_trans: "same_log a b \<Longrightarrow> same_log b c \<Longrightarrow> same_log a c"
  by (auto simp: same_log_def intro: same_disk_trans)

lemma same_log_respond [simp]:
  "same_log e (snd (send_response conn st ep off pl e'')) = same_log e e''"
  "same_log e (snd (raft_call f e'')) = same_log e e''"
  using send_response_core [of conn st ep off pl e''] raft_call_core [of f e''] by (auto simp: same_log_def engine_core_def)

lemma same_log_fields [simp]:
  "same_log e (e'\<lparr>eg_streams := t\<rparr>) = same_log e e'" "same_log e (e'\<lparr>eg_pending := ps\<rparr>) = same_log e e'"
  "same_log e (e'\<lparr>eg_request_seq := n\<rparr>) = same_log e e'"
  "same_log e (e'\<lparr>eg_reader := rd, eg_disk := d\<rparr>) = (same_disk (eg_disk e) d \<and> eg_shard_id e' = eg_shard_id e)"
  by (simp_all add: same_log_def)

lemma handle_client_request_log: "same_log e (snd (handle_client_request crc api req e))"
proof -
  have "same_log e (snd (read_stream crc conn sid lsn e))" for conn sid lsn
    using read_record_same_disk [of crc sid lsn "eg_index e" "eg_reader e" "eg_disk e"]
    by (auto simp: read_stream_def Let_def split: option.split prod.split sum.split fault.split)
  then show ?thesis
    by (auto simp: handle_client_request_def handle_write_def send_not_leader_def Let_def
        split: op_code.split prod.split option.split sum.split epoch_fence_error.split)
qed

lemma process_client_requests_log: "same_log e (snd (process_client_requests crc api reqs e))"
proof (induction reqs arbitrary: e)
  case (Cons req reqs)
  have "same_log e s \<Longrightarrow> same_log e (snd (process_client_requests crc api reqs s))" for s
    using Cons.IH same_log_trans by blast
  then show ?case
    unfolding process_client_requests.simps
    by (intro and_then_ok [where P = "same_log e"] handle_client_request_log) auto
qed simp

lemma log_raft_state_log: "same_log e (log_raft_state_if_changed api e)"
proof -
  have "same_log s s' \<Longrightarrow> same_log s (fail_pending leader ps s')" for leader ps and s s' :: "('a, 'b, 'c) engine"
    by (induction ps arbitrary: s') (simp_all add: Let_def)
  moreover have "same_log s (s'\<lparr>eg_observed_role := a, eg_observed_leader := b\<rparr>) = same_log s s'"
    for s s' :: "('a, 'b, 'c) engine" and a b
    by (simp add: same_log_def)
  ultimately show ?thesis
    by (simp add: log_raft_state_if_changed_def fail_pending_writes_not_leader_def Let_def)
qed

subsection \<open>Calls that write\<close>

abbreviation engine_synced :: "('r, 'm, 'c) engine \<Rightarrow> bool" where
  "engine_synced e \<equiv> log_synced (eg_shard_id e) (eg_disk e)"

lemma same_log_synced: "same_log e e' \<Longrightarrow> engine_synced e \<Longrightarrow> engine_synced e'"
  using log_synced_same unfolding same_log_def by metis

lemma apply_append_entry_synced:
  assumes ok: "engine_ok crc A segs e" and fits: "length (cmd_payload cmd) + 48 < 2 ^ 32"
    and seg: "ww_next_segment_id (eg_writer e) \<noteq> 0" and sy: "engine_synced e"
    and run: "apply_append_entry crc p api i tm cmd e = (Inr (), e')"
  shows "engine_synced e'"
proof -
  let ?w = "eg_writer e"
  have at: "writer_at crc segs (?w, eg_disk e)" and tail: "sg_tail (last segs) = []"
    and shard: "ww_shard_id ?w = eg_shard_id e"
    and room: "length (segment_bytes crc (ww_shard_id ?w) (last segs)) < 2 ^ 64"
    using ok by (auto simp: engine_ok_def sizes_ok_def)
  then have others: "files_synced crc (ww_shard_id ?w) (butlast segs) (eg_disk e)"
    using log_synced_files [OF sy] by (auto simp: writer_at_def intro: files_synced_butlast)
  from apply_append_entry_Inr [OF run] obtain el w d u d1 where
    a: "append_write crc (cmd_write (eg_now e) i cmd) (?w, eg_disk e) = (Inr el, w, d)"
    and sync: "writer_sync w d = (Inr u, d1)"
    and core: "eg_disk e' = d1" "eg_shard_id e' = eg_shard_id e" by (auto simp: engine_core_def)
  obtain eid loc where el: "el = (eid, loc)" by force
  have "lw_fits (cmd_write (eg_now e) i cmd)" using fits by simp
  from append_synced [OF at tail this seg room others a [unfolded el]] obtain segs' where
    app: "appended crc (cmd_write (eg_now e) i cmd) loc segs ?w segs' (w, d)"
    and others': "files_synced crc (ww_shard_id ?w) (butlast segs') d" by blast
  then have w: "writer_at crc segs' (w, d)" "ww_shard_id w = ww_shard_id ?w" by (simp_all add: appended_def)
  with sync_synced [OF w(1) _ sync] others' have "writer_at crc segs' (w, d1)" "files_synced crc (ww_shard_id w) segs' d1"
    by simp_all
  then show ?thesis using files_log_synced w(2) shard by (auto simp: core writer_at_def)
qed

lemma apply_committed_synced:
  assumes "engine_ok crc A segs e" and "entries_fit es" and "ww_next_segment_id (eg_writer e) \<noteq> 0"
    and "unat (ww_next_segment_id (eg_writer e)) + length es < 2 ^ 64" and "engine_synced e"
    and "apply_committed crc p api es e = (Inr (), e')"
  shows "engine_synced e'"
  using assms
proof (induction es arbitrary: A segs e)
  case (Cons en es)
  have fits: "entries_fit es" and len: "length (en_data en) + 48 < 2 ^ 32"
    using Cons.prems(2) by (simp_all add: entries_fit_def)
  show ?case
  proof (cases "en_data en = [] \<or> en_type en \<noteq> EntryNormal")
    case True
    then have "apply_committed crc p api es e = (Inr (), e')" using Cons.prems(6) by (auto split: if_splits)
    from Cons.IH [OF Cons.prems(1) fits Cons.prems(3) _ Cons.prems(5) this] Cons.prems(4) show ?thesis by simp
  next
    case False
    with Cons.prems(6) obtain cmd e1 where cmd: "decode_append_command (en_data en) = Inr cmd"
      and e1: "apply_append_entry crc p api (en_index en) (en_term en) cmd e = (Inr (), e1)"
      and rest: "apply_committed crc p api es e1 = (Inr (), e')"
      by (auto simp: and_then_Inr split: sum.splits)
    have small: "length (cmd_payload cmd) + 48 < 2 ^ 32" using decoded_payload_length [OF cmd] len by simp
    note sy = apply_append_entry_synced [OF Cons.prems(1) small Cons.prems(3,5) e1]
    from apply_append_entry_ok [OF Cons.prems(1) small Cons.prems(3) e1] obtain segs1 where
      ok1: "engine_ok crc (A @ [cmd]) segs1 e1" and "ww_next_segment_id (eg_writer e1) \<in>
        {ww_next_segment_id (eg_writer e), ww_next_segment_id (eg_writer e) + 1}" by blast
    moreover from this(2) have "ww_next_segment_id (eg_writer e1) \<noteq> 0"
      "unat (ww_next_segment_id (eg_writer e1)) + length es < 2 ^ 64"
      using unat_Suc_add [OF Cons.prems(3), of "length es"] Cons.prems(3,4)
        unat_add_1 [of "ww_next_segment_id (eg_writer e)"] by auto
    ultimately show ?thesis using Cons.IH [OF ok1 fits _ _ sy rest] by blast
  qed
qed auto

lemma remove_synced:
  assumes "io_remove_file name d = (res, d')" and "disk_ok d" and "log_synced shard d"
  shows "disk_ok d' \<and> log_synced shard d'"
proof -
  obtain f d0 where o: "next_outcome d = (f, d0)" by force
  note same = same_disk_facts [OF next_outcome_same_disk [OF o]]
  have "disk_ok d0" "log_synced shard d0" using assms(2,3) same by (simp_all add: log_synced_def)
  with assms(1) o show ?thesis
    by (cases f) (auto simp: io_remove_file_def io_guard_def log_synced_def disk_file_def disk_ok_def split: option.splits)
qed

lemma gc_segments_synced:
  "gc_segments live cur ss e = (res, e') \<Longrightarrow> disk_ok (eg_disk e) \<Longrightarrow> engine_synced e \<Longrightarrow> engine_synced e'"
proof (induction ss arbitrary: e)
  case (Cons s ss)
  show ?case
  proof (cases "fst s = cur \<or> fst s \<in> live")
    case True
    then show ?thesis using Cons.IH [OF _ Cons.prems(2,3)] Cons.prems(1) by (auto split: if_splits)
  next
    case False
    obtain r d where rm: "io_remove_file (snd s) (eg_disk e) = (r, d)" by force
    from remove_synced [OF rm Cons.prems(2,3)] Cons.IH
      [of "e\<lparr>eg_reader := evict_segment (fst s) (eg_reader e), eg_disk := d\<rparr>"] Cons.prems(1) False rm
    show ?thesis by (auto simp: Let_def split: sum.splits)
  qed
qed simp

lemma run_gc_synced:
  assumes run: "run_gc e = (res, e')" and ok: "disk_ok (eg_disk e)" and sy: "engine_synced e"
  shows "engine_synced e'"
proof -
  obtain l d where l: "list_segments (eg_shard_id e) (eg_disk e) = (l, d)" by force
  note same = list_segments_same_disk [OF l]
  have "disk_ok d" "log_synced (eg_shard_id e) d" using same ok sy by (simp_all add: log_synced_same same_disk_facts)
  with run l show ?thesis
    by (auto simp: run_gc_def Let_def split: sum.splits dest!: gc_segments_synced)
qed

subsection \<open>Rounds\<close>

lemma run_round_synced:
  assumes ok: "engine_ok crc A segs e" and api: "api_bounded api n"
    and seg: "ww_next_segment_id (eg_writer e) \<noteq> 0"
    and room: "unat (ww_next_segment_id (eg_writer e)) + n < 2 ^ 64" and sy: "engine_synced e"
    and run: "run_round crc p api inp e = (Inr (), e')"
  shows "engine_synced e'"
proof -
  from run_round_Inr [OF run] obtain e0 e1 e2 e3 where
    c0: "engine_core e0 = engine_core e" and
    e1: "e1 = (case li_wake inp of
        WakeRequests reqs \<Rightarrow> snd (process_client_requests crc api reqs e0)
      | WakeRaft ms \<Rightarrow> snd (process_raft_messages api ms e0) | WakeTimer \<Rightarrow> e0)" and
    c2: "engine_core e2 = engine_core e1" and drive: "drive_ready crc p api e2 = (Inr (), e3)" and
    gc: "(if li_gc_due inp then run_gc (log_raft_state_if_changed api e3)
      else (Inr (), log_raft_state_if_changed api e3)) = (Inr (), e')" by blast
  have e0: "engine_ok crc A segs e0" "eg_writer e0 = eg_writer e"
    using ok engine_ok_core [OF c0] engine_core_writer [OF c0] by simp_all
  then have "engine_ok crc A segs e1 \<and> eg_writer e1 = eg_writer e"
    unfolding e1 by (auto simp: wake_keeps_writer engine_ok_core [OF process_raft_messages_core]
        process_client_requests_ok split: wake_up.split)
  then have e2: "engine_ok crc A segs e2" "eg_writer e2 = eg_writer e"
    using engine_ok_core [OF c2] engine_core_writer [OF c2] by auto
  have "same_log e0 e1"
    unfolding e1 using process_client_requests_log same_log_core [OF process_raft_messages_core]
    by (auto split: wake_up.split)
  with same_log_trans same_log_core [OF c0] same_log_core [OF c2] have "same_log e e2" by blast
  from same_log_synced [OF this sy] have sy2: "engine_synced e2" .
  have sy3: "engine_synced e3 \<and> disk_ok (eg_disk e3)"
  proof (cases "ra_has_ready api (eg_store e2) (eg_raft e2)")
    case True
    from drive_ready_committed [OF drive True] obtain a b where
      cores: "engine_core a = engine_core e2" "engine_core e3 = engine_core b"
      and app: "apply_committed crc p api (ready_cmds api e2) a = (Inr (), b)"
      by (auto simp: ready_cmds_def True)
    have a: "engine_ok crc A segs a" "engine_synced a"
      using e2 sy2 engine_ok_core [OF cores(1)] same_log_synced [OF same_log_core [OF cores(1)]] by auto
    have "entries_fit (ready_cmds api e2)" "length (ready_cmds api e2) \<le> n"
      using api True by (auto simp: api_bounded_def ready_cmds_def)
    with apply_committed_synced [OF a(1) _ _ _ a(2) app] apply_committed_ok [OF a(1) _ _ _ app] seg room
      engine_core_writer [OF cores(1)] e2(2)
    have "engine_synced b" "\<exists>B segs'. engine_ok crc B segs' b" by fastforce+
    moreover have "engine_ok crc B segs' b \<Longrightarrow> disk_ok (eg_disk b)" for B segs'
      by (simp add: engine_ok_def writer_at_def stores_def)
    ultimately show ?thesis using cores(2) by (auto simp: engine_core_def)
  next
    case False
    with drive sy2 e2(1) show ?thesis by (auto simp: drive_ready_def engine_ok_def writer_at_def stores_def)
  qed
  have "same_log e3 (log_raft_state_if_changed api e3)" by (rule log_raft_state_log)
  with sy3 have "engine_synced (log_raft_state_if_changed api e3)"
    and "disk_ok (eg_disk (log_raft_state_if_changed api e3))"
    using same_log_synced same_disk_facts(1) unfolding same_log_def by metis+
  with gc run_gc_synced show ?thesis by (auto split: if_splits)
qed

lemma engine_reaches_synced:
  assumes "engine_reaches crc p api e k e'" and ok: "engine_ok crc A segs e"
    and api: "api_bounded api n" and "ww_next_segment_id (eg_writer e) \<noteq> 0"
    and "unat (ww_next_segment_id (eg_writer e)) + k * n < 2 ^ 64" and "engine_synced e"
  shows "engine_synced e'"
  using assms(1,5)
proof (induction rule: engine_reaches.induct)
  case reach_start
  show ?case by (rule assms(6))
next
  case (reach_round k e1 inp e2)
  then have "unat (ww_next_segment_id (eg_writer e)) + k * n < 2 ^ 64" by simp
  with reach_round.IH engine_reaches_ok [OF reach_round.hyps(1) ok api assms(4)] obtain B segs1 where
    ok1: "engine_ok crc (A @ B) segs1 e1" "ww_next_segment_id (eg_writer e1) \<noteq> 0"
    "unat (ww_next_segment_id (eg_writer e1)) \<le> unat (ww_next_segment_id (eg_writer e)) + k * n"
    and sy1: "engine_synced e1" by blast
  with reach_round.prems have "unat (ww_next_segment_id (eg_writer e1)) + n < 2 ^ 64" by simp
  from run_round_synced [OF ok1(1) api ok1(2) this sy1 reach_round.hyps(2)] show ?case .
qed

lemma shard_applied: "apply_committed crc p api es e = (Inr (), e') \<Longrightarrow> eg_shard_id e' = eg_shard_id e"
proof (induction es arbitrary: e)
  case (Cons en es)
  then show ?case
    by (auto simp: and_then_Inr split: if_splits sum.splits
        dest!: apply_append_entry_Inr simp: engine_core_def)
qed simp

lemma shard_gc: "gc_segments live cur ss e = (res, e') \<Longrightarrow> eg_shard_id e' = eg_shard_id e"
  by (induction ss arbitrary: e) (fastforce simp: Let_def split: if_splits prod.splits sum.splits)+

lemma shard_round:
  assumes run: "run_round crc p api inp e = (Inr (), e')"
  shows "eg_shard_id e' = eg_shard_id e"
proof -
  from run_round_Inr [OF run] obtain e0 e1 e2 e3 where
    c0: "engine_core e0 = engine_core e" and
    e1: "e1 = (case li_wake inp of
        WakeRequests reqs \<Rightarrow> snd (process_client_requests crc api reqs e0)
      | WakeRaft ms \<Rightarrow> snd (process_raft_messages api ms e0) | WakeTimer \<Rightarrow> e0)" and
    c2: "engine_core e2 = engine_core e1" and drive: "drive_ready crc p api e2 = (Inr (), e3)" and
    gc: "(if li_gc_due inp then run_gc (log_raft_state_if_changed api e3)
      else (Inr (), log_raft_state_if_changed api e3)) = (Inr (), e')" by blast
  have "same_log e0 e1"
    unfolding e1 using process_client_requests_log same_log_core [OF process_raft_messages_core]
    by (auto split: wake_up.split)
  with same_log_trans same_log_core [OF c0] same_log_core [OF c2] have "eg_shard_id e2 = eg_shard_id e"
    by (auto simp: same_log_def)
  moreover have "eg_shard_id e3 = eg_shard_id e2"
  proof (cases "ra_has_ready api (eg_store e2) (eg_raft e2)")
    case True
    from drive_ready_committed [OF drive True] shard_applied show ?thesis by (fastforce simp: engine_core_def)
  qed (use drive in \<open>simp add: drive_ready_def\<close>)
  moreover have "eg_shard_id (log_raft_state_if_changed api e3) = eg_shard_id e3"
    using log_raft_state_log [of e3 api] by (simp add: same_log_def)
  moreover have "eg_shard_id e' = eg_shard_id (log_raft_state_if_changed api e3)"
    using gc by (auto simp: run_gc_def Let_def split: if_splits prod.splits sum.splits dest: shard_gc)
  ultimately show ?thesis by simp
qed

lemma shard_reached: "engine_reaches crc p api e k e' \<Longrightarrow> eg_shard_id e' = eg_shard_id e"
  by (induction rule: engine_reaches.induct) (auto dest: shard_round)

text \<open>A directory that opens with its files synced has them synced.\<close>

lemma open_synced:
  assumes "stores crc shard segs d" and "segs \<noteq> []" and sy: "log_synced shard d"
    and run: "engine_open crc p new_node voters shard cfg now rd d = (Inr e, rd', d')"
  shows "engine_synced e"
proof -
  from engine_open_Inr [OF run] obtain t base w idx t' where
    w: "writer_open crc now shard (cfg_segment_max_bytes cfg) (cfg_tail_cache_entries cfg) (Some t)
      base d = (Inr (w, idx, t'), d')" and e: "eg_shard_id e = shard" "eg_disk e = d'"
    by blast
  have st': "stores crc shard segs d'" using writer_open_stores(1) [OF assms(1,2) refl w] by simp
  have "files_synced crc shard segs d'"
    using log_synced_files [OF sy assms(1)] writer_open_synced [OF assms(1,2) w] by (simp add: files_synced_def)
  from files_log_synced [OF this st'] show ?thesis by (simp add: e)
qed


text \<open>The example directory is opened, an entry is applied, and the power fails.\<close>

lemma demo_opened:
  "\<exists>(e :: (nat, nat, u64) engine) rd'. engine_open demo_crc demo_proto (\<lambda>_. Inr 0) (\<lambda>_. 5) 1 default_config 5
     (demo_raft_disk []) (demo_disk demo_segment) = (Inr e, rd', demo_disk demo_segment) \<and>
   eg_disk e = demo_disk demo_segment \<and> eg_store e = bootstrap_state 5 \<and> eg_raft e = 0 \<and>
   ww_next_segment_id (eg_writer e) = 3"
proof -
  have calm: "dk_faults (demo_disk demo_segment) = []" by (simp add: demo_disk_def)
  obtain rd' where st: "storage_open demo_proto 5 (demo_raft_disk []) = (Inr (bootstrap_state 5), rd')"
    using storage_open_saved [OF demo_raft_saved] by (auto simp: demo_raft_disk_def)
  have snap: "decode_snapshot limit (sn_data (ps_snapshot (bootstrap_state 5))) = Inr (table_new limit)" for limit
    by (simp add: bootstrap_state_def decode_snapshot_def)
  show ?thesis
    using writer_open_stores(2) [OF demo_stores _ refl calm]
    by (simp add: engine_open_def st snap opened_def) (simp add: demo_segment_def)
qed


end
