(* ===== verification/Batcher.thy ===== *)
theory Batcher
  imports Writer
begin

text \<open>
  The group commit batcher (\<open>shard/batch.rs\<close>). An \<open>Instant\<close> is a number of nanoseconds since
  some start; the calls that read the clock get it as an argument. The engine does not use the
  batcher: it syncs every record on its own.
\<close>

record group_commit_batcher =
  gb_pending :: "pending_write list"
  gb_max_batch_size :: nat
  gb_first_pending_at :: "nat option"

definition batcher_new :: "nat \<Rightarrow> group_commit_batcher" where
  "batcher_new max_batch_size =
     \<lparr>gb_pending = [], gb_max_batch_size = max_batch_size, gb_first_pending_at = None\<rparr>"

definition batcher_push :: "nat \<Rightarrow> pending_write \<Rightarrow> group_commit_batcher \<Rightarrow> group_commit_batcher" where
  "batcher_push now pw b =
     (let b = (if gb_pending b = [] then b\<lparr>gb_first_pending_at := Some now\<rparr> else b)
      in b\<lparr>gb_pending := gb_pending b @ [pw]\<rparr>)"

definition is_batch_full :: "group_commit_batcher \<Rightarrow> bool" where
  "is_batch_full b = (gb_max_batch_size b \<le> length (gb_pending b))"

definition has_pending :: "group_commit_batcher \<Rightarrow> bool" where
  "has_pending b = (gb_pending b \<noteq> [])"

definition batcher_drain :: "group_commit_batcher \<Rightarrow> pending_write list \<times> group_commit_batcher" where
  "batcher_drain b = (gb_pending b, b\<lparr>gb_first_pending_at := None, gb_pending := []\<rparr>)"

definition should_flush :: "nat \<Rightarrow> nat \<Rightarrow> group_commit_batcher \<Rightarrow> bool" where
  "should_flush now max_delay b =
     (is_batch_full b \<or>
      (case gb_first_pending_at b of Some started \<Rightarrow> max_delay \<le> now - started | None \<Rightarrow> False))"

text \<open>A use of the batcher: writes that arrive at some time, and drains.\<close>

datatype batch_call = Push nat pending_write | Drain

primrec batch_run :: "batch_call list \<Rightarrow> group_commit_batcher \<Rightarrow> pending_write list list \<times> group_commit_batcher" where
  "batch_run [] b = ([], b)"
| "batch_run (c # cs) b =
     (case c of
        Push now pw \<Rightarrow> batch_run cs (batcher_push now pw b)
      | Drain \<Rightarrow>
          (case batcher_drain b of (out, b) \<Rightarrow>
             (case batch_run cs b of (outs, b) \<Rightarrow> (out # outs, b))))"

primrec pushed :: "batch_call list \<Rightarrow> (nat \<times> pending_write) list" where
  "pushed [] = []"
| "pushed (c # cs) = (case c of Push now pw \<Rightarrow> (now, pw) # pushed cs | Drain \<Rightarrow> pushed cs)"

text \<open>The oldest write that is still waiting decides when the timer expires.\<close>

definition batcher_ok :: "group_commit_batcher \<Rightarrow> (nat \<times> pending_write) list \<Rightarrow> bool" where
  "batcher_ok b waiting =
     (gb_pending b = map snd waiting \<and>
      gb_first_pending_at b = (case waiting of [] \<Rightarrow> None | (t, _) # _ \<Rightarrow> Some t))"

lemma batcher_ok_new: "batcher_ok (batcher_new n) []"
  by (simp add: batcher_ok_def batcher_new_def)

lemma batcher_ok_push: "batcher_ok b ws \<Longrightarrow> batcher_ok (batcher_push now pw b) (ws @ [(now, pw)])"
  by (cases ws) (auto simp: batcher_ok_def batcher_push_def Let_def)

lemma batcher_ok_drain: "batcher_ok (snd (batcher_drain b)) []"
  by (simp add: batcher_ok_def batcher_drain_def)

lemma batch_run_ok:
  assumes "batcher_ok b ws"
  shows "\<exists>done waiting. ws @ pushed cs = done @ waiting \<and> batcher_ok (snd (batch_run cs b)) waiting \<and>
    concat (fst (batch_run cs b)) = map snd done"
  using assms
proof (induction cs arbitrary: b ws)
  case (Cons c cs)
  show ?case
  proof (cases c)
    case (Push now pw)
    with Cons.IH [OF batcher_ok_push [OF Cons.prems, of now pw]] show ?thesis by simp
  next
    case Drain
    obtain outs b' where r: "batch_run cs (snd (batcher_drain b)) = (outs, b')" by force
    with Cons.IH [OF batcher_ok_drain, of b] obtain dn waiting where
      "pushed cs = dn @ waiting" "batcher_ok b' waiting" "concat outs = map snd dn" by auto
    with Drain r Cons.prems show ?thesis
      by (intro exI [of _ "ws @ dn"] exI [of _ waiting])
        (simp add: batcher_drain_def batcher_ok_def split: prod.splits)
  qed
qed (use assms in \<open>auto intro: exI [of _ "[]"]\<close>)

text \<open>
  The batcher loses, duplicates and reorders nothing, and its timer is the age of the oldest
  write in it. After any sequence of pushes and drains on a fresh batcher, the writes handed
  out by the drains, in order, followed by the ones still held, are exactly the writes pushed;
  and it asks for a flush exactly when the held batch is full or the first held write has been
  waiting for the maximal delay.
\<close>

theorem batcher_keeps_writes:
  assumes "batch_run cs (batcher_new n) = (outs, b)"
  shows "\<exists>out held. pushed cs = out @ held \<and> concat outs = map snd out \<and> gb_pending b = map snd held \<and>
    (should_flush now delay b \<longleftrightarrow>
       gb_max_batch_size b \<le> length held \<or> (held \<noteq> [] \<and> delay \<le> now - fst (hd held)))"
proof -
  obtain out held where "pushed cs = out @ held" "batcher_ok b held" "concat outs = map snd out"
    using batch_run_ok [OF batcher_ok_new, of cs n] assms by auto
  then show ?thesis
    by (intro exI [of _ out] exI [of _ held])
      (auto simp: batcher_ok_def should_flush_def is_batch_full_def split: list.splits)
qed

definition demo_pw :: "u64 \<Rightarrow> pending_write" where
  "demo_pw n = \<lparr>pw_connection_id = n, pw_stream_id = 7, pw_epoch = 1, pw_log_index = n, pw_raft_term = 1,
     pw_stream_lsn = n, pw_location = \<lparr>loc_segment_id = 0, loc_offset = 64, loc_size = 49\<rparr>, pw_payload = [1]\<rparr>"

lemma batcher_keeps_writes_witness:
  "\<exists>outs b. batch_run [Push 10 (demo_pw 1), Push 20 (demo_pw 2), Drain, Push 30 (demo_pw 3)] (batcher_new 4) =
     (outs, b) \<and> outs = [[demo_pw 1, demo_pw 2]] \<and> gb_pending b = [demo_pw 3] \<and>
     should_flush 240 200 b \<and> \<not> should_flush 100 200 b"
proof -
  let ?cs = "[Push 10 (demo_pw 1), Push 20 (demo_pw 2), Drain, Push 30 (demo_pw 3)]"
  obtain outs b where run: "batch_run ?cs (batcher_new 4) = (outs, b)" by force
  then have outs: "outs = [[demo_pw 1, demo_pw 2]]" "gb_max_batch_size b = 4"
    by (auto simp: batcher_push_def batcher_drain_def batcher_new_def Let_def)
  from batcher_keeps_writes [OF run, of 240 200] outs have "gb_pending b = [demo_pw 3]" "should_flush 240 200 b"
    by auto
  moreover from batcher_keeps_writes [OF run, of 100 200] outs have "\<not> should_flush 100 200 b" by auto
  ultimately show ?thesis using run outs by blast
qed

end
