(* ===== verification/Router.thy ===== *)
theory Router
  imports Prelude
begin

text \<open>
  The assignment of streams to shards (\<open>shard/router.rs\<close>). The hash function xxh3 is a
  parameter. The remainder by zero shards is a panic (\<open>None\<close>).
\<close>

record shard_router =
  rt_num_shards :: u16

definition router_new :: "u16 \<Rightarrow> shard_router" where
  "router_new num_shards = \<lparr>rt_num_shards = num_shards\<rparr>"

definition route_stream :: "(bytes \<Rightarrow> u64) \<Rightarrow> shard_router \<Rightarrow> u64 \<Rightarrow> u16 option" where
  "route_stream xxh3 r stream_id =
     (if rt_num_shards r = 0 then None
      else Some (ucast (xxh3 (be64 stream_id) mod ucast (rt_num_shards r))))"

lemma route_stream_panics_iff: "route_stream xxh3 r sid = None \<longleftrightarrow> rt_num_shards r = 0"
  by (simp add: route_stream_def)

lemma route_stream_unat:
  "route_stream xxh3 r sid = Some i \<Longrightarrow>
   unat i = unat (xxh3 (be64 sid)) mod unat (rt_num_shards r)"
proof -
  assume "route_stream xxh3 r sid = Some i"
  then have i: "i = ucast (xxh3 (be64 sid) mod ucast (rt_num_shards r))" and "rt_num_shards r \<noteq> 0"
    by (auto simp: route_stream_def split: if_splits)
  let ?n = "unat (rt_num_shards r)"
  have "0 < ?n" and lt: "?n < 65536"
    using \<open>rt_num_shards r \<noteq> 0\<close> unat_less_power [of "rt_num_shards r"]
    by (simp_all add: unat_gt_0)
  then have "unat (xxh3 (be64 sid)) mod ?n < 65536"
    by (meson mod_less_divisor order_less_trans)
  moreover have "take_bit 64 ?n = ?n" using lt by (intro take_bit_nat_eq_self) simp
  ultimately show ?thesis
    by (simp add: i unsigned_ucast_eq unat_mod take_bit_nat_eq_self)
qed

text \<open>The index is always one of the shards.\<close>

lemma route_stream_in_range:
  "route_stream xxh3 r sid = Some i \<Longrightarrow> unat i < unat (rt_num_shards r)"
  using route_stream_unat [of xxh3 r sid i]
  by (auto simp: route_stream_def unat_gt_0 split: if_splits)

end
