(* ===== verification/RaftFrames.thy ===== *)
theory RaftFrames
  imports Framing RaftLog
begin

text \<open>
  The frames in which nodes exchange raft messages (\<open>channel/mod.rs\<close>): group id, length and
  the message as the protobuf library writes it. Writing and parsing a message are parameters
  (\<open>None\<close>: the library reports an error).
\<close>

definition encode_raft_message ::
  "('m \<Rightarrow> bytes option) \<Rightarrow> u16 \<Rightarrow> 'm \<Rightarrow> unit + bytes" where
  "encode_raft_message write group_id message =
     (case write message of
        None \<Rightarrow> Inl ()
      | Some body \<Rightarrow> Inr (be16 group_id @ be32 (word_of_nat (length body)) @ body))"

definition try_decode_raft_message ::
  "(bytes \<Rightarrow> 'm option) \<Rightarrow> bytes \<Rightarrow> unit + ((u16 \<times> 'm) \<times> nat) option" where
  "try_decode_raft_message parse buf =
     (if length buf < 6 then Inr None
      else let group_id = of_be16 (subslice buf 0 2); len = unat (of_be32 (subslice buf 2 6)) in
        if length buf < 6 + len then Inr None
        else case parse (subslice buf 6 (6 + len)) of
               None \<Rightarrow> Inl ()
             | Some msg \<Rightarrow> Inr (Some ((group_id, msg), 6 + len)))"

text \<open>What a sender puts on the wire for one message; a message the library can write.\<close>

definition raft_frame :: "('m \<Rightarrow> bytes option) \<Rightarrow> u16 \<times> 'm \<Rightarrow> bytes" where
  "raft_frame write = (\<lambda>(g, m). case encode_raft_message write g m of Inr f \<Rightarrow> f | Inl _ \<Rightarrow> [])"

definition writable :: "('m \<Rightarrow> bytes option) \<Rightarrow> u16 \<times> 'm \<Rightarrow> bool" where
  "writable write gm = (write (snd gm) \<noteq> None)"

lemma raft_frame_writable:
  assumes "message_ok write parse" and "writable write gm"
  obtains body where "raft_frame write gm = be16 (fst gm) @ be32 (word_of_nat (length body)) @ body"
    and "write (snd gm) = Some body" and "parse body = Some (snd gm)" and "length body < 2 ^ 32"
  using assms
  by (cases gm) (auto simp: writable_def message_ok_def raft_frame_def encode_raft_message_def)

text \<open>
  With a message format that parses back what it writes, raft frames are a frame codec: the
  contract under which the receive loop delivers exactly what was sent.
\<close>

lemma raft_frames_codec:
  assumes "message_ok write parse"
  shows "frame_codec (raft_frame write) (try_decode_raft_message parse) (writable write)"
proof
  fix gm rest assume "writable write gm"
  from raft_frame_writable [OF assms this] obtain body where
    "raft_frame write gm = be16 (fst gm) @ be32 (word_of_nat (length body)) @ body"
    "parse body = Some (snd gm)" "length body < 2 ^ 32" by blast
  then show "try_decode_raft_message parse (raft_frame write gm @ rest) =
      Inr (Some (gm, length (raft_frame write gm)))"
    by (simp add: try_decode_raft_message_def byte_simps Let_def)
next
  fix gm k assume "writable write gm" and k: "k < length (raft_frame write gm)"
  from raft_frame_writable [OF assms this(1)] obtain body where
    f: "raft_frame write gm = be16 (fst gm) @ be32 (word_of_nat (length body)) @ body"
    and small: "length body < 2 ^ 32" by blast
  show "try_decode_raft_message parse (take k (raft_frame write gm)) = Inr None"
  proof (cases "k < 6")
    case False
    then have "subslice (take k (raft_frame write gm)) 2 6 = be32 (word_of_nat (length body))"
      by (simp add: f subslice_take byte_simps)
    with False k small show ?thesis by (simp add: try_decode_raft_message_def Let_def f)
  qed (simp add: try_decode_raft_message_def min_less_iff_disj)
next
  fix buf gm n
  assume "try_decode_raft_message parse buf = Inr (Some (gm, n))"
  then show "0 < n \<and> n \<le> length buf"
    by (auto simp: try_decode_raft_message_def Let_def split: if_splits option.splits)
qed (simp add: try_decode_raft_message_def)

end
