(* ===== verification/Peer.thy ===== *)
theory Peer
  imports RaftFrames Engine
begin

text \<open>
  The transport between nodes (\<open>net/peer.rs\<close>): the routing of outbound messages to one queue
  per peer, the sender task of a peer with its batches, and the receive loop of an accepted
  connection, which hands each message to its raft group. A channel is known by a number; what
  a send on it meets (room, a full queue, a receiver that is gone) is an argument, as are the
  outcomes of connecting and writing. A full queue is retried.
\<close>

text \<open>The retry loop of one send, as in the engine.\<close>

primrec retry_send :: "send_result list \<Rightarrow> bool \<times> send_result list" where
  "retry_send [] = (True, [])"
| "retry_send (s # ss) =
     (case s of SendOk \<Rightarrow> (True, ss) | SendDisconnected \<Rightarrow> (False, ss) | SendFull \<Rightarrow> retry_send ss)"

subsection \<open>Outbound\<close>

record 'm outbound_router =
  or_queues :: "(u64, 'm raft_outbound list) hash_map"
  or_sends :: "send_result list"

text \<open>One message from a shard: to the queue of its target, or nowhere.\<close>

definition route_outbound :: "'m raft_outbound \<Rightarrow> 'm outbound_router \<Rightarrow> 'm outbound_router" where
  "route_outbound out r =
     (case hm_get (or_queues r) (ro_target_id out) of
        None \<Rightarrow> r
      | Some q \<Rightarrow>
          (case retry_send (or_sends r) of
             (True, ss) \<Rightarrow> r\<lparr>or_sends := ss,
               or_queues := hm_insert (ro_target_id out) (q @ [out]) (or_queues r)\<rparr>
           | (False, ss) \<Rightarrow> r\<lparr>or_sends := ss\<rparr>))"

text \<open>One pass over the shards' channels takes at most one message from each.\<close>

primrec pump_round ::
  "'m raft_outbound list list \<Rightarrow> 'm outbound_router \<Rightarrow> 'm raft_outbound list list \<times> 'm outbound_router" where
  "pump_round [] r = ([], r)"
| "pump_round (rx # rxs) r =
     (case rx of
        [] \<Rightarrow> (case pump_round rxs r of (rxs', r') \<Rightarrow> ([] # rxs', r'))
      | out # rest \<Rightarrow>
          (case pump_round rxs (route_outbound out r) of (rxs', r') \<Rightarrow> (rest # rxs', r')))"

subsection \<open>The sender of a peer\<close>

text \<open>\<open>ps_streams\<close> are the bytes written on each connection so far, the current one last; there
  is a current one if \<open>ps_connected\<close>.\<close>

record 'm peer_sender =
  ps_queue :: "'m raft_outbound list"
  ps_connected :: bool
  ps_streams :: "bytes list"

definition BATCH :: nat where "BATCH = 128"

primrec encode_batch :: "('m \<Rightarrow> bytes option) \<Rightarrow> 'm raft_outbound list \<Rightarrow> unit + bytes" where
  "encode_batch write [] = Inr []"
| "encode_batch write (out # outs) =
     (case encode_raft_message write (ro_group_id out) (ro_message out) of
        Inl e \<Rightarrow> Inl e
      | Inr frame \<Rightarrow>
          (case encode_batch write outs of Inl e \<Rightarrow> Inl e | Inr frames \<Rightarrow> Inr (frame @ frames)))"

definition write_on_last :: "bytes \<Rightarrow> bytes list \<Rightarrow> bytes list" where
  "write_on_last bs streams = butlast streams @ [last streams @ bs]"

text \<open>One round: \<open>connect_ok\<close> is the outcome of connecting, if there is no connection;
  \<open>written\<close> is \<open>None\<close> if the write succeeds, else how many bytes went out before it failed.\<close>

definition sender_round ::
  "('m \<Rightarrow> bytes option) \<Rightarrow> bool \<Rightarrow> nat option \<Rightarrow> 'm peer_sender \<Rightarrow> 'm peer_sender" where
  "sender_round write connect_ok written s =
     (if ps_queue s = [] then s
      else let batch = take BATCH (ps_queue s);
               s = s\<lparr>ps_queue := drop BATCH (ps_queue s)\<rparr>
        in if \<not> ps_connected s \<and> \<not> connect_ok then s
           else let s = (if ps_connected s then s
                         else s\<lparr>ps_connected := True, ps_streams := ps_streams s @ [[]]\<rparr>)
             in (case encode_batch write batch of
                   Inl _ \<Rightarrow> s
                 | Inr frames \<Rightarrow>
                     (case written of
                        None \<Rightarrow> s\<lparr>ps_streams := write_on_last frames (ps_streams s)\<rparr>
                      | Some n \<Rightarrow> s\<lparr>ps_streams := write_on_last (take n frames) (ps_streams s),
                                   ps_connected := False\<rparr>)))"

subsection \<open>Inbound\<close>

record 'm raft_inbound =
  ri_group_id :: u16
  ri_message :: 'm

record inbound_routes =
  in_txs :: "(u16, nat) hash_map"
  in_eventfds :: "(u16, nat) hash_map"

record 'm inbound_state =
  ib_sends :: "send_result list"
  ib_delivered :: "(nat \<times> 'm raft_inbound) list"
  ib_notified :: "nat list"

definition deliver_inbound ::
  "inbound_routes \<Rightarrow> u16 \<times> 'm \<Rightarrow> 'm inbound_state \<Rightarrow> 'm inbound_state \<times> bool" where
  "deliver_inbound routes = (\<lambda>(group_id, message) s.
     (case hm_get (in_txs routes) group_id of
        None \<Rightarrow> (s, True)
      | Some raft_tx \<Rightarrow>
          (case hm_get (in_eventfds routes) group_id of
             None \<Rightarrow> (s, True)
           | Some eventfd \<Rightarrow>
               (case retry_send (ib_sends s) of
                  (True, ss) \<Rightarrow>
                    (s\<lparr>ib_sends := ss,
                       ib_delivered := ib_delivered s @
                         [(raft_tx, \<lparr>ri_group_id = group_id, ri_message = message\<rparr>)],
                       ib_notified := ib_notified s @ [eventfd]\<rparr>, True)
                | (False, ss) \<Rightarrow> (s\<lparr>ib_sends := ss\<rparr>, False)))))"

definition handle_inbound ::
  "(bytes \<Rightarrow> 'm option) \<Rightarrow> inbound_routes \<Rightarrow> bytes list \<Rightarrow> 'm inbound_state \<Rightarrow>
   (bytes \<times> 'm inbound_state \<times> unit drain_end) option" where
  "handle_inbound parse routes chunks s =
     feed_chunks (try_decode_raft_message parse) (deliver_inbound routes) [] s chunks"

subsection \<open>A round of the sender\<close>

lemma encode_batch_Inr:
  assumes "list_all (\<lambda>out. write (ro_message out) \<noteq> None) outs"
  shows "encode_batch write outs =
    Inr (concat (map (\<lambda>out. raft_frame write (ro_group_id out, ro_message out)) outs))"
  using assms by (induction outs) (auto simp: raft_frame_def encode_raft_message_def)

lemma encode_batch_Inl:
  "\<not> list_all (\<lambda>out. write (ro_message out) \<noteq> None) outs \<Longrightarrow> encode_batch write outs = Inl ()"
  by (induction outs) (auto simp: encode_raft_message_def split: option.split sum.split)

text \<open>
  A round of a peer's sender is all or nothing. It takes the first 128 queued messages off
  the queue. If there is no connection and none can be made, or if the library cannot write
  even one of the messages, then none of them is ever sent; otherwise all of their frames go to
  the current connection, whole and in order, or, when the write fails, a front part of these
  bytes goes out as the last bytes of that connection.
\<close>

theorem sender_round_all_or_nothing:
  assumes "ps_queue s \<noteq> []" and "ps_connected s \<Longrightarrow> ps_streams s \<noteq> []"
  shows "let batch = take 128 (ps_queue s);
      s' = sender_round write connect_ok written s;
      streams = (if ps_connected s then ps_streams s else ps_streams s @ [[]]);
      frames = concat (map (\<lambda>out. raft_frame write (ro_group_id out, ro_message out)) batch)
    in ps_queue s' = drop 128 (ps_queue s) \<and>
       (if \<not> ps_connected s \<and> \<not> connect_ok then ps_streams s' = ps_streams s
        else if \<exists>out \<in> set batch. write (ro_message out) = None then ps_streams s' = streams
        else ps_streams s' = butlast streams @
               [last streams @ (case written of None \<Rightarrow> frames | Some n \<Rightarrow> take n frames)] \<and>
             (ps_connected s' \<longleftrightarrow> written = None))"
proof (cases "list_all (\<lambda>out. write (ro_message out) \<noteq> None) (take 128 (ps_queue s))")
  case True
  then have "\<not> (\<exists>out \<in> set (take 128 (ps_queue s)). write (ro_message out) = None)"
    by (auto simp: list_all_iff)
  then show ?thesis
    using assms True by (auto simp: sender_round_def Let_def BATCH_def encode_batch_Inr write_on_last_def
        split: option.split)
next
  case False
  then have "\<exists>out \<in> set (take 128 (ps_queue s)). write (ro_message out) = None"
    by (auto simp: list_all_iff)
  then show ?thesis
    using assms encode_batch_Inl [OF False] by (auto simp: sender_round_def Let_def BATCH_def)
qed

text \<open>Two messages, the second of which the library cannot write: the first is lost as well.\<close>

definition demo_out :: "nat \<Rightarrow> nat raft_outbound" where
  "demo_out n = \<lparr>ro_group_id = 3, ro_target_id = 2, ro_message = n\<rparr>"

definition demo_write_message :: "nat \<Rightarrow> bytes option" where
  "demo_write_message n = (if n < 2 ^ 32 then Some (be32 (word_of_nat n)) else None)"

definition demo_parse_message :: "bytes \<Rightarrow> nat option" where
  "demo_parse_message bs = (if length bs = 4 then Some (unat (of_be32 bs)) else None)"

lemma sender_round_all_or_nothing_witness:
  "ps_streams (sender_round demo_write_message True None
     \<lparr>ps_queue = [demo_out 5, demo_out (2 ^ 32)], ps_connected = True, ps_streams = [[1]]\<rparr>) = [[1]]"
  using sender_round_all_or_nothing [of "\<lparr>ps_queue = [demo_out 5, demo_out (2 ^ 32)], ps_connected = True,
      ps_streams = [[1]]\<rparr>" demo_write_message True None]
  by (simp add: demo_write_message_def demo_out_def Let_def)

subsection \<open>From one node's queue to the other node's raft groups\<close>

definition inbound_of :: "inbound_routes \<Rightarrow> u16 \<times> 'm \<Rightarrow> nat \<times> 'm raft_inbound" where
  "inbound_of routes gm =
     (the (hm_get (in_txs routes) (fst gm)), \<lparr>ri_group_id = fst gm, ri_message = snd gm\<rparr>)"

definition routed :: "inbound_routes \<Rightarrow> u16 \<Rightarrow> bool" where
  "routed routes g = (hm_get (in_txs routes) g \<noteq> None \<and> hm_get (in_eventfds routes) g \<noteq> None)"

lemma retry_send_connected:
  "SendDisconnected \<notin> set ss \<Longrightarrow> \<exists>ss'. retry_send ss = (True, ss') \<and> set ss' \<subseteq> set ss"
  by (induction ss) (auto split: send_result.split)

lemma deliver_all:
  assumes "list_all (\<lambda>gm. routed routes (fst gm)) gms" and "SendDisconnected \<notin> set (ib_sends s)"
  shows "stays_open_from (deliver_inbound routes) gms s \<and>
    ib_delivered (handle_all (deliver_inbound routes) gms s) = ib_delivered s @ map (inbound_of routes) gms"
  using assms
proof (induction gms arbitrary: s)
  case (Cons gm gms)
  from retry_send_connected [OF Cons.prems(2)] obtain ss' where
    ss: "retry_send (ib_sends s) = (True, ss')" "set ss' \<subseteq> set (ib_sends s)" by blast
  from Cons.prems(1) obtain tx fd where
    "hm_get (in_txs routes) (fst gm) = Some tx" "hm_get (in_eventfds routes) (fst gm) = Some fd"
    by (auto simp: routed_def)
  then have step: "deliver_inbound routes gm s = (s\<lparr>ib_sends := ss', ib_delivered := ib_delivered s @
      [inbound_of routes gm], ib_notified := ib_notified s @ [fd]\<rparr>, True)"
    by (cases gm) (simp add: deliver_inbound_def ss inbound_of_def)
  have "SendDisconnected \<notin> set ss'" using ss(2) Cons.prems(2) by blast
  with Cons.IH [of "fst (deliver_inbound routes gm s)"] Cons.prems(1) show ?case by (simp add: step)
qed simp

lemma sender_rounds:
  assumes "list_all (\<lambda>out. write (ro_message out) \<noteq> None) outs" and "length outs \<le> 128 * k"
  shows "ps_streams ((sender_round write True None ^^ k)
      \<lparr>ps_queue = outs, ps_connected = True, ps_streams = streams @ [w]\<rparr>) =
    streams @ [w @ concat (map (\<lambda>out. raft_frame write (ro_group_id out, ro_message out)) outs)]"
  using assms
proof (induction k arbitrary: outs w)
  case (Suc k)
  show ?case
  proof (cases "outs = []")
    case True
    have idle: "(sender_round write True None ^^ n) \<lparr>ps_queue = [], ps_connected = True, ps_streams = streams @ [w]\<rparr> =
        \<lparr>ps_queue = [], ps_connected = True, ps_streams = streams @ [w]\<rparr>" for n
      by (induction n) (simp_all add: sender_round_def)
    show ?thesis unfolding True idle by simp
  next
    case False
    let ?f = "\<lambda>out. raft_frame write (ro_group_id out, ro_message out)"
    have ok: "list_all (\<lambda>out. write (ro_message out) \<noteq> None) (take 128 outs)"
      "list_all (\<lambda>out. write (ro_message out) \<noteq> None) (drop 128 outs)"
      using Suc.prems(1) by (auto simp: list_all_iff dest: in_set_takeD in_set_dropD)
    have "sender_round write True None \<lparr>ps_queue = outs, ps_connected = True, ps_streams = streams @ [w]\<rparr> =
        \<lparr>ps_queue = drop 128 outs, ps_connected = True, ps_streams =
          streams @ [w @ concat (map ?f (take 128 outs))]\<rparr>"
      using False by (simp add: sender_round_def Let_def BATCH_def encode_batch_Inr [OF ok(1)] write_on_last_def)
    moreover have "concat (map ?f (take 128 outs)) @ concat (map ?f (drop 128 outs)) = concat (map ?f outs)"
      by (metis append_take_drop_id concat_append map_append)
    ultimately show ?thesis
      using Suc.IH [OF ok(2), of "w @ concat (map ?f (take 128 outs))"] Suc.prems(2)
      by (simp add: funpow_Suc_right del: funpow.simps)
  qed
qed simp

text \<open>
  C25: The peer link delivers. Raft messages queued for a peer, which the library can write and
  whose groups the peer serves, are sent by enough rounds of the sender on its connection; and
  however TCP cuts these bytes, the receive loop of the peer hands each message once and in
  order to the channel of its group and keeps no byte back (while no group's channel is gone; a
  full one only delays). The hypothesis on messages is the documented protobuf round trip.
\<close>

theorem peer_link_delivers:
  assumes "message_ok write parse" and "list_all (\<lambda>out. write (ro_message out) \<noteq> None) outs"
    and "list_all (\<lambda>out. routed routes (ro_group_id out)) outs"
    and "length outs \<le> 128 * k" and "SendDisconnected \<notin> set (ib_sends s)"
    and wire: "ps_streams ((sender_round write True None ^^ k)
      \<lparr>ps_queue = outs, ps_connected = True, ps_streams = [[]]\<rparr>) = [concat chunks]"
  shows "\<exists>s'. handle_inbound parse routes chunks s = Some ([], s', NeedMore) \<and>
    ib_delivered s' = ib_delivered s @ map (\<lambda>out. (the (hm_get (in_txs routes) (ro_group_id out)),
      \<lparr>ri_group_id = ro_group_id out, ri_message = ro_message out\<rparr>)) outs"
proof -
  let ?gms = "map (\<lambda>out. (ro_group_id out, ro_message out)) outs"
  have "concat chunks = concat (map (raft_frame write) ?gms)"
    using sender_rounds [OF assms(2,4), of "[]" "[]"] wire by (simp add: comp_def)
  moreover have "list_all (writable write) ?gms"
    using assms(2) by (simp add: list_all_iff writable_def)
  moreover have "list_all (\<lambda>gm. routed routes (fst gm)) ?gms"
    using assms(3) by (simp add: list_all_iff)
  note deliver_all [OF this assms(5)]
  ultimately show ?thesis
    using frame_codec.feed_all_from [OF raft_frames_codec [OF assms(1)], of ?gms "deliver_inbound routes" s chunks]
    by (simp add: handle_inbound_def inbound_of_def comp_def)
qed

lemma demo_message_ok: "message_ok demo_write_message demo_parse_message"
  by (auto simp: message_ok_def demo_write_message_def demo_parse_message_def)

lemma peer_link_delivers_witness:
  "\<exists>s'. handle_inbound demo_parse_message \<lparr>in_txs = [(3, 0)], in_eventfds = [(3, 8)]\<rparr>
      [take 7 (be16 3 @ be32 4 @ be32 5 @ be16 3 @ be32 4 @ be32 6),
       drop 7 (be16 3 @ be32 4 @ be32 5 @ be16 3 @ be32 4 @ be32 6)]
      \<lparr>ib_sends = [SendFull, SendOk], ib_delivered = [], ib_notified = []\<rparr> = Some ([], s', NeedMore) \<and>
    ib_delivered s' = [(0, \<lparr>ri_group_id = 3, ri_message = 5\<rparr>), (0, \<lparr>ri_group_id = 3, ri_message = 6\<rparr>)]"
proof -
  have "ps_streams ((sender_round demo_write_message True None ^^ 1)
      \<lparr>ps_queue = [demo_out 5, demo_out 6], ps_connected = True, ps_streams = [[]]\<rparr>) =
      [concat [take 7 (be16 3 @ be32 4 @ be32 5 @ be16 3 @ be32 4 @ be32 6),
       drop 7 (be16 3 @ be32 4 @ be32 5 @ be16 3 @ be32 4 @ be32 6)]]"
    by (simp add: sender_round_def Let_def BATCH_def demo_out_def encode_raft_message_def
        demo_write_message_def write_on_last_def)
  from peer_link_delivers [OF demo_message_ok _ _ _ _ this, where routes = "\<lparr>in_txs = [(3, 0)],
      in_eventfds = [(3, 8)]\<rparr>" and s = "\<lparr>ib_sends = [SendFull, SendOk], ib_delivered = [], ib_notified = []\<rparr>"]
  show ?thesis by (simp add: demo_out_def demo_write_message_def routed_def hm_get_def)
qed

end
