(* ===== verification/PeerPath.thy ===== *)
theory PeerPath
  imports Peer "HOL-Library.Sublist" "HOL-Library.Multiset"
begin

text \<open>
  The way of a raft message from one node to another (\<open>net/peer.rs\<close>): the channels in which the
  shards of a node put their messages, the router that empties them, the queue and the sender of
  one target, the connections the sender makes one after the other, and on the other side one
  receive loop per connection, all running at the same time. Shards, router and senders interleave in any way; connections
  break at any byte.
\<close>

subsection \<open>The sending node\<close>

text \<open>For each shard, all it has put into its channel, and what is still in it; the router with the
  queues of the peers; the sender of the target with its streams.\<close>

record 'm link =
  lk_emitted :: "'m raft_outbound list list"
  lk_channels :: "'m raft_outbound list list"
  lk_router :: "'m outbound_router"
  lk_connected :: bool
  lk_streams :: "bytes list"

definition link_start :: "nat \<Rightarrow> u64 list \<Rightarrow> send_result list \<Rightarrow> 'm link" where
  "link_start shards peers sends =
     \<lparr>lk_emitted = replicate shards [], lk_channels = replicate shards [],
      lk_router = \<lparr>or_queues = fold (\<lambda>p. hm_insert p []) peers [], or_sends = sends\<rparr>,
      lk_connected = False, lk_streams = []\<rparr>"

text \<open>A shard emits a message for its group; the router takes one message; the sender of the
  target, whose queue is \<open>q\<close>, makes a round; the sender of another peer takes messages.\<close>

inductive link_step ::
  "('m \<Rightarrow> bytes option) \<Rightarrow> u64 \<Rightarrow> u16 list \<Rightarrow> 'm link \<Rightarrow> 'm link \<Rightarrow> bool" for wmsg target groups where
  emits: "i < length groups \<Longrightarrow> ro_group_id out = groups ! i \<Longrightarrow>
    link_step wmsg target groups l (l\<lparr>lk_emitted := (lk_emitted l)[i := lk_emitted l ! i @ [out]],
      lk_channels := (lk_channels l)[i := lk_channels l ! i @ [out]]\<rparr>)"
| routes: "i < length (lk_channels l) \<Longrightarrow> lk_channels l ! i = out # rest \<Longrightarrow>
    link_step wmsg target groups l (l\<lparr>lk_channels := (lk_channels l)[i := rest],
      lk_router := route_outbound out (lk_router l)\<rparr>)"
| sends: "hm_get (or_queues (lk_router l)) target = Some q \<Longrightarrow>
    sender_round wmsg connect_ok written \<lparr>ps_queue = q, ps_connected = lk_connected l, ps_streams = lk_streams l\<rparr> = s \<Longrightarrow>
    link_step wmsg target groups l (l\<lparr>lk_connected := ps_connected s, lk_streams := ps_streams s,
      lk_router := (lk_router l)\<lparr>or_queues := hm_insert target (ps_queue s) (or_queues (lk_router l))\<rparr>\<rparr>)"
| others: "peer \<noteq> target \<Longrightarrow> hm_get (or_queues (lk_router l)) peer = Some q \<Longrightarrow>
    link_step wmsg target groups l (l\<lparr>lk_router :=
      (lk_router l)\<lparr>or_queues := hm_insert peer (drop n q) (or_queues (lk_router l))\<rparr>\<rparr>)"

inductive link_reaches ::
  "('m \<Rightarrow> bytes option) \<Rightarrow> u64 \<Rightarrow> u16 list \<Rightarrow> 'm link \<Rightarrow> 'm link \<Rightarrow> bool" for wmsg target groups l where
  link_here: "link_reaches wmsg target groups l l"
| link_further: "link_reaches wmsg target groups l m \<Longrightarrow> link_step wmsg target groups m n \<Longrightarrow>
    link_reaches wmsg target groups l n"

lemma link_reaches_trans:
  "link_reaches wmsg target groups m n \<Longrightarrow> link_reaches wmsg target groups l m \<Longrightarrow> link_reaches wmsg target groups l n"
  by (induction rule: link_reaches.induct) (auto intro: link_further)

text \<open>The pass of the router as it is written is a sequence of these steps.\<close>

lemma pump_round_reaches:
  assumes "pump_round rxs (lk_router l) = (rxs', r)" and "lk_channels l = pre @ rxs"
  shows "link_reaches wmsg target groups l (l\<lparr>lk_channels := pre @ rxs', lk_router := r\<rparr>)"
  using assms
proof (induction rxs arbitrary: l pre rxs' r)
  case Nil
  then have "l\<lparr>lk_channels := pre @ rxs', lk_router := r\<rparr> = l" by simp
  then show ?case using link_here by metis
next
  case (Cons rx rxs)
  show ?case
  proof (cases rx)
    case Nil
    with Cons.prems(1) obtain rs where rs: "pump_round rxs (lk_router l) = (rs, r)" "rxs' = [] # rs"
      by (auto split: prod.splits)
    with Cons.IH [OF rs(1), of "pre @ [rx]"] Cons.prems(2) show ?thesis by (simp add: Nil)
  next
    case (Cons out rest)
    let ?m = "l\<lparr>lk_channels := pre @ rest # rxs, lk_router := route_outbound out (lk_router l)\<rparr>"
    from Cons.prems(1) Cons obtain rs where rs: "pump_round rxs (lk_router ?m) = (rs, r)" "rxs' = rest # rs"
      by (auto split: prod.splits)
    have "link_step wmsg target groups l ?m"
      using link_step.routes [of "length pre" l out rest wmsg target groups] Cons.prems(2) Cons
      by (simp add: nth_append)
    from link_further [OF link_here this] have "link_reaches wmsg target groups l ?m" .
    moreover have "link_reaches wmsg target groups ?m (?m\<lparr>lk_channels := (pre @ [rest]) @ rs, lk_router := r\<rparr>)"
      by (rule Cons.IH [OF rs(1)]) simp
    ultimately show ?thesis using link_reaches_trans by (fastforce simp: rs(2))
  qed
qed

subsection \<open>What is queued and what is on the wire\<close>

definition wire_frame :: "('m \<Rightarrow> bytes option) \<Rightarrow> 'm raft_outbound \<Rightarrow> bytes" where
  "wire_frame wmsg out = raft_frame wmsg (ro_group_id out, ro_message out)"

definition target_queue :: "u64 \<Rightarrow> 'm link \<Rightarrow> 'm raft_outbound list" where
  "target_queue target l = (case hm_get (or_queues (lk_router l)) target of None \<Rightarrow> [] | Some q \<Rightarrow> q)"

text \<open>\<open>ws\<close>: for each connection, the messages whose frames were written on it, the last ones perhaps
  not in full.\<close>

definition streams_ok :: "('m \<Rightarrow> bytes option) \<Rightarrow> 'm raft_outbound list list \<Rightarrow> bool \<Rightarrow> bytes list \<Rightarrow> bool" where
  "streams_ok wmsg ws connected streams =
     (list_all2 (\<lambda>w st. prefix st (concat (map (wire_frame wmsg) w))) ws streams \<and>
      list_all (\<lambda>out. wmsg (ro_message out) \<noteq> None) (concat ws) \<and>
      (connected \<longrightarrow> ws \<noteq> [] \<and> last streams = concat (map (wire_frame wmsg) (last ws))))"

definition of_group :: "u16 \<Rightarrow> 'm raft_outbound list \<Rightarrow> 'm raft_outbound list" where
  "of_group g = filter (\<lambda>out. ro_group_id out = g)"

definition to_target :: "u64 \<Rightarrow> 'm raft_outbound list \<Rightarrow> 'm raft_outbound list" where
  "to_target target = filter (\<lambda>out. ro_target_id out = target)"

text \<open>In the messages on the wire and in the queue, those of a group are some of those that its shard
  has emitted for the target and the router has taken, in their order.\<close>

definition link_ok :: "('m \<Rightarrow> bytes option) \<Rightarrow> u64 \<Rightarrow> u16 list \<Rightarrow> 'm link \<Rightarrow> bool" where
  "link_ok wmsg target groups l =
     (hm_ok (or_queues (lk_router l)) \<and> length (lk_emitted l) = length groups \<and>
      length (lk_channels l) = length groups \<and>
      (\<forall>i < length groups. \<forall>out \<in> set (lk_emitted l ! i). ro_group_id out = groups ! i) \<and>
      (\<exists>ws. streams_ok wmsg ws (lk_connected l) (lk_streams l) \<and>
         (\<forall>out \<in> set (concat ws @ target_queue target l). ro_group_id out \<in> set groups) \<and>
         (\<forall>i < length groups. \<exists>taken. lk_emitted l ! i = taken @ lk_channels l ! i \<and>
            subseq (of_group (groups ! i) (concat ws @ target_queue target l)) (to_target target taken))))"

lemma list_all2_snoc [simp]:
  "list_all2 P (xs @ [x]) (ys @ [y]) \<longleftrightarrow> list_all2 P xs ys \<and> P x y"
  by (subst list_all2_rev [symmetric]) (simp add: list_all2_rev conj_commute)

lemma streams_extend:
  assumes ok: "streams_ok wmsg ws True streams" and "list_all (\<lambda>out. wmsg (ro_message out) \<noteq> None) batch"
    and bs: "prefix bs (concat (map (wire_frame wmsg) batch))" "c \<Longrightarrow> bs = concat (map (wire_frame wmsg) batch)"
  shows "streams_ok wmsg (butlast ws @ [last ws @ batch]) c (write_on_last bs streams)"
    and "concat (butlast ws @ [last ws @ batch]) = concat ws @ batch"
proof -
  from ok obtain ws0 w where ws: "ws = ws0 @ [w]" by (cases ws rule: rev_cases) (auto simp: streams_ok_def)
  with ok obtain st0 st where st: "streams = st0 @ [st]" and
    "list_all2 (\<lambda>w st. prefix st (concat (map (wire_frame wmsg) w))) ws0 st0" and "st = concat (map (wire_frame wmsg) w)"
    by (cases streams rule: rev_cases) (auto simp: streams_ok_def)
  with ok assms(2) bs show "streams_ok wmsg (butlast ws @ [last ws @ batch]) c (write_on_last bs streams)"
    by (auto simp: streams_ok_def ws write_on_last_def)
  show "concat (butlast ws @ [last ws @ batch]) = concat ws @ batch" by (simp add: ws)
qed

text \<open>A round of the sender: some messages leave the queue for the wire, or are lost.\<close>

lemma sender_round_streams:
  assumes ok: "streams_ok wmsg ws connected streams"
    and s: "sender_round wmsg connect_ok written \<lparr>ps_queue = q, ps_connected = connected, ps_streams = streams\<rparr> = s"
  shows "\<exists>ws'. streams_ok wmsg ws' (ps_connected s) (ps_streams s) \<and>
    subseq (concat ws' @ ps_queue s) (concat ws @ q)"
proof -
  let ?batch = "take BATCH q"
  let ?ws = "if connected then ws else ws @ [[]]" and ?streams = "if connected then streams else streams @ [[]]"
  have opened: "streams_ok wmsg ?ws True ?streams" and same: "concat ?ws = concat ws"
    using ok by (auto simp: streams_ok_def)
  have lost: "subseq (concat ws @ drop BATCH q) (concat ws @ q)"
    by (intro list_emb_append_mono) (auto intro: suffix_imp_subseq suffix_drop)
  consider (idle) "q = []" | (refused) "q \<noteq> []" "\<not> connected" "\<not> connect_ok"
    | (fails) "q \<noteq> []" "connected \<or> connect_ok" "\<not> list_all (\<lambda>out. wmsg (ro_message out) \<noteq> None) ?batch"
    | (goes) "q \<noteq> []" "connected \<or> connect_ok" "list_all (\<lambda>out. wmsg (ro_message out) \<noteq> None) ?batch" by blast
  then show ?thesis
  proof cases
    case idle
    with ok s show ?thesis by (auto simp: sender_round_def)
  next
    case refused
    with ok s lost show ?thesis by (auto simp: sender_round_def Let_def)
  next
    case fails
    then have "s = \<lparr>ps_queue = drop BATCH q, ps_connected = True, ps_streams = ?streams\<rparr>"
      using s by (auto simp: sender_round_def Let_def encode_batch_Inl)
    with opened lost same show ?thesis by (intro exI [of _ ?ws]) simp
  next
    case goes
    let ?fr = "concat (map (wire_frame wmsg) ?batch)"
    define bs where "bs = (case written of None \<Rightarrow> ?fr | Some n \<Rightarrow> take n ?fr)"
    have s: "s = \<lparr>ps_queue = drop BATCH q, ps_connected = (written = None), ps_streams = write_on_last bs ?streams\<rparr>"
      using s goes by (auto simp: sender_round_def Let_def encode_batch_Inr bs_def wire_frame_def [abs_def] split: option.split)
    have "prefix bs ?fr" "written = None \<Longrightarrow> bs = ?fr" by (auto simp: bs_def take_is_prefix split: option.split)
    note ext = streams_extend [OF opened goes(3), of bs "written = None", OF this]
    define ws' where "ws' = butlast ?ws @ [last ?ws @ ?batch]"
    have "concat ws' @ drop BATCH q = concat ws @ q"
      using ext(2) same unfolding ws'_def by (metis append_assoc append_take_drop_id)
    with ext(1) [folded ws'_def] show ?thesis by (intro exI [of _ ws']) (simp add: s)
  qed
qed

lemma link_okI:
  assumes "hm_ok (or_queues (lk_router l))" "length (lk_emitted l) = length groups" "length (lk_channels l) = length groups"
    and "\<And>i out. i < length groups \<Longrightarrow> out \<in> set (lk_emitted l ! i) \<Longrightarrow> ro_group_id out = groups ! i"
    and "streams_ok wmsg ws (lk_connected l) (lk_streams l)"
    and "\<And>out. out \<in> set (concat ws @ target_queue target l) \<Longrightarrow> ro_group_id out \<in> set groups"
    and "\<And>i. i < length groups \<Longrightarrow> \<exists>taken. lk_emitted l ! i = taken @ lk_channels l ! i \<and>
      subseq (of_group (groups ! i) (concat ws @ target_queue target l)) (to_target target taken)"
  shows "link_ok wmsg target groups l"
  using assms unfolding link_ok_def by blast

lemma subseq_of_group: "subseq xs ys \<Longrightarrow> subseq (of_group g xs) (of_group g ys)"
  unfolding of_group_def by (rule subseq_filter)

lemma of_group_simps [simp]:
  "of_group g [] = []" "of_group g (out # outs) = (if ro_group_id out = g then out # of_group g outs else of_group g outs)"
  "of_group g (xs @ ys) = of_group g xs @ of_group g ys"
  by (simp_all add: of_group_def)

lemma to_target_append [simp]: "to_target target (xs @ ys) = to_target target xs @ to_target target ys"
  by (simp add: to_target_def)

text \<open>What the router does to the queue of the target with a message: appends it, or nothing.\<close>

lemma route_outbound_queue:
  assumes "hm_ok (or_queues r)" and "r' = route_outbound out r"
  shows "hm_ok (or_queues r') \<and>
    (hm_get (or_queues r') target = hm_get (or_queues r) target \<or>
     ro_target_id out = target \<and> (\<exists>q. hm_get (or_queues r) target = Some q \<and> hm_get (or_queues r') target = Some (q @ [out])))"
  using assms by (cases "ro_target_id out = target") (auto simp: route_outbound_def split: option.splits prod.splits bool.splits)

lemma link_step_ok:
  assumes "link_step wmsg target groups l m" and ok: "link_ok wmsg target groups l" and "distinct groups"
  shows "link_ok wmsg target groups m"
proof -
  from ok obtain ws where base: "hm_ok (or_queues (lk_router l))" "length (lk_emitted l) = length groups"
      "length (lk_channels l) = length groups"
    and em: "\<And>i out. i < length groups \<Longrightarrow> out \<in> set (lk_emitted l ! i) \<Longrightarrow> ro_group_id out = groups ! i"
    and st: "streams_ok wmsg ws (lk_connected l) (lk_streams l)"
    and gr: "\<And>out. out \<in> set (concat ws @ target_queue target l) \<Longrightarrow> ro_group_id out \<in> set groups"
    and sub: "\<And>i. i < length groups \<Longrightarrow> \<exists>taken. lk_emitted l ! i = taken @ lk_channels l ! i \<and>
      subseq (of_group (groups ! i) (concat ws @ target_queue target l)) (to_target target taken)"
    unfolding link_ok_def by blast
  from assms(1) show ?thesis
  proof cases
    case (emits i out)
    show ?thesis
    proof (rule link_okI [where ws = ws])
      fix j assume "j < length groups"
      from sub [OF this] show "\<exists>taken. lk_emitted m ! j = taken @ lk_channels m ! j \<and>
          subseq (of_group (groups ! j) (concat ws @ target_queue target m)) (to_target target taken)"
        using emits base by (cases "j = i") (auto simp: target_queue_def)
    qed (use emits base em st gr in \<open>auto simp: target_queue_def nth_list_update split: if_splits\<close>)
  next
    case (routes i out rest)
    then have i: "i < length groups" using base by simp
    from sub [OF i] obtain taken where t: "lk_emitted l ! i = taken @ out # rest"
      "subseq (of_group (groups ! i) (concat ws @ target_queue target l)) (to_target target taken)"
      using routes by auto
    then have g: "ro_group_id out = groups ! i" using em [OF i] by simp
    let ?r = "route_outbound out (lk_router l)"
    from route_outbound_queue [OF base(1) refl, of out target] have r: "hm_ok (or_queues ?r)"
      and q: "target_queue target m = target_queue target l \<or>
        ro_target_id out = target \<and> target_queue target m = target_queue target l @ [out]"
      by (auto simp: target_queue_def routes(1))
    show ?thesis
    proof (rule link_okI [where ws = ws])
      fix j assume j: "j < length groups"
      show "\<exists>taken. lk_emitted m ! j = taken @ lk_channels m ! j \<and>
          subseq (of_group (groups ! j) (concat ws @ target_queue target m)) (to_target target taken)"
      proof (cases "j = i")
        case True
        have "subseq (of_group (groups ! i) (concat ws @ target_queue target m)) (to_target target (taken @ [out]))"
          using q
        proof (elim disjE conjE)
          assume "target_queue target m = target_queue target l"
          with subseq_rev_drop_many [OF t(2), of "to_target target [out]"] show ?thesis by simp
        next
          assume "ro_target_id out = target" "target_queue target m = target_queue target l @ [out]"
          with t(2) g show ?thesis
            using list_emb_append_mono [OF t(2), of "[out]" "[out]"] by (simp add: to_target_def)
        qed
        then show ?thesis using t(1) True routes base i by (intro exI [of _ "taken @ [out]"]) simp
      next
        case False
        then have "groups ! j \<noteq> ro_group_id out" using g assms(3) i j by (simp add: nth_eq_iff_index_eq)
        with q sub [OF j] routes base False show ?thesis by auto
      qed
    qed (use routes base em st gr q r g i in \<open>auto\<close>)
  next
    case (sends q connect_ok written s)
    then have q: "target_queue target l = q" by (simp add: target_queue_def)
    have q': "target_queue target m = ps_queue s" using base(1) by (simp add: target_queue_def sends(1))
    from sender_round_streams [OF st sends(3)] obtain ws' where ws': "streams_ok wmsg ws' (ps_connected s) (ps_streams s)"
      "subseq (concat ws' @ ps_queue s) (concat ws @ q)" by blast
    show ?thesis
    proof (rule link_okI [where ws = ws'])
      fix j assume "j < length groups"
      from sub [OF this] subseq_of_group [OF ws'(2), of "groups ! j"]
      show "\<exists>taken. lk_emitted m ! j = taken @ lk_channels m ! j \<and>
          subseq (of_group (groups ! j) (concat ws' @ target_queue target m)) (to_target target taken)"
        unfolding q q' by (auto simp: sends(1) intro: subseq_order.order_trans)
    next
      fix out assume "out \<in> set (concat ws' @ target_queue target m)"
      then obtain out' where "out' \<in> set (concat ws @ q)" "out = out'"
        unfolding q' by (rule list_emb_set [OF ws'(2)]) blast
      then show "ro_group_id out \<in> set groups" using gr [unfolded q] by blast
    qed (use sends base em ws'(1) in auto)
  next
    case (others peer q n)
    then have "target_queue target m = target_queue target l" using base(1) by (simp add: target_queue_def)
    with others base em st gr sub show ?thesis
      by (intro link_okI [where ws = ws]) auto
  qed
qed

lemma peer_queues_empty:
  "hm_ok m \<Longrightarrow> (\<And>q. hm_get m target = Some q \<Longrightarrow> q = []) \<Longrightarrow>
   hm_ok (fold (\<lambda>p. hm_insert p []) peers m) \<and>
   (\<forall>q. hm_get (fold (\<lambda>p. hm_insert p []) peers m) target = Some q \<longrightarrow> q = [])"
proof (induction peers arbitrary: m)
  case (Cons p peers)
  have "hm_get (hm_insert p [] m) target = Some q \<Longrightarrow> q = []" for q
    using Cons.prems by (cases "p = target") auto
  with Cons.IH [of "hm_insert p [] m"] Cons.prems(1) show ?case by simp
qed simp

lemma link_start_ok: "link_ok wmsg target groups (link_start (length groups) peers sends)"
proof -
  show ?thesis using peer_queues_empty [of "[]" target peers]
    by (intro link_okI [where ws = "[]"]) (auto simp: link_start_def target_queue_def streams_ok_def hm_ok_def hm_get_def split: option.splits)
qed

lemma link_reaches_ok:
  "link_reaches wmsg target groups l m \<Longrightarrow> link_ok wmsg target groups l \<Longrightarrow> distinct groups \<Longrightarrow> link_ok wmsg target groups m"
  by (induction rule: link_reaches.induct) (auto intro: link_step_ok)

subsection \<open>The receiving node\<close>

text \<open>One connection: from any front part of the frames written on it, the receive loop delivers the
  first so many messages.\<close>

lemma connection_delivers:
  assumes msg: "message_ok wmsg parse" and w: "list_all (\<lambda>out. wmsg (ro_message out) \<noteq> None) w"
    and front: "prefix (concat chunks) (concat (map (wire_frame wmsg) w))"
    and rts: "\<forall>out \<in> set w. routed rts (ro_group_id out)" and s: "SendDisconnected \<notin> set (ib_sends s)"
  shows "\<exists>w1 buf s'. prefix w1 w \<and> handle_inbound parse rts chunks s = Some (buf, s', NeedMore) \<and>
    ib_delivered s' = ib_delivered s @ map (\<lambda>out. inbound_of rts (ro_group_id out, ro_message out)) w1"
proof -
  let ?gm = "\<lambda>out. (ro_group_id out, ro_message out)"
  note codec = raft_frames_codec [OF msg]
  from front obtain rest where rest: "concat chunks @ rest = concat (map (raft_frame wmsg) (map ?gm w)) @ []"
    by (auto simp: prefix_def wire_frame_def [abs_def] comp_def)
  have "list_all (writable wmsg) (map ?gm w)" using w by (simp add: list_all_iff writable_def)
  from frame_codec.front_of_frames [OF codec this frame_codec.partial_frame_Nil [OF codec] rest] obtain ms1 ms2 q where
    ms: "map ?gm w = ms1 @ ms2" and q: "concat chunks = concat (map (raft_frame wmsg) ms1) @ q"
      "frame_codec.partial_frame (raft_frame wmsg) (writable wmsg) q" by blast
  define w1 where "w1 = take (length ms1) w"
  have ms1: "ms1 = map ?gm w1" using arg_cong [OF ms, of "take (length ms1)"] by (simp add: w1_def take_map)
  have "set w1 \<subseteq> set w" by (simp add: w1_def set_take_subset)
  then have ok: "list_all (writable wmsg) ms1" "list_all (\<lambda>gm. routed rts (fst gm)) ms1"
    using w rts by (simp_all add: ms1 list_all_iff writable_def subset_iff)
  from deliver_all [OF ok(2) s] have d: "stays_open_from (deliver_inbound rts) ms1 s"
    "ib_delivered (handle_all (deliver_inbound rts) ms1 s) = ib_delivered s @ map (inbound_of rts) ms1" by auto
  from frame_codec.feed_partial [OF codec ok(1) d(1) q(2) frame_codec.partial_frame_Nil [OF codec], of chunks] q(1)
  have "handle_inbound parse rts chunks s = Some (q, handle_all (deliver_inbound rts) ms1 s, NeedMore)"
    by (simp add: handle_inbound_def)
  moreover have "prefix w1 w" by (simp add: w1_def take_is_prefix)
  ultimately show ?thesis using d(2) by (auto simp: ms1 comp_def)
qed

lemma subseq_concat_prefixes: "list_all2 prefix xs ys \<Longrightarrow> subseq (concat xs) (concat ys)"
  by (induction rule: list_all2_induct) (auto intro: list_emb_append_mono)

definition received :: "u16 \<Rightarrow> (nat \<times> 'm raft_inbound) list \<Rightarrow> 'm list" where
  "received g ds = map (ri_message \<circ> snd) (filter (\<lambda>d. ri_group_id (snd d) = g) ds)"

lemma received_inbound:
  "received g (map (\<lambda>out. inbound_of rts (ro_group_id out, ro_message out)) w) = map ro_message (of_group g w)"
  by (induction w) (simp_all add: received_def inbound_of_def)

text \<open>The receive loops are tasks of their own: while one waits for bytes, or for room in a channel,
  another goes on. So what is put into the channel of a group is some interleaving of what the
  single loops put into it.\<close>

primrec interleavings :: "'a list list \<Rightarrow> 'a list set" where
  "interleavings [] = {[]}"
| "interleavings (xs # xss) = (\<Union>ys \<in> interleavings xss. shuffles xs ys)"

lemma subseq_shuffles: "zs \<in> shuffles xs ys \<Longrightarrow> subseq xs zs \<and> subseq ys zs"
proof (induction xs ys arbitrary: zs rule: shuffles.induct)
  case (3 x xs y ys)
  then show ?case by (auto intro: subseq_Cons')
qed auto

lemma interleavings_facts:
  "zs \<in> interleavings xss \<Longrightarrow> mset zs = mset (concat xss) \<and> (\<forall>xs \<in> set xss. subseq xs zs)"
proof (induction xss arbitrary: zs)
  case (Cons xs xss)
  then obtain ys where ys: "ys \<in> interleavings xss" "zs \<in> shuffles xs ys" by auto
  with Cons.IH [OF ys(1)] subseq_shuffles [OF ys(2)] mset_shuffles [OF ys(2)] show ?case
    by (auto intro: subseq_order.order_trans)
qed simp

lemma subseq_mset: "subseq xs ys \<Longrightarrow> mset xs \<subseteq># mset ys"
  by (induction rule: list_emb.induct) (auto intro: subset_mset.order_trans)

lemma received_concat: "received g (concat ds) = concat (map (received g) ds)"
  by (induction ds) (auto simp: received_def)

lemma arrivals:
  assumes "subseq (received g (concat ds)) em" and "arrived \<in> interleavings (map (received g) ds)"
  shows "mset arrived \<subseteq># mset em \<and> (\<forall>d \<in> set ds. subseq (received g d) arrived)"
  using interleavings_facts [OF assms(2)] subseq_mset [OF assms(1)] by (simp add: received_concat)

text \<open>
  C26: Raft messages keep to their way. Let the shards of a node emit messages, its router and
  senders work in any interleaving, connections to the target fail to open, break in the middle
  of a frame and be made anew, and let the target read of each connection any front part, in
  any chunks. Then no receive loop fails to parse and every message goes to the channel of its
  own group. What the loops put into the channel of a group, taken connection after connection,
  is a subsequence of what its shard emitted for this target. The loops of several connections
  run at the same time, so what arrives is any interleaving of their parts: messages can be
  lost, and those of a later connection can overtake those of an earlier one that is still
  being read, but none is doubled or changed, none reaches another group or target, and those
  of one connection arrive in the order in which they were emitted. (No channel of the target
  is gone.)
\<close>

theorem raft_messages_keep_their_way:
  assumes msg: "message_ok wmsg parse" and dist: "distinct groups"
    and reach: "link_reaches wmsg target groups (link_start (length groups) peers sends) l"
    and rts: "\<forall>g \<in> set groups. routed rts g"
    and chunks: "list_all2 (\<lambda>cs st. prefix (concat cs) st) chunks (lk_streams l)"
    and ss: "length ss = length chunks" "\<forall>s \<in> set ss. ib_delivered s = [] \<and> SendDisconnected \<notin> set (ib_sends s)"
  shows "\<exists>ds. length ds = length chunks \<and>
    (\<forall>j < length chunks. \<exists>buf s'. handle_inbound parse rts (chunks ! j) (ss ! j) = Some (buf, s', NeedMore) \<and>
       ib_delivered s' = ds ! j) \<and>
    (\<forall>i < length groups. let emitted = map ro_message (to_target target (lk_emitted l ! i)) in
       subseq (received (groups ! i) (concat ds)) emitted \<and>
       (\<forall>arrived \<in> interleavings (map (received (groups ! i)) ds).
          mset arrived \<subseteq># mset emitted \<and> (\<forall>d \<in> set ds. subseq (received (groups ! i) d) arrived))) \<and>
    (\<forall>d \<in> set (concat ds). hm_get (in_txs rts) (ri_group_id (snd d)) = Some (fst d))"
proof -
  let ?inb = "\<lambda>out. inbound_of rts (ro_group_id out, ro_message out)"
  from link_reaches_ok [OF reach link_start_ok dist] obtain ws where
    ws: "streams_ok wmsg ws (lk_connected l) (lk_streams l)"
    and gr: "\<forall>out \<in> set (concat ws @ target_queue target l). ro_group_id out \<in> set groups"
    and sub: "\<forall>i < length groups. \<exists>taken. lk_emitted l ! i = taken @ lk_channels l ! i \<and>
      subseq (of_group (groups ! i) (concat ws @ target_queue target l)) (to_target target taken)"
    unfolding link_ok_def by blast
  have len: "length ws = length chunks" "length (lk_streams l) = length chunks"
    using ws list_all2_lengthD [OF chunks] by (simp_all add: streams_ok_def list_all2_conv_all_nth)
  have "\<exists>w1. prefix w1 (ws ! j) \<and> (\<exists>buf s'. handle_inbound parse rts (chunks ! j) (ss ! j) = Some (buf, s', NeedMore) \<and>
      ib_delivered s' = map ?inb w1)" if j: "j < length chunks" for j
  proof -
    have "set (ws ! j) \<subseteq> set (concat ws)" using j len by (auto intro!: bexI [of _ "ws ! j"])
    with ws gr rts have "list_all (\<lambda>out. wmsg (ro_message out) \<noteq> None) (ws ! j)" "\<forall>out \<in> set (ws ! j). routed rts (ro_group_id out)"
      by (auto simp: streams_ok_def list_all_iff)
    moreover have "prefix (concat (chunks ! j)) (concat (map (wire_frame wmsg) (ws ! j)))"
      using ws chunks j len by (auto simp: streams_ok_def list_all2_conv_all_nth intro: prefix_order.order_trans)
    moreover have "ib_delivered (ss ! j) = [] \<and> SendDisconnected \<notin> set (ib_sends (ss ! j))" using ss j by simp
    ultimately show ?thesis using connection_delivers [OF msg, of "ws ! j" "chunks ! j" rts "ss ! j"] by fastforce
  qed
  then have "\<forall>j \<in> {..<length chunks}. \<exists>w1. prefix w1 (ws ! j) \<and>
      (\<exists>buf s'. handle_inbound parse rts (chunks ! j) (ss ! j) = Some (buf, s', NeedMore) \<and> ib_delivered s' = map ?inb w1)"
    by simp
  from bchoice [OF this] obtain W where W: "\<forall>j \<in> {..<length chunks}. prefix (W j) (ws ! j) \<and>
      (\<exists>buf s'. handle_inbound parse rts (chunks ! j) (ss ! j) = Some (buf, s', NeedMore) \<and> ib_delivered s' = map ?inb (W j))" ..
  let ?ws = "map W [0..<length chunks]"
  have "list_all2 prefix ?ws ws" using W len(1) by (simp add: list_all2_conv_all_nth)
  note arrived = subseq_concat_prefixes [OF this]
  show ?thesis
  proof (intro exI [of _ "map (map ?inb) ?ws"] conjI allI impI)
    fix i assume "i < length groups"
    with sub obtain taken where t: "lk_emitted l ! i = taken @ lk_channels l ! i"
      "subseq (of_group (groups ! i) (concat ws @ target_queue target l)) (to_target target taken)" by blast
    have "subseq (of_group (groups ! i) (concat ?ws)) (of_group (groups ! i) (concat ws @ target_queue target l))"
      by (intro subseq_of_group subseq_rev_drop_many arrived)
    also note t(2)
    also have "subseq (to_target target taken) (to_target target (lk_emitted l ! i))"
      by (simp add: t(1) subseq_rev_drop_many)
    finally have "subseq (map ro_message (of_group (groups ! i) (concat ?ws))) (map ro_message (to_target target (lk_emitted l ! i)))"
      by (rule subseq_map)
    then have sub: "subseq (received (groups ! i) (concat (map (map ?inb) ?ws)))
        (map ro_message (to_target target (lk_emitted l ! i)))"
      by (simp only: map_concat [symmetric] received_inbound)
    then show "let emitted = map ro_message (to_target target (lk_emitted l ! i)) in
       subseq (received (groups ! i) (concat (map (map ?inb) ?ws))) emitted \<and>
       (\<forall>arrived \<in> interleavings (map (received (groups ! i)) (map (map ?inb) ?ws)).
          mset arrived \<subseteq># mset emitted \<and>
          (\<forall>d \<in> set (map (map ?inb) ?ws). subseq (received (groups ! i) d) arrived))"
      unfolding Let_def using arrivals [OF sub] by blast
  next
    show "\<forall>d \<in> set (concat (map (map ?inb) ?ws)). hm_get (in_txs rts) (ri_group_id (snd d)) = Some (fst d)"
    proof
      fix d assume "d \<in> set (concat (map (map ?inb) ?ws))"
      then have "d \<in> ?inb ` set (concat ?ws)" by (simp only: map_concat [symmetric] set_map)
      then obtain out where out: "out \<in> set (concat ?ws)" "d = ?inb out" by blast
      from list_emb_set [OF arrived out(1)] have "out \<in> set (concat ws)" by metis
      then have "routed rts (ro_group_id out)" using gr rts by auto
      then show "hm_get (in_txs rts) (ri_group_id (snd d)) = Some (fst d)"
        by (auto simp: out(2) inbound_of_def routed_def)
    qed
  qed (use W in simp_all)
qed

text \<open>A run: two messages are taken in one batch, and the connection breaks after 7 bytes; a third
  message goes out on a second connection.\<close>

definition demo_link ::
  "nat raft_outbound list \<Rightarrow> nat raft_outbound list \<Rightarrow> nat raft_outbound list \<Rightarrow> bool \<Rightarrow> bytes list \<Rightarrow> nat link" where
  "demo_link emitted channel queue connected streams =
     \<lparr>lk_emitted = [emitted], lk_channels = [channel], lk_router = \<lparr>or_queues = [(2, queue)], or_sends = []\<rparr>,
      lk_connected = connected, lk_streams = streams\<rparr>"

lemma demo_emits:
  "link_step demo_write_message 2 [3] (demo_link a b q c st) (demo_link (a @ [demo_out n]) (b @ [demo_out n]) q c st)"
  using link_step.emits [of 0 "[3]" "demo_out n" demo_write_message 2 "demo_link a b q c st"]
  by (simp add: demo_link_def demo_out_def)

lemma demo_routes:
  "link_step demo_write_message 2 [3] (demo_link a (demo_out n # b) q c st) (demo_link a b (q @ [demo_out n]) c st)"
  using link_step.routes [of 0 "demo_link a (demo_out n # b) q c st" "demo_out n" b demo_write_message 2 "[3]"]
  by (simp add: demo_link_def demo_out_def route_outbound_def hm_get_def hm_insert_def)

lemma demo_sends:
  "sender_round demo_write_message co w \<lparr>ps_queue = q, ps_connected = c, ps_streams = st\<rparr> =
     \<lparr>ps_queue = q', ps_connected = c', ps_streams = st'\<rparr> \<Longrightarrow>
   link_step demo_write_message 2 [3] (demo_link a b q c st) (demo_link a b q' c' st')"
  using link_step.sends [of "demo_link a b q c st" 2 q demo_write_message co w _ "[3]"]
  by (simp add: demo_link_def hm_get_def hm_insert_def)

lemma demo_link_reached:
  "link_reaches demo_write_message 2 [3] (link_start 1 [2] [])
     (demo_link [demo_out 5, demo_out 6, demo_out 7] [] [] True
       [be16 3 @ be32 4 @ be32 5 @ take 7 (be16 3 @ be32 4 @ be32 6), be16 3 @ be32 4 @ be32 7])"
proof -
  have start: "link_start 1 [2] [] = demo_link [] [] [] False []"
    by (simp add: link_start_def demo_link_def hm_insert_def)
  have first: "sender_round demo_write_message True (Some 17)
      \<lparr>ps_queue = [demo_out 5, demo_out 6], ps_connected = False, ps_streams = []\<rparr> =
      \<lparr>ps_queue = [], ps_connected = False, ps_streams = [be16 3 @ be32 4 @ be32 5 @ take 7 (be16 3 @ be32 4 @ be32 6)]\<rparr>"
    by (simp add: sender_round_def Let_def BATCH_def demo_out_def encode_raft_message_def demo_write_message_def
        write_on_last_def)
  have second: "sender_round demo_write_message True None
      \<lparr>ps_queue = [demo_out 7], ps_connected = False, ps_streams = [x]\<rparr> =
      \<lparr>ps_queue = [], ps_connected = True, ps_streams = [x, be16 3 @ be32 4 @ be32 7]\<rparr>" for x
    by (simp add: sender_round_def Let_def BATCH_def demo_out_def encode_raft_message_def demo_write_message_def
        write_on_last_def)
  let ?step = "link_step demo_write_message 2 [3]" and ?bs = "be16 3 @ be32 4 @ be32 5 @ take 7 (be16 3 @ be32 4 @ be32 6)"
  have 1: "?step (demo_link [] [] [] False []) (demo_link [demo_out 5] [demo_out 5] [] False [])"
    using demo_emits [of "[]" "[]" "[]" False "[]" 5] by simp
  have 2: "?step (demo_link [demo_out 5] [demo_out 5] [] False []) (demo_link [demo_out 5, demo_out 6] [demo_out 5, demo_out 6] [] False [])"
    using demo_emits [of "[demo_out 5]" "[demo_out 5]" "[]" False "[]" 6] by simp
  have 3: "?step (demo_link a [demo_out 5, demo_out 6] [] False []) (demo_link a [demo_out 6] [demo_out 5] False [])" for a
    using demo_routes [of a 5 "[demo_out 6]" "[]" False "[]"] by simp
  have 4: "?step (demo_link a [demo_out 6] [demo_out 5] False []) (demo_link a [] [demo_out 5, demo_out 6] False [])" for a
    using demo_routes [of a 6 "[]" "[demo_out 5]" False "[]"] by simp
  have 6: "?step (demo_link [demo_out 5, demo_out 6] [] [] False st)
      (demo_link [demo_out 5, demo_out 6, demo_out 7] [demo_out 7] [] False st)" for st
    using demo_emits [of "[demo_out 5, demo_out 6]" "[]" "[]" False st 7] by simp
  have 7: "?step (demo_link a [demo_out 7] [] False st) (demo_link a [] [demo_out 7] False st)" for a st
    using demo_routes [of a 7 "[]" "[]" False st] by simp
  note path = link_further [OF link_further [OF link_further [OF link_further [OF link_further [OF link_here 1] 2] 3] 4]
    demo_sends [OF first]]
  show ?thesis unfolding start
    by (rule link_further [OF link_further [OF link_further [OF path 6] 7] demo_sends [OF second]])
qed

text \<open>The first connection delivers the message 5 and keeps a front part of the frame of 6; the second
  delivers 7, which can be in the channel first.\<close>

lemma demo_frame: "n < 2 ^ 32 \<Longrightarrow> raft_frame demo_write_message (3, n) = be16 3 @ be32 4 @ be32 (word_of_nat n)"
  by (simp add: raft_frame_def encode_raft_message_def demo_write_message_def)

lemma demo_inbound:
  assumes "concat chunks = concat (map (raft_frame demo_write_message) gms) @ take k (be16 3 @ be32 4 @ be32 6)"
    and "k < 10" and "list_all (\<lambda>gm. fst gm = 3 \<and> snd gm < 2 ^ 32) gms"
  shows "\<exists>buf s'. handle_inbound demo_parse_message \<lparr>in_txs = [(3, 0)], in_eventfds = [(3, 8)]\<rparr> chunks
      \<lparr>ib_sends = [SendFull], ib_delivered = [], ib_notified = []\<rparr> = Some (buf, s', NeedMore) \<and>
    received 3 (ib_delivered s') = map snd gms"
proof -
  let ?rts = "\<lparr>in_txs = [(3, 0)], in_eventfds = [(3, 8)]\<rparr>"
    and ?s = "\<lparr>ib_sends = [SendFull], ib_delivered = [], ib_notified = []\<rparr> :: nat inbound_state"
  note codec = raft_frames_codec [OF demo_message_ok]
  have ok: "list_all (writable demo_write_message) gms" "list_all (\<lambda>gm. routed ?rts (fst gm)) gms"
    using assms(3) by (auto simp: list_all_iff writable_def demo_write_message_def routed_def hm_get_def)
  have "writable demo_write_message (3, 6)" by (simp add: writable_def demo_write_message_def)
  moreover have f: "raft_frame demo_write_message (3, 6) = be16 3 @ be32 4 @ be32 6" using demo_frame [of 6] by simp
  moreover have "k < length (raft_frame demo_write_message (3, 6))" using assms(2) by (simp add: f)
  ultimately have part: "frame_codec.partial_frame (raft_frame demo_write_message) (writable demo_write_message)
      (take k (be16 3 @ be32 4 @ be32 6))"
    using frame_codec.partial_frame_def [OF codec] by metis
  from deliver_all [OF ok(2), of ?s] have d: "stays_open_from (deliver_inbound ?rts) gms ?s"
    "ib_delivered (handle_all (deliver_inbound ?rts) gms ?s) = map (inbound_of ?rts) gms" by simp_all
  have "received 3 (map (inbound_of ?rts) gms) = map snd gms"
    using assms(3) by (induction gms) (auto simp: received_def inbound_of_def)
  with frame_codec.feed_partial [OF codec ok(1) d(1) part frame_codec.partial_frame_Nil [OF codec], of chunks] assms(1) d(2)
  show ?thesis by (simp add: handle_inbound_def)
qed

lemma raft_messages_keep_their_way_witness:
  "let rts = \<lparr>in_txs = [(3, 0)], in_eventfds = [(3, 8)]\<rparr>;
       s = \<lparr>ib_sends = [SendFull], ib_delivered = [], ib_notified = []\<rparr>;
       broken = be16 3 @ be32 4 @ be32 5 @ take 7 (be16 3 @ be32 4 @ be32 6);
       anew = be16 3 @ be32 4 @ be32 7 in
   link_reaches demo_write_message 2 [3] (link_start 1 [2] [])
     (demo_link [demo_out 5, demo_out 6, demo_out 7] [] [] True [broken, anew]) \<and>
   (\<exists>buf1 s1 buf2 s2. handle_inbound demo_parse_message rts [take 3 broken, drop 3 broken] s = Some (buf1, s1, NeedMore) \<and>
     handle_inbound demo_parse_message rts [anew] s = Some (buf2, s2, NeedMore) \<and>
     received 3 (ib_delivered s1) = [5] \<and> received 3 (ib_delivered s2) = [7] \<and>
     [7, 5] \<in> interleavings [received 3 (ib_delivered s1), received 3 (ib_delivered s2)] \<and>
     mset [7, 5] \<subseteq># mset [5, 6, 7 :: nat])"
proof -
  let ?broken = "be16 3 @ be32 4 @ be32 5 @ take 7 (be16 3 @ be32 4 @ be32 6)" and ?anew = "be16 3 @ be32 4 @ be32 7"
  let ?l = "demo_link [demo_out 5, demo_out 6, demo_out 7] [] [] True [?broken, ?anew]"
  let ?rts = "\<lparr>in_txs = [(3, 0)], in_eventfds = [(3, 8)]\<rparr>"
    and ?s = "\<lparr>ib_sends = [SendFull], ib_delivered = [], ib_notified = []\<rparr>"
    and ?chunks = "[[take 3 ?broken, drop 3 ?broken], [?anew]]"
  have cat: "concat [take 3 ?broken, drop 3 ?broken] = ?broken"
    by (simp only: concat.simps append_Nil2 append_take_drop_id)
  have reach: "link_reaches demo_write_message 2 [3] (link_start (length [3 :: u16]) [2] []) ?l" using demo_link_reached by simp
  have rts: "\<forall>g \<in> set [3]. routed ?rts g" by (simp add: routed_def hm_get_def)
  have chunks: "list_all2 (\<lambda>cs st. prefix (concat cs) st) ?chunks (lk_streams ?l)"
    unfolding demo_link_def link.select_convs list_all2_Cons cat by simp
  have "distinct [3 :: u16]" "length [?s, ?s] = length ?chunks"
    "\<forall>s \<in> set [?s, ?s]. ib_delivered s = [] \<and> SendDisconnected \<notin> set (ib_sends s)" by simp_all
  from raft_messages_keep_their_way [OF demo_message_ok this(1) reach rts chunks this(2,3)] obtain ds where
    n: "length ds = length ?chunks" and
    d: "\<forall>j < length ?chunks. \<exists>buf s'. handle_inbound demo_parse_message ?rts (?chunks ! j) ([?s, ?s] ! j) = Some (buf, s', NeedMore) \<and>
       ib_delivered s' = ds ! j" and
    arrive: "\<forall>i < length [3 :: u16]. let emitted = map ro_message (to_target 2 (lk_emitted ?l ! i)) in
       subseq (received ([3] ! i) (concat ds)) emitted \<and>
       (\<forall>arrived \<in> interleavings (map (received ([3] ! i)) ds).
          mset arrived \<subseteq># mset emitted \<and> (\<forall>d \<in> set ds. subseq (received ([3] ! i) d) arrived))"
    by blast
  have "0 < length ?chunks" "1 < length ?chunks" by simp_all
  note d' = d [rule_format, OF this(1)] d [rule_format, OF this(2)]
  from d'(1) obtain buf1 s1 where
    s1: "handle_inbound demo_parse_message ?rts [take 3 ?broken, drop 3 ?broken] ?s = Some (buf1, s1, NeedMore)"
      "ib_delivered s1 = ds ! 0" unfolding nth_Cons_0 by blast
  from d'(2) obtain buf2 s2 where
    s2: "handle_inbound demo_parse_message ?rts [?anew] ?s = Some (buf2, s2, NeedMore)" "ib_delivered s2 = ds ! 1"
    unfolding One_nat_def nth_Cons_Suc nth_Cons_0 by blast
  have r1: "received 3 (ib_delivered s1) = [5]"
    using demo_inbound [of "[take 3 ?broken, drop 3 ?broken]" "[(3, 5)]" 7] s1(1) demo_frame [of 5]
    unfolding cat by simp
  have r2: "received 3 (ib_delivered s2) = [7]"
    using demo_inbound [of "[?anew]" "[(3, 7)]" 0] s2(1) demo_frame [of 7] by simp
  have "ds = [ds ! 0, ds ! 1]" using n by (auto simp: length_Suc_conv)
  then have ds: "ds = [ib_delivered s1, ib_delivered s2]" using s1(2) s2(2) by metis
  have seven: "[7, 5] \<in> interleavings [received 3 (ib_delivered s1), received 3 (ib_delivered s2)]"
    by (simp add: r1 r2)
  have "mset [7, 5] \<subseteq># mset [5, 6, 7 :: nat]"
    using arrive seven by (simp add: ds Let_def demo_link_def to_target_def demo_out_def)
  then show ?thesis unfolding Let_def
    using demo_link_reached s1(1) s2(1) r1 r2 seven by blast
qed

end
