(* ===== verification/Acceptor.thy ===== *)
theory Acceptor
  imports Router Engine
begin

text \<open>
  The client side of the network (\<open>net/acceptor.rs\<close>): one task that accepts connections, one
  task per connection, and the task that takes responses from the shards' channels and puts
  them into the connections' queues. They share one thread, so what runs between two
  \<open>await\<close>s is one step; a step's event carries what the task was waiting for. The queue of a
  connection is a \<open>RefCell\<close>: while the connection task writes out the responses it has taken, it
  keeps the queue mutably borrowed, and a second mutable borrow panics. Connection ids do not
  come back (2^64 of them). Eventfds only wake the other side and are left out.
\<close>

subsection \<open>Data\<close>

text \<open>Where a connection task waits: to be started; for the write of the first of the responses
  it has taken from its queue, the queue borrowed; for a read; for the write of a refusal.\<close>

datatype conn_phase = Starting | Flushing "shard_response list" | Reading | Refusing

datatype conn_output = FromShard shard_response | Unavailable

record conn =
  cn_phase :: conn_phase
  cn_queue :: "shard_response list"
  cn_parse_buf :: bytes
  cn_written :: "conn_output list"

text \<open>The request channels of the shards: what they accepted, and the outcomes of the sends to
  come (used up: accepted).\<close>

record request_outlet =
  ol_sends :: "send_result list"
  ol_requests :: "(u16 \<times> shard_request) list"

record acceptor =
  ac_router :: shard_router
  ac_next_conn_id :: u64
  ac_conns :: "(u64, conn) hash_map"
  ac_outlet :: request_outlet

datatype read_result = ReadData bytes | ReadError

datatype net_event =
  Accepted | Started u64 | WriteDone u64 bool | ReadDone u64 read_result | Timeout u64 |
  Responded shard_response

definition acceptor_new :: "u16 \<Rightarrow> send_result list \<Rightarrow> acceptor" where
  "acceptor_new num_shards sends =
     \<lparr>ac_router = router_new num_shards, ac_next_conn_id = 0, ac_conns = [],
      ac_outlet = \<lparr>ol_sends = sends, ol_requests = []\<rparr>\<rparr>"

definition conn_new :: conn where
  "conn_new = \<lparr>cn_phase = Starting, cn_queue = [], cn_parse_buf = [], cn_written = []\<rparr>"

text \<open>The bytes of an output on the socket.\<close>

definition output_bytes :: "conn_output \<Rightarrow> bytes" where
  "output_bytes out = (case out of
       FromShard r \<Rightarrow> encode_response (srsp_response r)
     | Unavailable \<Rightarrow> encode_response \<lparr>resp_status = ErrShardUnavailable, resp_epoch = 0,
         resp_offset = 0, resp_payload = []\<rparr>)"

subsection \<open>The connection task\<close>

definition put_conn :: "u64 \<Rightarrow> conn \<Rightarrow> acceptor \<Rightarrow> acceptor" where
  "put_conn cid c a = a\<lparr>ac_conns := hm_insert cid c (ac_conns a)\<rparr>"

definition close_conn :: "u64 \<Rightarrow> acceptor \<Rightarrow> acceptor" where
  "close_conn cid a = a\<lparr>ac_conns := hm_remove cid (ac_conns a)\<rparr>"

text \<open>The top of the loop: take the queued responses and write the first, or go on to read.\<close>

definition loop_top :: "conn \<Rightarrow> conn" where
  "loop_top c =
     (if cn_queue c = [] then c\<lparr>cn_phase := Reading\<rparr>
      else c\<lparr>cn_phase := Flushing (cn_queue c), cn_queue := []\<rparr>)"

text \<open>A decoded request: route it and try to send it, once.\<close>

definition forward_request ::
  "(bytes \<Rightarrow> u64) \<Rightarrow> shard_router \<Rightarrow> u64 \<Rightarrow> request \<Rightarrow> request_outlet \<Rightarrow> request_outlet \<times> bool" where
  "forward_request xxh3 router cid req ol =
     (case route_stream xxh3 router (req_stream_id req) of
        None \<Rightarrow> (ol, False)
      | Some shard_id \<Rightarrow>
          let shard_req = \<lparr>sreq_connection_id = cid, sreq_request = req\<rparr>;
              sent = ol\<lparr>ol_requests := ol_requests ol @ [(shard_id, shard_req)]\<rparr>
          in (case ol_sends ol of
                [] \<Rightarrow> (sent, True)
              | s # ss \<Rightarrow> if s = SendOk then (sent\<lparr>ol_sends := ss\<rparr>, True)
                          else (ol\<lparr>ol_sends := ss\<rparr>, False)))"

text \<open>The parse loop on the buffer: it ends for want of bytes, with a protocol error, or at a
  request that was not sent: without shards the routing panics, else the refusal is written.
  (The loop always ends: \<open>drain_frames\<close> is never \<open>None\<close>.)\<close>

definition parse_frames :: "(bytes \<Rightarrow> u64) \<Rightarrow> u64 \<Rightarrow> conn \<Rightarrow> acceptor \<Rightarrow> unit fault + acceptor" where
  "parse_frames xxh3 cid c a =
     (case drain_frames decode_request (forward_request xxh3 (ac_router a) cid) (cn_parse_buf c)
             (ac_outlet a) of
        Some (buf, ol, NeedMore) \<Rightarrow>
          Inr (put_conn cid (loop_top (c\<lparr>cn_parse_buf := buf\<rparr>)) (a\<lparr>ac_outlet := ol\<rparr>))
      | Some (buf, ol, Aborted) \<Rightarrow>
          if rt_num_shards (ac_router a) = 0 then Inl Panic
          else Inr (put_conn cid (c\<lparr>cn_parse_buf := buf, cn_phase := Refusing\<rparr>) (a\<lparr>ac_outlet := ol\<rparr>))
      | Some (buf, ol, Malformed e) \<Rightarrow> Inr (close_conn cid (a\<lparr>ac_outlet := ol\<rparr>))
      | None \<Rightarrow> Inl Panic)"

definition write_done :: "(bytes \<Rightarrow> u64) \<Rightarrow> u64 \<Rightarrow> bool \<Rightarrow> conn \<Rightarrow> acceptor \<Rightarrow> (unit fault + acceptor) option" where
  "write_done xxh3 cid ok c a =
     (case cn_phase c of
        Flushing (r # rest) \<Rightarrow>
          Some (Inr (if ok then put_conn cid (c\<lparr>cn_written := cn_written c @ [FromShard r],
                         cn_phase := (if rest = [] then Reading else Flushing rest)\<rparr>) a
                     else close_conn cid a))
      | Refusing \<Rightarrow>
          (if ok then
             (case decode_request (cn_parse_buf c) of
                Inr (Some (_, consumed)) \<Rightarrow>
                  Some (parse_frames xxh3 cid (c\<lparr>cn_written := cn_written c @ [Unavailable],
                    cn_parse_buf := drop consumed (cn_parse_buf c)\<rparr>) a)
              | _ \<Rightarrow> None)
           else Some (Inr (close_conn cid a)))
      | _ \<Rightarrow> None)"

definition read_done :: "(bytes \<Rightarrow> u64) \<Rightarrow> u64 \<Rightarrow> read_result \<Rightarrow> conn \<Rightarrow> acceptor \<Rightarrow> (unit fault + acceptor) option" where
  "read_done xxh3 cid res c a =
     (if cn_phase c \<noteq> Reading then None
      else case res of
             ReadError \<Rightarrow> Some (Inr (close_conn cid a))
           | ReadData bs \<Rightarrow>
               if bs = [] then Some (Inr (close_conn cid a))
               else Some (parse_frames xxh3 cid (c\<lparr>cn_parse_buf := cn_parse_buf c @ bs\<rparr>) a))"

subsection \<open>One step of the thread\<close>

text \<open>A response for a connection that is gone is dropped.\<close>

definition respond :: "shard_response \<Rightarrow> acceptor \<Rightarrow> unit fault + acceptor" where
  "respond r a =
     (case hm_get (ac_conns a) (srsp_connection_id r) of
        None \<Rightarrow> Inr a
      | Some c \<Rightarrow>
          (case cn_phase c of
             Flushing _ \<Rightarrow> Inl Panic
           | _ \<Rightarrow> Inr (put_conn (srsp_connection_id r) (c\<lparr>cn_queue := cn_queue c @ [r]\<rparr>) a)))"

definition on_conn ::
  "u64 \<Rightarrow> (conn \<Rightarrow> acceptor \<Rightarrow> (unit fault + acceptor) option) \<Rightarrow> acceptor \<Rightarrow> (unit fault + acceptor) option" where
  "on_conn cid f a = (case hm_get (ac_conns a) cid of None \<Rightarrow> None | Some c \<Rightarrow> f c a)"

text \<open>\<open>None\<close>: no task waits for this event.\<close>

definition acceptor_step :: "(bytes \<Rightarrow> u64) \<Rightarrow> net_event \<Rightarrow> acceptor \<Rightarrow> (unit fault + acceptor) option" where
  "acceptor_step xxh3 ev a =
     (case ev of
        Accepted \<Rightarrow>
          Some (Inr (put_conn (ac_next_conn_id a) conn_new (a\<lparr>ac_next_conn_id := ac_next_conn_id a + 1\<rparr>)))
      | Started cid \<Rightarrow>
          on_conn cid (\<lambda>c a. if cn_phase c = Starting then Some (Inr (put_conn cid (loop_top c) a)) else None) a
      | WriteDone cid ok \<Rightarrow> on_conn cid (write_done xxh3 cid ok) a
      | ReadDone cid res \<Rightarrow> on_conn cid (read_done xxh3 cid res) a
      | Timeout cid \<Rightarrow>
          on_conn cid (\<lambda>c a. if cn_phase c = Reading then Some (Inr (put_conn cid (loop_top c) a)) else None) a
      | Responded r \<Rightarrow> Some (respond r a))"

inductive acceptor_reaches ::
  "(bytes \<Rightarrow> u64) \<Rightarrow> acceptor \<Rightarrow> net_event list \<Rightarrow> acceptor \<Rightarrow> bool" for xxh3 and a where
  here: "acceptor_reaches xxh3 a [] a"
| further: "acceptor_reaches xxh3 a evs b \<Longrightarrow> acceptor_step xxh3 ev b = Some (Inr c) \<Longrightarrow>
    acceptor_reaches xxh3 a (evs @ [ev]) c"

subsection \<open>What a connection has handled\<close>

definition addressed :: "u64 \<Rightarrow> net_event list \<Rightarrow> shard_response list" where
  "addressed cid evs = List.map_filter (\<lambda>ev. case ev of
     Responded r \<Rightarrow> if srsp_connection_id r = cid then Some r else None | _ \<Rightarrow> None) evs"

definition bytes_read :: "u64 \<Rightarrow> net_event list \<Rightarrow> bytes" where
  "bytes_read cid evs = concat (map (\<lambda>ev. case ev of
     ReadDone x (ReadData bs) \<Rightarrow> if x = cid then bs else [] | _ \<Rightarrow> []) evs)"

definition written_responses :: "conn \<Rightarrow> shard_response list" where
  "written_responses c = List.map_filter (\<lambda>out. case out of
     FromShard r \<Rightarrow> Some r | Unavailable \<Rightarrow> None) (cn_written c)"

definition refusals :: "conn \<Rightarrow> nat" where
  "refusals c = length (filter (\<lambda>out. out = Unavailable) (cn_written c))"

definition in_flight :: "conn \<Rightarrow> shard_response list" where
  "in_flight c = (case cn_phase c of Flushing rs \<Rightarrow> rs | _ \<Rightarrow> [])"

definition conn_flow :: "conn \<Rightarrow> shard_response list" where
  "conn_flow c = written_responses c @ in_flight c @ cn_queue c"

definition requests_of :: "u64 \<Rightarrow> acceptor \<Rightarrow> (u16 \<times> shard_request) list" where
  "requests_of cid a = filter (\<lambda>q. sreq_connection_id (snd q) = cid) (ol_requests (ac_outlet a))"

definition forwarded :: "(bytes \<Rightarrow> u64) \<Rightarrow> shard_router \<Rightarrow> u64 \<Rightarrow> request \<Rightarrow> u16 \<times> shard_request" where
  "forwarded xxh3 router cid r = (the (route_stream xxh3 router (req_stream_id r)),
     \<lparr>sreq_connection_id = cid, sreq_request = r\<rparr>)"

lemma addressed_append: "addressed cid (evs @ evs') = addressed cid evs @ addressed cid evs'"
  by (simp add: addressed_def map_filter_def)

lemma bytes_read_append: "bytes_read cid (evs @ evs') = bytes_read cid evs @ bytes_read cid evs'"
  by (simp add: bytes_read_def)

lemma loop_top_simps [simp]:
  "conn_flow (loop_top c) = written_responses c @ cn_queue c"
  "cn_parse_buf (loop_top c) = cn_parse_buf c" "cn_written (loop_top c) = cn_written c"
  by (simp_all add: loop_top_def conn_flow_def in_flight_def written_responses_def)

lemma forward_request_cases:
  assumes "forward_request xxh3 router cid r ol = (ol', go)"
  shows "ol_requests ol' = ol_requests ol @ (if go then [forwarded xxh3 router cid r] else [])"
  using assms
  by (auto simp: forward_request_def forwarded_def Let_def split: option.splits list.splits if_splits)

lemma drain_forwarded:
  "drain_frames decode_request (forward_request xxh3 router cid) buf ol = Some (buf', ol', e) \<Longrightarrow>
   \<exists>rs. buf = concat (map encode_request rs) @ buf' \<and>
     ol_requests ol' = ol_requests ol @ map (forwarded xxh3 router cid) rs"
proof (induction "length buf" arbitrary: buf ol rule: less_induct)
  case less
  show ?case
  proof (cases "\<exists>r n. decode_request buf = Inr (Some (r, n))")
    case True
    then obtain r n where dec: "decode_request buf = Inr (Some (r, n))" by blast
    note facts = decode_request_Some [OF dec]
    obtain ol1 go where fwd: "forward_request xxh3 router cid r ol = (ol1, go)" by force
    show ?thesis
    proof (cases go)
      case True
      then have "drain_frames decode_request (forward_request xxh3 router cid) (drop n buf) ol1 =
          Some (buf', ol', e)"
        using less.prems dec fwd by (subst (asm) drain_frames.simps) simp
      moreover have "length (drop n buf) < length buf" using facts(1,2) by simp
      ultimately obtain rs where
        "drop n buf = concat (map encode_request rs) @ buf'"
        "ol_requests ol' = ol_requests ol1 @ map (forwarded xxh3 router cid) rs"
        using less.hyps by blast
      moreover have "buf = encode_request r @ drop n buf"
        using facts(3) append_take_drop_id [of n buf] by simp
      ultimately show ?thesis using forward_request_cases [OF fwd] True
        by (intro exI [of _ "r # rs"]) simp
    next
      case False
      then have "buf' = buf \<and> ol' = ol1"
        using less.prems dec fwd by (subst (asm) drain_frames.simps) simp
      with forward_request_cases [OF fwd] False show ?thesis by (intro exI [of _ "[]"]) simp
    qed
  next
    case False
    then have "buf' = buf \<and> ol' = ol"
      using less.prems by (subst (asm) drain_frames.simps) (auto split: sum.splits option.splits)
    then show ?thesis by (intro exI [of _ "[]"]) simp
  qed
qed

definition handled ::
  "(bytes \<Rightarrow> u64) \<Rightarrow> u64 \<Rightarrow> bytes \<Rightarrow> acceptor \<Rightarrow> conn \<Rightarrow> acceptor \<Rightarrow> conn \<Rightarrow> bool" where
  "handled xxh3 cid bs a c b c' =
     (\<exists>hs. cn_parse_buf c @ bs = concat (map (encode_request \<circ> fst) hs) @ cn_parse_buf c' \<and>
        requests_of cid b = requests_of cid a @
          map (forwarded xxh3 (ac_router a) cid \<circ> fst) (filter snd hs) \<and>
        refusals c' = refusals c + length (filter (Not \<circ> snd) hs))"

lemma requests_of_forwarded:
  "filter (\<lambda>q. sreq_connection_id (snd q) = x) (map (forwarded xxh3 router cid) rs) =
     (if x = cid then map (forwarded xxh3 router cid) rs else [])"
  by (induction rs) (auto simp: forwarded_def)

lemma parse_frames_effect:
  assumes run: "parse_frames xxh3 cid c a = Inr b" and ok: "hm_ok (ac_conns a)" and "in_flight c = []"
  shows "ac_next_conn_id b = ac_next_conn_id a \<and> ac_router b = ac_router a \<and> hm_ok (ac_conns b)"
    and "x \<noteq> cid \<Longrightarrow> hm_get (ac_conns b) x = hm_get (ac_conns a) x \<and> requests_of x b = requests_of x a"
    and "hm_get (ac_conns b) cid = Some c' \<Longrightarrow> conn_flow c' = conn_flow c \<and> handled xxh3 cid [] a c b c'"
proof -
  obtain buf ol e where drain: "drain_frames decode_request (forward_request xxh3 (ac_router a) cid)
      (cn_parse_buf c) (ac_outlet a) = Some (buf, ol, e)"
    using reqs.drain_total by (metis option.exhaust prod_cases3)
  from drain_forwarded [OF drain] obtain rs where
    rs: "cn_parse_buf c = concat (map encode_request rs) @ buf"
    "ol_requests ol = ol_requests (ac_outlet a) @ map (forwarded xxh3 (ac_router a) cid) rs" by blast
  consider (put) c1 where "b = put_conn cid c1 (a\<lparr>ac_outlet := ol\<rparr>)" "conn_flow c1 = conn_flow c"
      "cn_written c1 = cn_written c" "cn_parse_buf c1 = buf"
    | (closed) "b = close_conn cid (a\<lparr>ac_outlet := ol\<rparr>)"
  proof (cases e)
    case NeedMore
    with run drain have "b = put_conn cid (loop_top (c\<lparr>cn_parse_buf := buf\<rparr>)) (a\<lparr>ac_outlet := ol\<rparr>)"
      by (simp add: parse_frames_def)
    then show thesis using assms(3)
      by (intro put [of "loop_top (c\<lparr>cn_parse_buf := buf\<rparr>)"]) (simp_all add: conn_flow_def [of c] written_responses_def)
  next
    case Aborted
    with run drain have "b = put_conn cid (c\<lparr>cn_parse_buf := buf, cn_phase := Refusing\<rparr>) (a\<lparr>ac_outlet := ol\<rparr>)"
      by (simp add: parse_frames_def split: if_splits)
    then show thesis using assms(3)
      by (intro put [of "c\<lparr>cn_parse_buf := buf, cn_phase := Refusing\<rparr>"])
        (simp_all add: conn_flow_def in_flight_def written_responses_def)
  qed (use run drain closed in \<open>simp add: parse_frames_def\<close>)
  note cases = this
  have req: "requests_of y b = requests_of y a @ (if y = cid then map (forwarded xxh3 (ac_router a) cid) rs else [])" for y
    using cases by cases (simp_all add: requests_of_def put_conn_def close_conn_def rs requests_of_forwarded)
  show "ac_next_conn_id b = ac_next_conn_id a \<and> ac_router b = ac_router a \<and> hm_ok (ac_conns b)"
    using cases ok by cases (simp_all add: put_conn_def close_conn_def)
  show "x \<noteq> cid \<Longrightarrow> hm_get (ac_conns b) x = hm_get (ac_conns a) x \<and> requests_of x b = requests_of x a"
    using cases ok req [of x] by cases (simp_all add: put_conn_def close_conn_def)
  show "hm_get (ac_conns b) cid = Some c' \<Longrightarrow> conn_flow c' = conn_flow c \<and> handled xxh3 cid [] a c b c'"
    using cases
  proof cases
    case put
    assume "hm_get (ac_conns b) cid = Some c'"
    with put ok have "c' = c1" by (simp add: put_conn_def)
    with put rs req [of cid] show ?thesis
      by (auto simp: handled_def refusals_def intro!: exI [of _ "map (\<lambda>r. (r, True)) rs"])
        (simp add: comp_def)
  qed (use ok in \<open>simp add: close_conn_def\<close>)
qed

text \<open>What an event does to the connection it is for, and that it does nothing to the others.\<close>

definition conn_effect ::
  "(bytes \<Rightarrow> u64) \<Rightarrow> u64 \<Rightarrow> net_event \<Rightarrow> acceptor \<Rightarrow> conn \<Rightarrow> acceptor \<Rightarrow> bool" where
  "conn_effect xxh3 x ev a c b =
     (ac_next_conn_id b = ac_next_conn_id a \<and> ac_router b = ac_router a \<and> hm_ok (ac_conns b) \<and>
      (\<forall>y. y \<noteq> x \<longrightarrow> hm_get (ac_conns b) y = hm_get (ac_conns a) y \<and> requests_of y b = requests_of y a) \<and>
      (\<forall>c'. hm_get (ac_conns b) x = Some c' \<longrightarrow>
         conn_flow c' = conn_flow c @ addressed x [ev] \<and> handled xxh3 x (bytes_read x [ev]) a c b c'))"

lemma put_effect:
  assumes "hm_ok (ac_conns a)" and "conn_flow c1 = conn_flow c @ addressed x [ev]"
    and "bytes_read x [ev] = []" and "cn_parse_buf c1 = cn_parse_buf c" and "refusals c1 = refusals c"
  shows "conn_effect xxh3 x ev a c (put_conn x c1 a)"
proof -
  have "handled xxh3 x [] a c (put_conn x c1 a) c1"
    using assms by (simp add: handled_def requests_of_def put_conn_def exI [of _ "[]"])
  then show ?thesis using assms by (simp add: conn_effect_def put_conn_def requests_of_def)
qed

lemma close_effect: "hm_ok (ac_conns a) \<Longrightarrow> conn_effect xxh3 x ev a c (close_conn x a)"
  by (simp add: conn_effect_def close_conn_def requests_of_def)

lemma parse_effect:
  assumes "parse_frames xxh3 x c1 a = Inr b" and "hm_ok (ac_conns a)" and "in_flight c1 = []"
    and "conn_flow c1 = conn_flow c @ addressed x [ev]"
    and "\<And>c'. handled xxh3 x [] a c1 b c' \<Longrightarrow> handled xxh3 x (bytes_read x [ev]) a c b c'"
  shows "conn_effect xxh3 x ev a c b"
  using parse_frames_effect [OF assms(1-3)] assms(4,5) unfolding conn_effect_def by metis

lemma refused_handled:
  assumes dec: "decode_request (cn_parse_buf c) = Inr (Some (r, n))"
    and h: "handled xxh3 x [] a (c\<lparr>cn_written := cn_written c @ [Unavailable],
      cn_parse_buf := drop n (cn_parse_buf c)\<rparr>) b c'"
  shows "handled xxh3 x [] a c b c'"
proof -
  from h obtain hs where hs: "drop n (cn_parse_buf c) = concat (map (encode_request \<circ> fst) hs) @ cn_parse_buf c'"
    "requests_of x b = requests_of x a @ map (forwarded xxh3 (ac_router a) x \<circ> fst) (filter snd hs)"
    "refusals c' = Suc (refusals c) + length (filter (Not \<circ> snd) hs)"
    by (auto simp: handled_def refusals_def)
  have "cn_parse_buf c = encode_request r @ drop n (cn_parse_buf c)"
    using decode_request_Some(3) [OF dec] append_take_drop_id [of n "cn_parse_buf c"] by simp
  with hs show ?thesis unfolding handled_def by (intro exI [of _ "(r, False) # hs"]) simp
qed

lemma written_more:
  "refusals (c\<lparr>cn_written := cn_written c @ [FromShard r], cn_phase := ph\<rparr>) = refusals c"
  "written_responses (c\<lparr>cn_written := cn_written c @ [FromShard r], cn_phase := ph\<rparr>) = written_responses c @ [r]"
  "written_responses (c\<lparr>cn_written := cn_written c @ [Unavailable], cn_parse_buf := buf\<rparr>) = written_responses c"
  by (simp_all add: refusals_def written_responses_def map_filter_def)

lemma write_done_effect:
  assumes "write_done xxh3 x good c a = Some (Inr b)" and ok: "hm_ok (ac_conns a)"
  shows "conn_effect xxh3 x (WriteDone x good) a c b"
proof (cases "cn_phase c")
  case (Flushing rs)
  with assms(1) obtain r rest where rs: "rs = r # rest" by (cases rs) (auto simp: write_done_def)
  show ?thesis
  proof (cases good)
    case True
    then have b: "b = put_conn x (c\<lparr>cn_written := cn_written c @ [FromShard r],
        cn_phase := (if rest = [] then Reading else Flushing rest)\<rparr>) a"
      using assms(1) Flushing rs by (simp add: write_done_def)
    show ?thesis unfolding b using ok Flushing rs
      by (intro put_effect) (simp_all add: conn_flow_def in_flight_def addressed_def bytes_read_def written_more
          map_filter_def)
  qed (use assms Flushing rs in \<open>auto simp: write_done_def intro: close_effect\<close>)
next
  case Refusing
  show ?thesis
  proof (cases good)
    case True
    then obtain r n where dec: "decode_request (cn_parse_buf c) = Inr (Some (r, n))"
      and run: "parse_frames xxh3 x (c\<lparr>cn_written := cn_written c @ [Unavailable],
        cn_parse_buf := drop n (cn_parse_buf c)\<rparr>) a = Inr b"
      using assms(1) Refusing by (auto simp: write_done_def split: sum.splits option.splits)
    show ?thesis
      using Refusing refused_handled [OF dec]
      by (intro parse_effect [OF run ok]) (simp_all add: in_flight_def conn_flow_def addressed_def
          bytes_read_def written_more map_filter_def)
  qed (use assms Refusing in \<open>auto simp: write_done_def intro: close_effect\<close>)
qed (use assms(1) in \<open>simp_all add: write_done_def\<close>)

lemma read_done_effect:
  assumes "read_done xxh3 x res c a = Some (Inr b)" and ok: "hm_ok (ac_conns a)"
  shows "conn_effect xxh3 x (ReadDone x res) a c b"
proof (cases "\<exists>bs. res = ReadData bs \<and> bs \<noteq> []")
  case True
  then obtain bs where bs: "res = ReadData bs" "bs \<noteq> []" by blast
  then have run: "parse_frames xxh3 x (c\<lparr>cn_parse_buf := cn_parse_buf c @ bs\<rparr>) a = Inr b" and "cn_phase c = Reading"
    using assms(1) by (auto simp: read_done_def split: if_splits)
  then show ?thesis
    by (intro parse_effect [OF run ok]) (simp_all add: in_flight_def conn_flow_def addressed_def
        written_responses_def map_filter_def handled_def refusals_def bytes_read_def bs)
next
  case False
  then have "b = close_conn x a"
    using assms(1) by (auto simp: read_done_def split: if_splits read_result.splits)
  then show ?thesis using close_effect [OF ok] by simp
qed

lemma respond_effect:
  assumes "respond r a = Inr b" and ok: "hm_ok (ac_conns a)"
    and c: "hm_get (ac_conns a) (srsp_connection_id r) = Some c"
  shows "conn_effect xxh3 (srsp_connection_id r) (Responded r) a c b"
proof -
  have "in_flight c = []" and b: "b = put_conn (srsp_connection_id r) (c\<lparr>cn_queue := cn_queue c @ [r]\<rparr>) a"
    using assms by (auto simp: respond_def in_flight_def split: conn_phase.splits)
  then show ?thesis unfolding b using ok
    by (intro put_effect) (simp_all add: conn_flow_def in_flight_def addressed_def bytes_read_def
        written_responses_def refusals_def map_filter_def)
qed

lemma loop_top_effect:
  "hm_ok (ac_conns a) \<Longrightarrow> in_flight c = [] \<Longrightarrow> ev = Started x \<or> ev = Timeout x \<Longrightarrow>
   conn_effect xxh3 x ev a c (put_conn x (loop_top c) a)"
  by (intro put_effect)
    (auto simp: conn_flow_def [of c] addressed_def bytes_read_def map_filter_def refusals_def)

text \<open>The connection an event is for.\<close>

definition subject :: "net_event \<Rightarrow> u64 option" where
  "subject ev = (case ev of Accepted \<Rightarrow> None | Started x \<Rightarrow> Some x | WriteDone x _ \<Rightarrow> Some x
     | ReadDone x _ \<Rightarrow> Some x | Timeout x \<Rightarrow> Some x | Responded r \<Rightarrow> Some (srsp_connection_id r))"

lemma not_subject: "subject ev \<noteq> Some y \<Longrightarrow> addressed y [ev] = [] \<and> bytes_read y [ev] = []"
  by (auto simp: subject_def addressed_def bytes_read_def map_filter_def split: net_event.splits read_result.splits)

lemma acceptor_step_cases:
  assumes "acceptor_step xxh3 ev a = Some (Inr b)" and ok: "hm_ok (ac_conns a)"
  shows "(ev = Accepted \<and> b = put_conn (ac_next_conn_id a) conn_new (a\<lparr>ac_next_conn_id := ac_next_conn_id a + 1\<rparr>)) \<or>
    (\<exists>r. ev = Responded r \<and> hm_get (ac_conns a) (srsp_connection_id r) = None \<and> b = a) \<or>
    (\<exists>x c. subject ev = Some x \<and> hm_get (ac_conns a) x = Some c \<and> conn_effect xxh3 x ev a c b)"
proof (cases ev)
  case (Started x)
  with assms obtain c where "hm_get (ac_conns a) x = Some c" "cn_phase c = Starting"
    "b = put_conn x (loop_top c) a"
    by (auto simp: acceptor_step_def on_conn_def split: option.splits if_splits)
  with loop_top_effect [OF ok] Started show ?thesis by (auto simp: subject_def in_flight_def)
next
  case (Timeout x)
  with assms obtain c where "hm_get (ac_conns a) x = Some c" "cn_phase c = Reading"
    "b = put_conn x (loop_top c) a"
    by (auto simp: acceptor_step_def on_conn_def split: option.splits if_splits)
  with loop_top_effect [OF ok] Timeout show ?thesis by (auto simp: subject_def in_flight_def)
next
  case (Responded r)
  with assms respond_effect [OF _ ok] show ?thesis
    by (cases "hm_get (ac_conns a) (srsp_connection_id r)")
      (auto simp: acceptor_step_def subject_def respond_def)
qed (use assms write_done_effect [OF _ ok] read_done_effect [OF _ ok] in
      \<open>auto simp: acceptor_step_def on_conn_def subject_def split: option.splits\<close>)

lemma acceptor_step_effect:
  assumes step: "acceptor_step xxh3 ev a = Some (Inr b)" and ok: "hm_ok (ac_conns a)"
  shows "hm_ok (ac_conns b) \<and> ac_router b = ac_router a \<and>
      (ac_next_conn_id b = ac_next_conn_id a \<or> ac_next_conn_id b = ac_next_conn_id a + 1)"
    and "hm_get (ac_conns b) cid = Some c' \<Longrightarrow> cid \<noteq> ac_next_conn_id a \<Longrightarrow>
      \<exists>c. hm_get (ac_conns a) cid = Some c \<and> conn_flow c' = conn_flow c @ addressed cid [ev] \<and>
        handled xxh3 cid (bytes_read cid [ev]) a c b c'"
proof -
  show "hm_ok (ac_conns b) \<and> ac_router b = ac_router a \<and>
      (ac_next_conn_id b = ac_next_conn_id a \<or> ac_next_conn_id b = ac_next_conn_id a + 1)"
    using acceptor_step_cases [OF step ok] ok by (auto simp: put_conn_def conn_effect_def)
  have same: "requests_of cid b = requests_of cid a \<Longrightarrow> handled xxh3 cid [] a c b c" for c
    by (simp add: handled_def exI [of _ "[]"])
  assume c': "hm_get (ac_conns b) cid = Some c'" and "cid \<noteq> ac_next_conn_id a"
  from acceptor_step_cases [OF step ok] show "\<exists>c. hm_get (ac_conns a) cid = Some c \<and>
      conn_flow c' = conn_flow c @ addressed cid [ev] \<and> handled xxh3 cid (bytes_read cid [ev]) a c b c'"
  proof (elim disjE exE conjE)
    assume "ev = Accepted" and "b = put_conn (ac_next_conn_id a) conn_new (a\<lparr>ac_next_conn_id := ac_next_conn_id a + 1\<rparr>)"
    then show ?thesis
      using c' \<open>cid \<noteq> ac_next_conn_id a\<close> ok same [of c'] not_subject [of ev cid]
      by (simp add: put_conn_def requests_of_def subject_def)
  next
    fix r assume "ev = Responded r" "hm_get (ac_conns a) (srsp_connection_id r) = None" "b = a"
    then show ?thesis using c' same [of c'] not_subject [of ev cid]
      by (cases "srsp_connection_id r = cid") (auto simp: subject_def)
  next
    fix x c assume "subject ev = Some x" "hm_get (ac_conns a) x = Some c" and eff: "conn_effect xxh3 x ev a c b"
    show ?thesis
    proof (cases "x = cid")
      case False
      then have "hm_get (ac_conns a) cid = Some c'" "requests_of cid b = requests_of cid a"
        using eff c' by (auto simp: conn_effect_def)
      with same [of c'] not_subject [of ev cid] \<open>subject ev = Some x\<close> False show ?thesis by simp
    qed (use eff c' \<open>hm_get (ac_conns a) x = Some c\<close> in \<open>auto simp: conn_effect_def\<close>)
  qed
qed

lemma handled_trans:
  assumes "handled xxh3 x bs a c b d" and "handled xxh3 x bs' b d e f" and "ac_router b = ac_router a"
  shows "handled xxh3 x (bs @ bs') a c e f"
proof -
  from assms(1) obtain hs where hs: "cn_parse_buf c @ bs = concat (map (encode_request \<circ> fst) hs) @ cn_parse_buf d"
    "requests_of x b = requests_of x a @ map (forwarded xxh3 (ac_router a) x \<circ> fst) (filter snd hs)"
    "refusals d = refusals c + length (filter (Not \<circ> snd) hs)" by (auto simp: handled_def)
  from assms(2,3) obtain hs' where hs': "cn_parse_buf d @ bs' = concat (map (encode_request \<circ> fst) hs') @ cn_parse_buf f"
    "requests_of x e = requests_of x b @ map (forwarded xxh3 (ac_router a) x \<circ> fst) (filter snd hs')"
    "refusals f = refusals d + length (filter (Not \<circ> snd) hs')" by (auto simp: handled_def)
  have "cn_parse_buf c @ bs @ bs' = concat (map (encode_request \<circ> fst) (hs @ hs')) @ cn_parse_buf f"
    using hs(1) hs'(1) by (metis append.assoc concat_append map_append)
  with hs hs' show ?thesis unfolding handled_def by (intro exI [of _ "hs @ hs'"]) simp
qed

lemma acceptor_reaches_effect:
  assumes "acceptor_reaches xxh3 a evs b" and "hm_ok (ac_conns a)"
    and "cid < ac_next_conn_id a" and "unat (ac_next_conn_id a) + length evs < 2 ^ 64"
    and "hm_get (ac_conns b) cid = Some c'"
  shows "\<exists>c. hm_get (ac_conns a) cid = Some c \<and> conn_flow c' = conn_flow c @ addressed cid evs \<and>
    handled xxh3 cid (bytes_read cid evs) a c b c'"
proof -
  have "hm_ok (ac_conns b) \<and> ac_router b = ac_router a \<and> cid < ac_next_conn_id b \<and>
      unat (ac_next_conn_id b) \<le> unat (ac_next_conn_id a) + length evs \<and>
      (\<forall>c'. hm_get (ac_conns b) cid = Some c' \<longrightarrow> (\<exists>c. hm_get (ac_conns a) cid = Some c \<and>
        conn_flow c' = conn_flow c @ addressed cid evs \<and> handled xxh3 cid (bytes_read cid evs) a c b c'))"
    using assms(1,4)
  proof (induction rule: acceptor_reaches.induct)
    case here
    then show ?case using assms(2,3)
      by (auto simp: addressed_def bytes_read_def handled_def map_filter_def intro: exI [of _ "[]"])
  next
    case (further evs b ev d)
    then have IH: "hm_ok (ac_conns b)" "ac_router b = ac_router a" "cid < ac_next_conn_id b"
      "unat (ac_next_conn_id b) \<le> unat (ac_next_conn_id a) + length evs"
      "hm_get (ac_conns b) cid = Some c \<Longrightarrow> (\<exists>c0. hm_get (ac_conns a) cid = Some c0 \<and>
        conn_flow c = conn_flow c0 @ addressed cid evs \<and> handled xxh3 cid (bytes_read cid evs) a c0 b c)" for c
      by auto
    note eff = acceptor_step_effect [OF further.hyps(2) IH(1)]
    have next_up: "unat (ac_next_conn_id b + 1) = unat (ac_next_conn_id b) + 1"
      using IH(4) further.prems by (intro unat_add_1) simp
    have "\<exists>c0. hm_get (ac_conns a) cid = Some c0 \<and> conn_flow c' = conn_flow c0 @ addressed cid (evs @ [ev]) \<and>
        handled xxh3 cid (bytes_read cid (evs @ [ev])) a c0 d c'"
      if get: "hm_get (ac_conns d) cid = Some c'" for c'
    proof -
      from eff(2) [OF get] IH(3) obtain c where c: "hm_get (ac_conns b) cid = Some c"
        "conn_flow c' = conn_flow c @ addressed cid [ev]" "handled xxh3 cid (bytes_read cid [ev]) b c d c'" by auto
      from IH(5) [OF c(1)] obtain c0 where "hm_get (ac_conns a) cid = Some c0"
        "conn_flow c = conn_flow c0 @ addressed cid evs" "handled xxh3 cid (bytes_read cid evs) a c0 b c" by blast
      with c handled_trans [OF _ c(3) IH(2)] show ?thesis
        by (simp add: addressed_append bytes_read_append)
    qed
    then show ?case using eff(1) IH next_up by (auto simp: word_less_nat_alt)
  qed
  with assms(5) show ?thesis by blast
qed

lemma acceptor_reaches_router:
  "acceptor_reaches xxh3 a evs b \<Longrightarrow> hm_ok (ac_conns a) \<Longrightarrow>
   hm_ok (ac_conns b) \<and> ac_router b = ac_router a"
  by (induction rule: acceptor_reaches.induct) (auto dest: acceptor_step_effect(1))

subsection \<open>What clients get\<close>

text \<open>
  C13: Responses reach the connection they are for, all of them and in order. Follow an open
  connection through any interleaving of the acceptor's tasks (accepts, reads, writes,
  timeouts and responses of any number of connections): what it has written to its socket, is
  writing and has queued at the end is what it had at the start, followed by exactly the
  shards' responses with its id that arrived in between. No response of another connection
  is among them, and none is lost or doubled while the connection lives.
\<close>

theorem responses_reach_their_connection:
  assumes "acceptor_reaches xxh3 a evs b" and "hm_ok (ac_conns a)"
    and "cid < ac_next_conn_id a" and "unat (ac_next_conn_id a) + length evs < 2 ^ 64"
    and "hm_get (ac_conns a) cid = Some c" and "hm_get (ac_conns b) cid = Some c'"
  shows "conn_flow c' = conn_flow c @ addressed cid evs"
  using acceptor_reaches_effect [OF assms(1-4,6)] assms(5) by auto

text \<open>
  C12: Requests are relayed from the socket in order, each once. In the same setting, the bytes
  the connection has read so far are the encodings of a list of requests followed by what is
  still in its parse buffer; each of these requests was either put into the channel of the
  shard that the hash of its stream names, marked with the connection's id, and in order, or
  answered with one \<open>ErrShardUnavailable\<close>. Nothing is assumed of what the client sends.
\<close>

theorem requests_relayed_in_order:
  assumes "acceptor_reaches xxh3 a evs b" and "hm_ok (ac_conns a)"
    and "cid < ac_next_conn_id a" and "unat (ac_next_conn_id a) + length evs < 2 ^ 64"
    and "hm_get (ac_conns a) cid = Some c" and "hm_get (ac_conns b) cid = Some c'"
  shows "\<exists>hs. cn_parse_buf c @ bytes_read cid evs =
      concat (map (encode_request \<circ> fst) hs) @ cn_parse_buf c' \<and>
    requests_of cid b = requests_of cid a @ map (forwarded xxh3 (ac_router a) cid \<circ> fst) (filter snd hs) \<and>
    refusals c' = refusals c + length (filter (Not \<circ> snd) hs)"
  using acceptor_reaches_effect [OF assms(1-4,6)] assms(5) by (auto simp: handled_def)

text \<open>A read that brings whole requests, all of which are sent.\<close>

lemma read_requests_step:
  assumes "hm_get (ac_conns a) cid = Some c" and "cn_phase c = Reading" and "cn_parse_buf c = []"
    and "cn_queue c = []" and "rs \<noteq> []" and "list_all request_fits rs"
    and "stays_open_from (forward_request xxh3 (ac_router a) cid) rs (ac_outlet a)"
  shows "acceptor_step xxh3 (ReadDone cid (ReadData (concat (map encode_request rs)))) a =
    Some (Inr (put_conn cid c (a\<lparr>ac_outlet := handle_all (forward_request xxh3 (ac_router a) cid) rs (ac_outlet a)\<rparr>)))"
proof -
  have "concat (map encode_request rs) \<noteq> []"
    using assms(5,6) reqs.frames.enc_nonempty by (cases rs) auto
  moreover have "loop_top (c\<lparr>cn_parse_buf := []\<rparr>) = c"
    using assms(2-4) by (cases c) (simp add: loop_top_def)
  ultimately show ?thesis
    using reqs.drain_all [OF assms(6,7) reqs.partial_frame_Nil] assms(1-4)
    by (auto simp: acceptor_step_def on_conn_def read_done_def parse_frames_def)
qed

definition demo_response :: "u64 \<Rightarrow> u64 \<Rightarrow> shard_response" where
  "demo_response cid n = \<lparr>srsp_connection_id = cid, srsp_response =
     \<lparr>resp_status = Ok, resp_epoch = 1, resp_offset = n, resp_payload = []\<rparr>\<rparr>"

text \<open>An acceptor of four shards with one connection, which waits for its first bytes.\<close>

definition reading_conn :: conn where
  "reading_conn = conn_new\<lparr>cn_phase := Reading\<rparr>"

definition demo_acceptor :: "send_result list \<Rightarrow> acceptor" where
  "demo_acceptor sends = (acceptor_new 4 sends)\<lparr>ac_next_conn_id := 1, ac_conns := [(0, reading_conn)]\<rparr>"

lemma demo_acceptor:
  "hm_ok (ac_conns (demo_acceptor sends))" "hm_get (ac_conns (demo_acceptor sends)) 0 = Some reading_conn"
  "ac_next_conn_id (demo_acceptor sends) = 1"
  "cn_phase reading_conn = Reading" "cn_queue reading_conn = []" "cn_parse_buf reading_conn = []"
  "cn_written reading_conn = []" "ac_router (demo_acceptor sends) = router_new 4"
  "ac_conns (demo_acceptor sends) = [(0, reading_conn)]"
  "ac_outlet (demo_acceptor sends) = \<lparr>ol_sends = sends, ol_requests = []\<rparr>"
  by (simp_all add: demo_acceptor_def acceptor_new_def reading_conn_def conn_new_def hm_ok_def hm_get_def)

lemma first_connection:
  "acceptor_reaches xxh3 (acceptor_new n sends) [Accepted, Started 0]
    ((acceptor_new n sends)\<lparr>ac_next_conn_id := 1, ac_conns := [(0, reading_conn)]\<rparr>)"
proof -
  let ?a = "acceptor_new n sends" and ?b = "(acceptor_new n sends)\<lparr>ac_next_conn_id := 1, ac_conns := [(0, conn_new)]\<rparr>"
    and ?c = "(acceptor_new n sends)\<lparr>ac_next_conn_id := 1, ac_conns := [(0, reading_conn)]\<rparr>"
  have "acceptor_step xxh3 Accepted ?a = Some (Inr ?b)"
    by (simp add: acceptor_step_def put_conn_def acceptor_new_def)
  moreover have "acceptor_step xxh3 (Started 0) ?b = Some (Inr ?c)"
    by (simp add: acceptor_step_def on_conn_def hm_get_def put_conn_def loop_top_def conn_new_def
        reading_conn_def)
  ultimately have "acceptor_reaches xxh3 ?a (([] @ [Accepted]) @ [Started 0]) ?c"
    using acceptor_reaches.further acceptor_reaches.here by metis
  then show ?thesis by simp
qed

text \<open>Two steps of the example: a response for the connection, and the next turn of its loop.\<close>

lemma demo_flush:
  assumes "srsp_connection_id r = 0"
  shows "acceptor_reaches xxh3 (demo_acceptor sends) ([] @ [Responded r] @ [Timeout 0])
    ((demo_acceptor sends)\<lparr>ac_conns := [(0, reading_conn\<lparr>cn_phase := Flushing [r]\<rparr>)]\<rparr>)"
proof -
  let ?a = "demo_acceptor sends" and ?b = "(demo_acceptor sends)\<lparr>ac_conns := [(0, reading_conn\<lparr>cn_queue := [r]\<rparr>)]\<rparr>"
    and ?c = "(demo_acceptor sends)\<lparr>ac_conns := [(0, reading_conn\<lparr>cn_phase := Flushing [r]\<rparr>)]\<rparr>"
  have "acceptor_step xxh3 (Responded r) ?a = Some (Inr ?b)"
    using assms by (simp add: acceptor_step_def respond_def demo_acceptor put_conn_def hm_get_def)
  moreover have "acceptor_step xxh3 (Timeout 0) ?b = Some (Inr ?c)"
    by (simp add: acceptor_step_def on_conn_def hm_get_def put_conn_def loop_top_def demo_acceptor)
  ultimately show ?thesis
    using acceptor_reaches.further acceptor_reaches.here by (metis append.assoc)
qed

lemma responses_reach_their_connection_witness:
  "\<exists>b c'. acceptor_reaches (\<lambda>_. 5) (demo_acceptor []) [Responded (demo_response 0 1), Timeout 0] b \<and>
     hm_get (ac_conns b) 0 = Some c' \<and> conn_flow c' = [demo_response 0 1]"
proof -
  have r: "srsp_connection_id (demo_response 0 1) = 0" by (simp add: demo_response_def)
  let ?b = "(demo_acceptor [])\<lparr>ac_conns := [(0, reading_conn\<lparr>cn_phase := Flushing [demo_response 0 1]\<rparr>)]\<rparr>"
  have run: "acceptor_reaches (\<lambda>_. 5) (demo_acceptor []) [Responded (demo_response 0 1), Timeout 0] ?b"
    using demo_flush [OF r] by simp
  have get: "hm_get (ac_conns ?b) 0 = Some (reading_conn\<lparr>cn_phase := Flushing [demo_response 0 1]\<rparr>)"
    by (simp add: hm_get_def)
  have "conn_flow (reading_conn\<lparr>cn_phase := Flushing [demo_response 0 1]\<rparr>) =
      conn_flow reading_conn @ addressed 0 [Responded (demo_response 0 1), Timeout 0]"
    by (rule responses_reach_their_connection [OF run demo_acceptor(1) _ _ demo_acceptor(2) get])
      (simp_all add: demo_acceptor)
  also have "\<dots> = [demo_response 0 1]"
    by (simp add: conn_flow_def in_flight_def written_responses_def demo_acceptor addressed_def
        map_filter_def r)
  finally show ?thesis using run get by blast
qed

lemma requests_relayed_in_order_witness:
  "\<exists>b. acceptor_reaches (\<lambda>_. 5) (demo_acceptor []) [ReadDone 0 (ReadData (encode_request (append_request 7 3 [1])))] b \<and>
     requests_of 0 b = [(1, \<lparr>sreq_connection_id = 0, sreq_request = append_request 7 3 [1]\<rparr>)]"
proof -
  let ?r = "append_request 7 3 [1]" and ?ev = "ReadDone 0 (ReadData (concat (map encode_request [append_request 7 3 [1]])))"
  have fits: "request_fits ?r" by (simp add: append_request_def request_fits_def payload_fits_def)
  have route: "route_stream (\<lambda>_. 5) (router_new 4) s = Some 1" for s
    by (simp add: route_stream_def router_new_def)
  obtain ol where ol: "stays_open_from (forward_request (\<lambda>_. 5) (router_new 4) 0) [?r] \<lparr>ol_sends = [], ol_requests = []\<rparr>"
    "ol = handle_all (forward_request (\<lambda>_. 5) (router_new 4) 0) [?r] \<lparr>ol_sends = [], ol_requests = []\<rparr>"
    by (simp add: forward_request_def route Let_def)
  let ?b = "put_conn 0 reading_conn ((demo_acceptor [])\<lparr>ac_outlet := ol\<rparr>)"
  have "acceptor_step (\<lambda>_. 5) ?ev (demo_acceptor []) = Some (Inr ?b)"
    using ol fits by (subst read_requests_step [where c = reading_conn]) (simp_all add: demo_acceptor hm_get_def)
  from acceptor_reaches.further [OF acceptor_reaches.here this]
  have run: "acceptor_reaches (\<lambda>_. 5) (demo_acceptor []) [?ev] ?b" by simp
  have get: "hm_get (ac_conns ?b) 0 = Some reading_conn" by (simp add: put_conn_def demo_acceptor hm_get_def)
  have "requests_of 0 ?b = [(1, \<lparr>sreq_connection_id = 0, sreq_request = ?r\<rparr>)]"
    by (simp add: requests_of_def put_conn_def ol forward_request_def route Let_def)
  moreover from requests_relayed_in_order [OF run demo_acceptor(1) _ _ demo_acceptor(2) get]
  have "\<exists>hs. encode_request ?r = concat (map (encode_request \<circ> fst) hs) \<and> filter (Not \<circ> snd) hs = []"
    by (auto simp: demo_acceptor bytes_read_def)
  ultimately show ?thesis using run by auto
qed

subsection \<open>A response during a flush\<close>

text \<open>
  C38: A response that arrives while its connection writes out earlier ones panics the thread of
  the acceptor, with every connection on it. The connection task holds the mutable borrow of
  its queue across the write; so after a first response has been taken from the queue (at the
  next turn of the connection's loop, at most 100 microseconds later), a second response for
  the connection that is drained before the write of the first has completed borrows the queue
  again. The bytes of the write may take any time to go out.
\<close>

theorem response_during_flush_panics:
  assumes "hm_ok (ac_conns a)" and "hm_get (ac_conns a) cid = Some c" and "cn_phase c = Reading"
    and "srsp_connection_id r1 = cid" and "srsp_connection_id r2 = cid"
  shows "\<exists>b. acceptor_reaches xxh3 a [Responded r1, Timeout cid] b \<and>
    acceptor_step xxh3 (Responded r2) b = Some (Inl Panic)"
proof -
  let ?c1 = "c\<lparr>cn_queue := cn_queue c @ [r1]\<rparr>"
  have "acceptor_step xxh3 (Responded r1) a = Some (Inr (put_conn cid ?c1 a))"
    using assms by (simp add: acceptor_step_def respond_def)
  moreover have "acceptor_step xxh3 (Timeout cid) (put_conn cid ?c1 a) =
      Some (Inr (put_conn cid (loop_top ?c1) (put_conn cid ?c1 a)))"
    using assms(1,3) by (simp add: acceptor_step_def on_conn_def put_conn_def)
  ultimately have "acceptor_reaches xxh3 a (([] @ [Responded r1]) @ [Timeout cid])
      (put_conn cid (loop_top ?c1) (put_conn cid ?c1 a))"
    using acceptor_reaches.further acceptor_reaches.here by metis
  moreover have "acceptor_step xxh3 (Responded r2) (put_conn cid (loop_top ?c1) (put_conn cid ?c1 a)) =
      Some (Inl Panic)"
    using assms(1,5) by (simp add: acceptor_step_def respond_def put_conn_def loop_top_def)
  ultimately show ?thesis by auto
qed

lemma response_during_flush_panics_witness:
  "\<exists>b. acceptor_reaches (\<lambda>_. 5) (demo_acceptor []) [Responded (demo_response 0 1), Timeout 0] b \<and>
     acceptor_step (\<lambda>_. 5) (Responded (demo_response 0 2)) b = Some (Inl Panic)"
  by (rule response_during_flush_panics [OF demo_acceptor(1,2,4)]) (simp_all add: demo_response_def)

end
