(* ===== verification/AcceptorTotal.thy ===== *)
theory AcceptorTotal
  imports Acceptor "HOL-Library.Sublist"
begin

text \<open>
  The acceptor from its start: what a connection has been given and has handed on since it was
  accepted, for every connection that is open after any interleaving of the tasks. The list of
  requests that the acceptor has put into the shards' channels only grows.
\<close>

lemma parse_requests_grow:
  assumes "parse_frames xxh3 x c a = Inr b"
  shows "prefix (ol_requests (ac_outlet a)) (ol_requests (ac_outlet b))"
proof -
  obtain buf ol e where drain: "drain_frames decode_request (forward_request xxh3 (ac_router a) x)
      (cn_parse_buf c) (ac_outlet a) = Some (buf, ol, e)"
    using reqs.drain_total by (metis option.exhaust prod_cases3)
  from drain_forwarded [OF drain] have "prefix (ol_requests (ac_outlet a)) (ol_requests ol)"
    by (auto intro: prefixI)
  moreover have "ac_outlet b = ol"
    using assms drain by (auto simp: parse_frames_def put_conn_def close_conn_def split: drain_end.splits if_splits)
  ultimately show ?thesis by simp
qed

lemma step_requests_grow:
  assumes "acceptor_step xxh3 ev a = Some (Inr b)"
  shows "prefix (ol_requests (ac_outlet a)) (ol_requests (ac_outlet b))"
  using assms parse_requests_grow
  by (fastforce simp: acceptor_step_def on_conn_def write_done_def read_done_def respond_def put_conn_def close_conn_def
      split: net_event.splits option.splits conn_phase.splits list.splits if_splits sum.splits read_result.splits)

subsection \<open>From the start\<close>

definition from_start :: "(bytes \<Rightarrow> u64) \<Rightarrow> acceptor \<Rightarrow> net_event list \<Rightarrow> acceptor \<Rightarrow> bool" where
  "from_start xxh3 a evs b =
     (hm_ok (ac_conns b) \<and> ac_router b = ac_router a \<and> unat (ac_next_conn_id b) \<le> length evs \<and>
      (\<forall>cid. ac_next_conn_id b \<le> cid \<longrightarrow>
         hm_get (ac_conns b) cid = None \<and> requests_of cid b = [] \<and> bytes_read cid evs = []) \<and>
      (\<forall>cid c. hm_get (ac_conns b) cid = Some c \<longrightarrow>
         suffix (conn_flow c) (addressed cid evs) \<and> handled xxh3 cid (bytes_read cid evs) a conn_new b c))"

lemma acceptor_from_start:
  assumes "acceptor_reaches xxh3 (acceptor_new n sends) evs b" and "length evs < 2 ^ 64"
  shows "from_start xxh3 (acceptor_new n sends) evs b"
  using assms
proof (induction rule: acceptor_reaches.induct)
  case here
  show ?case by (simp add: from_start_def acceptor_new_def requests_of_def bytes_read_def)
next
  case (further evs b ev d)
  let ?a = "acceptor_new n sends"
  from further have IH: "from_start xxh3 ?a evs b" and len: "unat (ac_next_conn_id b) + 1 < 2 ^ 64"
    by (auto simp: from_start_def)
  then have ok: "hm_ok (ac_conns b)" and router: "ac_router b = ac_router ?a" by (simp_all add: from_start_def)
  have low: "x < ac_next_conn_id b" if "hm_get (ac_conns b) x = Some c" for x c
    using IH that by (auto simp: from_start_def not_le [symmetric])
  have fresh: "requests_of x b = [] \<and> bytes_read x evs = []" if "ac_next_conn_id b \<le> x" for x
    using IH that by (simp add: from_start_def)
  have old: "suffix (conn_flow c) (addressed x evs) \<and> handled xxh3 x (bytes_read x evs) ?a conn_new b c"
    if "hm_get (ac_conns b) x = Some c" for x c using IH that by (simp add: from_start_def)
  from acceptor_step_cases [OF further.hyps(2) ok] show ?case
  proof (elim disjE exE conjE)
    assume ev: "ev = Accepted" and d: "d = put_conn (ac_next_conn_id b) conn_new (b\<lparr>ac_next_conn_id := ac_next_conn_id b + 1\<rparr>)"
    have up: "unat (ac_next_conn_id b + 1) = unat (ac_next_conn_id b) + 1" using len by (intro unat_add_1)
    have req: "requests_of x d = requests_of x b" for x by (simp add: d put_conn_def requests_of_def)
    have "requests_of x ?a = []" for x by (simp add: requests_of_def acceptor_new_def)
    then have "suffix (conn_flow c) (addressed x (evs @ [ev])) \<and> handled xxh3 x (bytes_read x (evs @ [ev])) ?a conn_new d c"
      if "hm_get (ac_conns d) x = Some c" for x c
      using that old [of x c] fresh [of x] ok req [of x] not_subject [of ev x]
      by (cases "x = ac_next_conn_id b")
        (auto simp: d put_conn_def ev subject_def addressed_append bytes_read_append handled_def
          conn_new_def conn_flow_def in_flight_def written_responses_def intro: exI [of _ "[]"])
    moreover have "hm_get (ac_conns d) x = None \<and> requests_of x d = [] \<and> bytes_read x (evs @ [ev]) = []"
      if "ac_next_conn_id d \<le> x" for x
    proof -
      have "ac_next_conn_id b < x" using that up by (simp add: d put_conn_def word_less_nat_alt word_le_nat_alt)
      then show ?thesis using IH req [of x] not_subject [of ev x]
        by (auto simp: from_start_def d put_conn_def ev subject_def bytes_read_append ok)
    qed
    ultimately show ?thesis
      using IH up by (simp add: from_start_def d put_conn_def ok)
  next
    fix r assume ev: "ev = Responded r" and "hm_get (ac_conns b) (srsp_connection_id r) = None" "d = b"
    moreover from this have "hm_get (ac_conns b) x = Some c \<Longrightarrow> subject ev \<noteq> Some x" for x c
      by (auto simp: subject_def)
    moreover have "bytes_read x [ev] = []" for x by (simp add: ev bytes_read_def)
    ultimately show ?thesis
      using IH not_subject [of ev] by (fastforce simp: from_start_def addressed_append bytes_read_append)
  next
    fix x c assume x: "subject ev = Some x" "hm_get (ac_conns b) x = Some c" and eff: "conn_effect xxh3 x ev b c d"
    have other: "y \<noteq> x \<Longrightarrow> hm_get (ac_conns d) y = hm_get (ac_conns b) y \<and> requests_of y d = requests_of y b \<and>
        bytes_read y [ev] = [] \<and> addressed y [ev] = []" for y
      using eff x(1) not_subject [of ev y] by (auto simp: conn_effect_def)
    have "suffix (conn_flow c') (addressed y (evs @ [ev])) \<and> handled xxh3 y (bytes_read y (evs @ [ev])) ?a conn_new d c'"
      if get: "hm_get (ac_conns d) y = Some c'" for y c'
    proof (cases "y = x")
      case True
      then have "conn_flow c' = conn_flow c @ addressed x [ev]" "handled xxh3 x (bytes_read x [ev]) b c d c'"
        using eff get by (auto simp: conn_effect_def)
      with True old [OF x(2)] handled_trans [OF _ _ router] show ?thesis
        by (auto simp: addressed_append bytes_read_append suffix_def)
    next
      case False
      with other [OF False] old [of y c'] get show ?thesis
        by (auto simp: addressed_append bytes_read_append handled_def)
    qed
    moreover have "hm_get (ac_conns d) y = None \<and> requests_of y d = [] \<and> bytes_read y (evs @ [ev]) = []"
      if "ac_next_conn_id d \<le> y" for y
    proof -
      have "ac_next_conn_id b \<le> y" using that eff by (simp add: conn_effect_def)
      then show ?thesis using low [OF x(2)] IH other [of y] by (auto simp: from_start_def bytes_read_append)
    qed
    ultimately show ?thesis using IH eff by (simp add: from_start_def conn_effect_def)
  qed
qed

end
