(* ===== verification/Topology.thy ===== *)
theory Topology
  imports Segment
begin

text \<open>
  The NUMA topology (\<open>numa/detection.rs\<close>): the parser of the kernel's CPU lists and the
  detection from the directory of the nodes. What the directory holds is an argument: its
  entries, each with the content of its \<open>cpulist\<close> file (\<open>None\<close>: there is no such file), any
  of them an I/O error; and so is the number of CPUs the standard library reports. File
  contents are ASCII.
\<close>

record numa_node =
  nn_node_id :: nat
  nn_cpu_ids :: "nat list"

subsection \<open>CPU lists\<close>

definition is_ascii_space :: "char \<Rightarrow> bool" where
  "is_ascii_space c = (let v = of_char c :: nat in v = 32 \<or> 9 \<le> v \<and> v \<le> 13)"

definition trim :: "string \<Rightarrow> string" where
  "trim s = rev (dropWhile is_ascii_space (rev (dropWhile is_ascii_space s)))"

fun split_on :: "char \<Rightarrow> string \<Rightarrow> string list" where
  "split_on c [] = [[]]"
| "split_on c (x # xs) =
     (if x = c then [] # split_on c xs
      else case split_on c xs of [] \<Rightarrow> [[x]] | p # ps \<Rightarrow> (x # p) # ps)"

abbreviation parse_usize :: "string \<Rightarrow> nat option" where
  "parse_usize \<equiv> parse_unsigned (2 ^ 64)"

definition parse_cpu_part :: "string \<Rightarrow> nat list" where
  "parse_cpu_part s =
     (let part = trim s in
      if part = [] then []
      else case split_once (CHR ''-'') part of
             Some (start_str, end_str) \<Rightarrow>
               (case (parse_usize start_str, parse_usize end_str) of
                  (Some a, Some b) \<Rightarrow> [a..<Suc b] | _ \<Rightarrow> [])
           | None \<Rightarrow> (case parse_usize part of Some cpu \<Rightarrow> [cpu] | None \<Rightarrow> []))"

definition parse_cpulist :: "string \<Rightarrow> nat list" where
  "parse_cpulist s = concat (map parse_cpu_part (split_on (CHR '','') s))"

subsection \<open>Detection\<close>

definition single_node_fallback :: "nat option \<Rightarrow> numa_node list" where
  "single_node_fallback cpus =
     (let num_cpus = (case cpus of Some n \<Rightarrow> n | None \<Rightarrow> 1)
      in [\<lparr>nn_node_id = 0, nn_cpu_ids = [0..<num_cpus]\<rparr>])"

definition strip_prefix :: "string \<Rightarrow> string \<Rightarrow> string option" where
  "strip_prefix prefix s =
     (if take (length prefix) s = prefix then Some (drop (length prefix) s) else None)"

type_synonym 'e node_entry = "string \<times> ('e + string) option"

primrec read_nodes :: "('e + 'e node_entry) list \<Rightarrow> 'e + numa_node list" where
  "read_nodes [] = Inr []"
| "read_nodes (entry # entries) =
     (case entry of
        Inl e \<Rightarrow> Inl e
      | Inr (name, cpulist) \<Rightarrow>
          (case Option.bind (strip_prefix ''node'' name) parse_usize of
             None \<Rightarrow> read_nodes entries
           | Some node_id \<Rightarrow>
               (case cpulist of
                  None \<Rightarrow> read_nodes entries
                | Some (Inl e) \<Rightarrow> Inl e
                | Some (Inr content) \<Rightarrow>
                    (case read_nodes entries of
                       Inl e \<Rightarrow> Inl e
                     | Inr nodes \<Rightarrow>
                         Inr (\<lparr>nn_node_id = node_id,
                               nn_cpu_ids = parse_cpulist (trim content)\<rparr> # nodes)))))"

text \<open>\<open>dir\<close>: \<open>None\<close> if the directory does not exist, else what listing it gives.\<close>

definition detect ::
  "('e + ('e + 'e node_entry) list) option \<Rightarrow> nat option \<Rightarrow> 'e + numa_node list" where
  "detect dir cpus =
     (case dir of
        None \<Rightarrow> Inr (single_node_fallback cpus)
      | Some (Inl e) \<Rightarrow> Inl e
      | Some (Inr entries) \<Rightarrow>
          (case read_nodes entries of
             Inl e \<Rightarrow> Inl e
           | Inr nodes \<Rightarrow>
               (let nodes = sort_key nn_node_id nodes
                in if nodes = [] then Inr (single_node_fallback cpus) else Inr nodes)))"

text \<open>What the server starts with (\<open>main.rs\<close>).\<close>

definition server_topology ::
  "bool \<Rightarrow> ('e + ('e + 'e node_entry) list) option \<Rightarrow> nat option \<Rightarrow> numa_node list" where
  "server_topology numa_aware dir cpus =
     (if numa_aware then (case detect dir cpus of Inr nodes \<Rightarrow> nodes | Inl _ \<Rightarrow> single_node_fallback cpus)
      else single_node_fallback cpus)"

definition total_cpus :: "numa_node list \<Rightarrow> nat" where
  "total_cpus nodes = sum_list (map (\<lambda>n. length (nn_cpu_ids n)) nodes)"

subsection \<open>The parser reads back what the kernel prints\<close>

definition show_range :: "nat \<times> nat \<Rightarrow> string" where
  "show_range = (\<lambda>(a, b). if a = b then dec_digits a else dec_digits a @ ''-'' @ dec_digits b)"

fun show_cpulist :: "(nat \<times> nat) list \<Rightarrow> string" where
  "show_cpulist [] = []"
| "show_cpulist [r] = show_range r"
| "show_cpulist (r # rs) = show_range r @ '','' @ show_cpulist rs"

lemma digit_char_not_other:
  "is_digit_char c \<Longrightarrow> c \<noteq> CHR '','' \<and> c \<noteq> CHR ''-'' \<and> c \<noteq> CHR ''+'' \<and> \<not> is_ascii_space c"
  by (auto simp: is_digit_char_def digit_val_def is_ascii_space_def Let_def split: if_splits)

lemma dec_digits_chars: "c \<in> set (dec_digits n) \<Longrightarrow> is_digit_char c"
  using digit_chars_dec [of n] by (simp add: list_all_iff)

lemma parse_usize_dec: "n < 2 ^ 64 \<Longrightarrow> parse_usize (dec_digits n) = Some n"
  using parse_unsigned_padded [of n "2 ^ 64" 0] by (simp add: format_padded_def)

lemma dropWhile_none: "(\<And>x. x \<in> set xs \<Longrightarrow> \<not> P x) \<Longrightarrow> dropWhile P xs = xs"
  by (cases xs) auto

lemma trim_id: "(\<And>c. c \<in> set s \<Longrightarrow> \<not> is_ascii_space c) \<Longrightarrow> trim s = s"
  using dropWhile_none [of s is_ascii_space] dropWhile_none [of "rev s" is_ascii_space] by (simp add: trim_def)

lemma split_on_none: "c \<notin> set s \<Longrightarrow> split_on c s = [s]"
  by (induction s) auto

lemma split_on_sep: "c \<notin> set s \<Longrightarrow> split_on c (s @ c # t) = s # split_on c t"
  by (induction s) auto

lemma show_range_chars:
  "c \<in> set (show_range r) \<Longrightarrow> is_digit_char c \<or> c = CHR ''-''"
  by (cases r) (auto simp: show_range_def dec_digits_chars split: if_splits)

lemma parse_shown_range:
  assumes "a \<le> b" and "b < 2 ^ 64"
  shows "parse_cpu_part (show_range (a, b)) = [a..<Suc b]"
proof -
  have no_dash: "CHR ''-'' \<notin> set (dec_digits n)" for n
    using dec_digits_chars digit_char_not_other by blast
  have "\<not> is_ascii_space (CHR ''-'')" by (simp add: is_ascii_space_def)
  then have trim: "trim (show_range (a, b)) = show_range (a, b)"
    using show_range_chars digit_char_not_other by (intro trim_id) blast
  have "a < 2 ^ 64" using assms by simp
  show ?thesis
  proof (cases "a = b")
    case True
    have "split_once (CHR ''-'') (dec_digits b) = None"
    proof -
      have "dropWhile (\<lambda>x. x \<noteq> CHR ''-'') (dec_digits b) = []"
        using no_dash [of b] by (auto simp: dropWhile_eq_Nil_conv)
      then show ?thesis by (simp only: split_once_def list.case)
    qed
    then show ?thesis
      using trim dec_digits_nonempty [of b] parse_usize_dec [OF assms(2)] True
      by (simp add: parse_cpu_part_def Let_def show_range_def)
  next
    case False
    with trim show ?thesis
      using split_once_first [OF no_dash, of a "dec_digits b"] parse_usize_dec [OF assms(2)]
        parse_usize_dec [OF \<open>a < 2 ^ 64\<close>]
      by (simp add: parse_cpu_part_def Let_def show_range_def)
  qed
qed

lemma parse_shown_cpulist:
  assumes "\<forall>(a, b) \<in> set rs. a \<le> b \<and> b < 2 ^ 64"
  shows "parse_cpulist (show_cpulist rs) = concat (map (\<lambda>(a, b). [a..<Suc b]) rs)"
proof -
  have comma: "CHR '','' \<notin> set (show_range r)" for r
    using show_range_chars [of "CHR '',''" r] digit_char_not_other by auto
  show ?thesis
    using assms
  proof (induction rs rule: show_cpulist.induct)
    case (2 r)
    then show ?case
      by (cases r) (simp add: parse_cpulist_def split_on_none [OF comma] parse_shown_range)
  next
    case (3 r r' rs)
    obtain a b where r: "r = (a, b)" by force
    have "parse_cpulist (show_cpulist (r # r' # rs)) =
        parse_cpu_part (show_range r) @ parse_cpulist (show_cpulist (r' # rs))"
      by (simp add: parse_cpulist_def split_on_sep [OF comma])
    with 3 r show ?case by (simp add: parse_shown_range)
  qed (simp add: parse_cpulist_def parse_cpu_part_def trim_def)
qed

text \<open>
  The CPU list parser reads back what the kernel prints: from a comma-separated list of
  numbers and of ranges it returns the CPUs of each range in order, for every list of ranges
  below 2^64.
\<close>

theorem cpulist_roundtrip:
  assumes "\<forall>(a, b) \<in> set rs. a \<le> b \<and> b < 2 ^ 64"
  shows "parse_cpulist (show_cpulist rs) = concat (map (\<lambda>(a, b). [a..<Suc b]) rs)"
  using assms by (rule parse_shown_cpulist)

lemma cpulist_roundtrip_witness:
  "parse_cpulist ''0-2,5,7-9'' = [0, 1, 2, 5, 7, 8, 9]"
proof -
  have "show_cpulist [(0, 2), (5, 5), (7, 9)] = ''0-2,5,7-9''"
    by code_simp
  with cpulist_roundtrip [of "[(0, 2), (5, 5), (7, 9)]"] show ?thesis by (simp add: upt_rec)
qed

text \<open>A machine always has a CPU for the server: the fallback's node is not empty.\<close>

lemma fallback_nonempty: "cpus \<noteq> Some 0 \<Longrightarrow> nn_cpu_ids (hd (single_node_fallback cpus)) \<noteq> []"
  by (auto simp: single_node_fallback_def Let_def split: option.split)

lemma fallback_total: "total_cpus (single_node_fallback (Some n)) = n"
  by (simp add: total_cpus_def single_node_fallback_def)

end
