(* ===== verification/Placement.thy ===== *)
theory Placement
  imports Topology "HOL-Library.Multiset"
begin

text \<open>
  Which CPU each shard and the acceptor run on (\<open>numa/placement.rs\<close>), computed from the
  topology and the configured number of shards, and binding a thread to its CPU.
\<close>

record shard_assignment =
  sa_shard_id :: u16
  sa_cpu_id :: nat
  sa_numa_node :: nat

record shard_placement =
  sp_acceptor_cpus :: "nat list"
  sp_shard_assignments :: "shard_assignment list"

text \<open>The loop over the nodes: the first CPU of each goes to the acceptor.\<close>

primrec reserve_cpus ::
  "numa_node list \<Rightarrow> nat list \<times> (nat \<times> nat) list \<Rightarrow> nat list \<times> (nat \<times> nat) list" where
  "reserve_cpus [] = (\<lambda>(acceptors, available). (acceptors, available))"
| "reserve_cpus (node # nodes) = (\<lambda>(acceptors, available).
     (case nn_cpu_ids node of
        [] \<Rightarrow> reserve_cpus nodes (acceptors, available)
      | cpu # cpus \<Rightarrow>
          reserve_cpus nodes
            (acceptors @ [cpu], available @ map (\<lambda>c. (c, nn_node_id node)) cpus)))"

definition assign :: "(nat \<times> nat) list \<Rightarrow> shard_assignment list" where
  "assign cpus =
     map (\<lambda>(i, cpu_id, node). \<lparr>sa_shard_id = word_of_nat i, sa_cpu_id = cpu_id, sa_numa_node = node\<rparr>)
       (enumerate 0 cpus)"

text \<open>Indexing an empty list panics.\<close>

definition compute_placement ::
  "numa_node list \<Rightarrow> nat option \<Rightarrow> unit fault + shard_placement" where
  "compute_placement nodes num_shards =
     (case reserve_cpus nodes ([], []) of
        (acceptors, available) \<Rightarrow>
          let place = (\<lambda>available.
                let max_shards = length available;
                    target_shards = min (case num_shards of Some n \<Rightarrow> n | None \<Rightarrow> max_shards) max_shards
                in Inr \<lparr>sp_acceptor_cpus = acceptors,
                        sp_shard_assignments = assign (take target_shards available)\<rparr>)
          in if available = []
             then (case (acceptors, nodes) of
                     (cpu # _, node # _) \<Rightarrow> place [(cpu, nn_node_id node)]
                   | _ \<Rightarrow> Inl Panic)
             else place available)"

text \<open>The CPUs on which the calling thread may run, before and after. Whether the number fits a
  \<open>CpuSet\<close> and whether the system call succeeds are arguments; failures are only logged.\<close>

definition bind_to_cpu :: "(nat \<Rightarrow> bool) \<Rightarrow> (nat list \<Rightarrow> bool) \<Rightarrow> nat \<Rightarrow> nat list \<Rightarrow> nat list" where
  "bind_to_cpu fits setaffinity cpu_id affinity =
     (if \<not> fits cpu_id then affinity
      else if setaffinity [cpu_id] then [cpu_id] else affinity)"

subsection \<open>What a placement promises\<close>

definition first_cpus :: "numa_node list \<Rightarrow> nat list" where
  "first_cpus nodes = concat (map (\<lambda>n. take 1 (nn_cpu_ids n)) nodes)"

definition other_cpus :: "numa_node list \<Rightarrow> (nat \<times> nat) list" where
  "other_cpus nodes = concat (map (\<lambda>n. map (\<lambda>c. (c, nn_node_id n)) (drop 1 (nn_cpu_ids n))) nodes)"

lemma reserve_cpus_eq: "reserve_cpus nodes (a, b) = (a @ first_cpus nodes, b @ other_cpus nodes)"
  by (induction nodes arbitrary: a b) (auto simp: first_cpus_def other_cpus_def split: list.split)

lemma assign_cpus: "map sa_cpu_id (assign cpus) = map fst cpus"
  "map sa_shard_id (assign cpus) = map word_of_nat [0..<length cpus]" "length (assign cpus) = length cpus"
proof -
  have comp: "sa_cpu_id \<circ> (\<lambda>(i, cpu_id, node).
      \<lparr>sa_shard_id = word_of_nat i, sa_cpu_id = cpu_id, sa_numa_node = node\<rparr>) = fst \<circ> snd"
    "sa_shard_id \<circ> (\<lambda>(i, cpu_id, node).
      \<lparr>sa_shard_id = word_of_nat i, sa_cpu_id = cpu_id, sa_numa_node = node\<rparr>) = word_of_nat \<circ> fst"
    by auto
  show "map sa_cpu_id (assign cpus) = map fst cpus"
    by (simp add: assign_def comp) (simp flip: map_map)
  show "map sa_shard_id (assign cpus) = map word_of_nat [0..<length cpus]"
    by (simp add: assign_def comp) (simp flip: map_map)
  show "length (assign cpus) = length cpus" by (simp add: assign_def)
qed

lemma count_cpus: "length (first_cpus nodes) + length (other_cpus nodes) = total_cpus nodes"
  by (induction nodes) (auto simp: first_cpus_def other_cpus_def total_cpus_def)

lemma split_cpus:
  "mset (first_cpus nodes @ map fst (other_cpus nodes)) = mset (concat (map nn_cpu_ids nodes))"
proof (induction nodes)
  case (Cons n ns)
  have "mset (first_cpus (n # ns) @ map fst (other_cpus (n # ns))) =
      mset (nn_cpu_ids n) + mset (first_cpus ns @ map fst (other_cpus ns))"
    by (cases "nn_cpu_ids n") (simp_all add: first_cpus_def other_cpus_def comp_def)
  with Cons show ?case by simp
qed (simp add: first_cpus_def other_cpus_def)

text \<open>
  Shards get CPUs of their own. On a topology whose CPU numbers are distinct and that has a
  node with two CPUs, the placement succeeds; it reserves the first CPU of every non-empty
  node for acceptors and never gives one of these, nor the same CPU twice, to a shard; every
  shard's CPU belongs to the node it names; there are as many shards as configured, at most one
  per CPU that is left; and (up to 2^16 of them) shard \<open>i\<close> has the id \<open>i\<close>.
\<close>

theorem placement_separates_cpus:
  assumes "distinct (concat (map nn_cpu_ids nodes))" and "n \<in> set nodes" and "2 \<le> length (nn_cpu_ids n)"
  shows "\<exists>p. compute_placement nodes num_shards = Inr p \<and>
    sp_acceptor_cpus p = first_cpus nodes \<and>
    distinct (first_cpus nodes @ map sa_cpu_id (sp_shard_assignments p)) \<and>
    (\<forall>a \<in> set (sp_shard_assignments p). \<exists>m \<in> set nodes.
       sa_cpu_id a \<in> set (nn_cpu_ids m) \<and> sa_numa_node a = nn_node_id m) \<and>
    length (sp_shard_assignments p) =
      (let room = total_cpus nodes - length (first_cpus nodes)
       in case num_shards of Some k \<Rightarrow> min k room | None \<Rightarrow> room) \<and>
    map sa_shard_id (sp_shard_assignments p) = map word_of_nat [0..<length (sp_shard_assignments p)]"
proof -
  have "drop 1 (nn_cpu_ids n) \<noteq> []" using assms(3) by simp
  then have some: "other_cpus nodes \<noteq> []"
    using assms(2) by (auto simp: other_cpus_def)
  define cpus where "cpus = take (min (case num_shards of Some k \<Rightarrow> k | None \<Rightarrow> length (other_cpus nodes))
    (length (other_cpus nodes))) (other_cpus nodes)"
  have p: "compute_placement nodes num_shards =
      Inr \<lparr>sp_acceptor_cpus = first_cpus nodes, sp_shard_assignments = assign cpus\<rparr>"
    using some by (simp add: compute_placement_def reserve_cpus_eq Let_def cpus_def)
  have "distinct (first_cpus nodes @ map fst cpus)"
  proof -
    have "set (map fst cpus) \<subseteq> set (map fst (other_cpus nodes))"
      by (auto simp: cpus_def dest: in_set_takeD)
    moreover have "map fst cpus = take (length cpus) (map fst (other_cpus nodes))"
      by (simp add: cpus_def take_map)
    ultimately show ?thesis
      using assms(1) mset_eq_imp_distinct_iff [OF split_cpus [of nodes]]
      by (metis (no_types, lifting) distinct_append distinct_take inf.absorb_iff1 inf_bot_right inf_left_commute)
  qed
  moreover have "\<exists>m \<in> set nodes. sa_cpu_id a \<in> set (nn_cpu_ids m) \<and> sa_numa_node a = nn_node_id m"
    if "a \<in> set (assign cpus)" for a
  proof -
    have "(sa_cpu_id a, sa_numa_node a) \<in> snd ` set (enumerate 0 cpus)"
      using that by (force simp: assign_def)
    then have "(sa_cpu_id a, sa_numa_node a) \<in> set cpus" by (metis map_snd_enumerate set_map)
    then have "(sa_cpu_id a, sa_numa_node a) \<in> set (other_cpus nodes)"
      by (auto simp: cpus_def dest: in_set_takeD)
    then show ?thesis by (auto simp: other_cpus_def dest: in_set_dropD)
  qed
  moreover have "length (assign cpus) = (let room = total_cpus nodes - length (first_cpus nodes)
       in case num_shards of Some k \<Rightarrow> min k room | None \<Rightarrow> room)"
    using count_cpus [of nodes] by (auto simp: assign_cpus cpus_def Let_def split: option.split)
  moreover have "sa_cpu_id ` set (assign cpus) = fst ` set cpus" by (metis assign_cpus(1) set_map)
  ultimately show ?thesis by (simp add: p assign_cpus)
qed

lemma placement_separates_cpus_witness:
  "\<exists>p. compute_placement [\<lparr>nn_node_id = 0, nn_cpu_ids = [0, 1, 2, 3]\<rparr>,
      \<lparr>nn_node_id = 1, nn_cpu_ids = [4, 5, 6, 7]\<rparr>] None = Inr p \<and>
    sp_acceptor_cpus p = [0, 4] \<and> length (sp_shard_assignments p) = 6"
  using placement_separates_cpus [of "[\<lparr>nn_node_id = 0, nn_cpu_ids = [0, 1, 2, 3]\<rparr>,
      \<lparr>nn_node_id = 1, nn_cpu_ids = [4, 5, 6, 7]\<rparr>]" "\<lparr>nn_node_id = 0, nn_cpu_ids = [0, 1, 2, 3]\<rparr>" None]
  by (auto simp: first_cpus_def total_cpus_def Let_def)

text \<open>A single CPU is shared, and no CPU at all is a panic.\<close>

lemma placement_single_cpu:
  "compute_placement [\<lparr>nn_node_id = 0, nn_cpu_ids = [c]\<rparr>] None =
     Inr \<lparr>sp_acceptor_cpus = [c], sp_shard_assignments =
       [\<lparr>sa_shard_id = 0, sa_cpu_id = c, sa_numa_node = 0\<rparr>]\<rparr>"
  by (simp add: compute_placement_def assign_def)

lemma placement_panics_iff:
  "compute_placement nodes num_shards = Inl Panic \<longleftrightarrow> total_cpus nodes = 0"
proof -
  have "first_cpus nodes = [] \<longleftrightarrow> total_cpus nodes = 0"
    by (induction nodes) (auto simp: first_cpus_def total_cpus_def)
  moreover have "first_cpus nodes \<noteq> [] \<Longrightarrow> nodes \<noteq> []" by (auto simp: first_cpus_def)
  ultimately show ?thesis
    using count_cpus [of nodes]
    by (auto simp: compute_placement_def reserve_cpus_eq Let_def split: list.splits)
qed

end
