(* ===== verification/Wakeup.thy ===== *)
theory Wakeup
  imports Prelude
begin

text \<open>
  How a shard's thread is woken (\<open>channel/mod.rs\<close>: \<open>create_eventfd\<close>, \<open>notify_eventfd\<close>,
  \<open>drain_eventfd\<close>; \<open>shard/engine.rs\<close>: \<open>wait_eventfd_readable\<close> and the \<open>select!\<close>). A sender puts
  a message into the channel and then writes to the eventfd, two steps of its thread; the
  receiver waits for the eventfd, drains it and takes messages until the channel is empty. The
  threads interleave in any way. The eventfd itself is the operating system's: a parameter.
\<close>

subsection \<open>The eventfd\<close>

text \<open>\<open>create_eventfd\<close> gets the result of the system call, negative for an error.\<close>

definition create_eventfd :: "int \<Rightarrow> unit + int" where
  "create_eventfd fd = (if fd < 0 then Inl () else Inr fd)"

text \<open>The system calls on an eventfd: writing 1, and reading (\<open>None\<close>: it would block).\<close>

record 'f eventfd_api =
  ef_write :: "'f \<Rightarrow> 'f"
  ef_read :: "'f \<Rightarrow> u64 option \<times> 'f"

text \<open>What \<open>eventfd(2)\<close> documents of a non-blocking eventfd: after a write it is readable, whether
  the write added to the counter or the counter was full; a read that would block changes
  nothing; a read takes the whole counter.\<close>

definition eventfd_ok :: "'f eventfd_api \<Rightarrow> bool" where
  "eventfd_ok api =
     (\<forall>f. fst (ef_read api (ef_write api f)) \<noteq> None \<and>
        (\<forall>f'. ef_read api f = (None, f') \<longrightarrow> f' = f) \<and>
        fst (ef_read api (snd (ef_read api f))) = None)"

definition notify_eventfd :: "'f eventfd_api \<Rightarrow> 'f \<Rightarrow> 'f" where
  "notify_eventfd api f = ef_write api f"

definition drain_eventfd :: "'f eventfd_api \<Rightarrow> 'f \<Rightarrow> 'f" where
  "drain_eventfd api f = snd (ef_read api f)"

text \<open>One turn of the loop of \<open>wait_eventfd_readable\<close>: whether it returns.\<close>

definition wait_eventfd_readable :: "'f eventfd_api \<Rightarrow> 'f \<Rightarrow> bool \<times> 'f" where
  "wait_eventfd_readable api f =
     (case ef_read api f of (ret, f) \<Rightarrow> (ret \<noteq> None, f))"

subsection \<open>A channel with its eventfd\<close>

datatype sender = Idle | MustNotify
datatype receiver = Waiting | Woken | Receiving

record ('f, 'x) channel =
  ch_queue :: "'x list"
  ch_capacity :: nat
  ch_fd :: 'f
  ch_sender :: sender
  ch_receiver :: receiver
  ch_taken :: "'x list"

definition channel_new :: "nat \<Rightarrow> 'f \<Rightarrow> ('f, 'x) channel" where
  "channel_new capacity fd = \<lparr>ch_queue = [], ch_capacity = capacity, ch_fd = fd, ch_sender = Idle,
     ch_receiver = Waiting, ch_taken = []\<rparr>"

text \<open>The steps, with the message that a step has put into the channel.\<close>

inductive channel_step ::
  "'f eventfd_api \<Rightarrow> ('f, 'x) channel \<Rightarrow> 'x list \<Rightarrow> ('f, 'x) channel \<Rightarrow> bool" for api where
  send: "ch_sender c = Idle \<Longrightarrow> length (ch_queue c) < ch_capacity c \<Longrightarrow>
    channel_step api c [x] (c\<lparr>ch_queue := ch_queue c @ [x], ch_sender := MustNotify\<rparr>)"
| notify: "ch_sender c = MustNotify \<Longrightarrow>
    channel_step api c [] (c\<lparr>ch_fd := notify_eventfd api (ch_fd c), ch_sender := Idle\<rparr>)"
| poll: "ch_receiver c = Waiting \<Longrightarrow> wait_eventfd_readable api (ch_fd c) = (woken, f) \<Longrightarrow>
    channel_step api c [] (c\<lparr>ch_fd := f, ch_receiver := if woken then Woken else Waiting\<rparr>)"
| drain: "ch_receiver c = Woken \<Longrightarrow>
    channel_step api c [] (c\<lparr>ch_fd := drain_eventfd api (ch_fd c), ch_receiver := Receiving\<rparr>)"
| receive: "ch_receiver c = Receiving \<Longrightarrow> ch_queue c = x # xs \<Longrightarrow>
    channel_step api c [] (c\<lparr>ch_queue := xs, ch_taken := ch_taken c @ [x]\<rparr>)"
| empty: "ch_receiver c = Receiving \<Longrightarrow> ch_queue c = [] \<Longrightarrow>
    channel_step api c [] (c\<lparr>ch_receiver := Waiting\<rparr>)"

inductive channel_reaches ::
  "'f eventfd_api \<Rightarrow> ('f, 'x) channel \<Rightarrow> 'x list \<Rightarrow> ('f, 'x) channel \<Rightarrow> bool" for api c where
  channel_here: "channel_reaches api c [] c"
| channel_further: "channel_reaches api c xs d \<Longrightarrow> channel_step api d x e \<Longrightarrow> channel_reaches api c (xs @ x) e"

text \<open>What the receiver does from where it is when it runs alone: wait, drain, and take messages
  until there is none.\<close>

definition receive_all :: "('f, 'x) channel \<Rightarrow> ('f, 'x) channel" where
  "receive_all c = c\<lparr>ch_queue := [], ch_taken := ch_taken c @ ch_queue c, ch_receiver := Waiting\<rparr>"

definition drain_and_receive :: "'f eventfd_api \<Rightarrow> ('f, 'x) channel \<Rightarrow> ('f, 'x) channel" where
  "drain_and_receive api c = receive_all (c\<lparr>ch_fd := drain_eventfd api (ch_fd c), ch_receiver := Receiving\<rparr>)"

definition receiver_turn :: "'f eventfd_api \<Rightarrow> ('f, 'x) channel \<Rightarrow> ('f, 'x) channel" where
  "receiver_turn api c =
     (case ch_receiver c of
        Waiting \<Rightarrow>
          (case wait_eventfd_readable api (ch_fd c) of (woken, f) \<Rightarrow>
             if woken then drain_and_receive api (c\<lparr>ch_fd := f, ch_receiver := Woken\<rparr>) else c\<lparr>ch_fd := f\<rparr>)
      | Woken \<Rightarrow> drain_and_receive api c
      | Receiving \<Rightarrow> receive_all c)"

subsection \<open>No wake-up is lost\<close>

definition readable :: "'f eventfd_api \<Rightarrow> 'f \<Rightarrow> bool" where
  "readable api f = fst (wait_eventfd_readable api f)"

definition channel_ok :: "'f eventfd_api \<Rightarrow> 'x list \<Rightarrow> ('f, 'x) channel \<Rightarrow> bool" where
  "channel_ok api xs c =
     (ch_taken c @ ch_queue c = xs \<and> length (ch_queue c) \<le> ch_capacity c \<and>
      (ch_queue c \<noteq> [] \<longrightarrow> readable api (ch_fd c) \<or> ch_sender c = MustNotify \<or> ch_receiver c \<noteq> Waiting))"

lemma notified_readable: "eventfd_ok api \<Longrightarrow> readable api (notify_eventfd api f)"
  by (auto simp: eventfd_ok_def readable_def wait_eventfd_readable_def notify_eventfd_def split: prod.split)
    (metis fst_conv option.distinct(1))

lemma failed_poll_keeps:
  "eventfd_ok api \<Longrightarrow> wait_eventfd_readable api f = (False, f') \<Longrightarrow> f' = f"
  by (auto simp: eventfd_ok_def wait_eventfd_readable_def split: prod.splits)

lemma channel_step_ok:
  assumes "eventfd_ok api" and "channel_step api c x d" and "channel_ok api xs c"
  shows "channel_ok api (xs @ x) d"
  using assms(2)
proof cases
  case notify
  with assms(3) notified_readable [OF assms(1)] show ?thesis by (simp add: channel_ok_def)
next
  case (poll woken f)
  with assms(3) failed_poll_keeps [OF assms(1)] show ?thesis
    by (cases woken) (auto simp: channel_ok_def)
qed (use assms(3) in \<open>auto simp: channel_ok_def\<close>)

lemma channel_reaches_ok:
  assumes "eventfd_ok api" and "channel_reaches api (channel_new n f) xs c"
  shows "channel_ok api xs c"
  using assms(2)
proof (induction rule: channel_reaches.induct)
  case channel_here
  show ?case by (simp add: channel_ok_def channel_new_def)
qed (rule channel_step_ok [OF assms(1)])

subsection \<open>The receiver's turn\<close>

lemma reaches_step: "channel_reaches api c xs d \<Longrightarrow> channel_step api d [] e \<Longrightarrow> channel_reaches api c xs e"
  using channel_further by force

lemma receive_all_steps:
  "channel_reaches api c xs d \<Longrightarrow> ch_receiver d = Receiving \<Longrightarrow> channel_reaches api c xs (receive_all d)"
proof (induction "ch_queue d" arbitrary: d)
  case Nil
  then have "receive_all d = d\<lparr>ch_receiver := Waiting\<rparr>" by (cases d) (simp add: receive_all_def)
  with Nil show ?case using reaches_step [OF Nil(2) channel_step.empty] by simp
next
  case (Cons x q)
  have "channel_reaches api c xs (d\<lparr>ch_queue := q, ch_taken := ch_taken d @ [x]\<rparr>)"
    using Cons.hyps(2) Cons.prems by (intro reaches_step [OF Cons.prems(1)] channel_step.receive) auto
  from Cons.hyps(1) [OF _ this] Cons.prems(2) Cons.hyps(2) show ?case by (simp add: receive_all_def)
qed

lemma drain_and_receive_steps:
  "channel_reaches api c xs d \<Longrightarrow> ch_receiver d = Woken \<Longrightarrow> channel_reaches api c xs (drain_and_receive api d)"
  unfolding drain_and_receive_def
  by (rule receive_all_steps) (auto intro: reaches_step channel_step.drain)

lemma receiver_turn_steps: "channel_reaches api c [] (receiver_turn api c)"
proof (cases "ch_receiver c")
  case Waiting
  obtain woken f where w: "wait_eventfd_readable api (ch_fd c) = (woken, f)" by force
  have "channel_reaches api c [] (c\<lparr>ch_fd := f, ch_receiver := if woken then Woken else Waiting\<rparr>)"
    using Waiting w by (intro reaches_step [OF channel_here] channel_step.poll)
  moreover have "c\<lparr>ch_fd := f, ch_receiver := Waiting\<rparr> = c\<lparr>ch_fd := f\<rparr>" using Waiting by simp
  ultimately show ?thesis
    using Waiting w by (cases woken) (auto simp: receiver_turn_def intro: drain_and_receive_steps)
next
  case Woken
  then show ?thesis by (simp add: receiver_turn_def drain_and_receive_steps [OF channel_here])
next
  case Receiving
  then show ?thesis by (simp add: receiver_turn_def receive_all_steps [OF channel_here])
qed

text \<open>
  C14: No wake-up is lost. However the steps of sender and receiver interleave, once a sender has
  written to the eventfd, the next turn of the receiver, wherever it stood, takes every message
  that was put into the channel: it never waits on a channel that holds a message, and the
  messages it has taken are exactly those sent, in order. The channel never exceeds its bound.
\<close>

theorem no_wakeup_is_lost:
  assumes "eventfd_ok api"
    and "channel_reaches api (channel_new n f) xs c" and "ch_sender c = Idle"
  shows "channel_reaches api c [] (receiver_turn api c) \<and> ch_queue (receiver_turn api c) = [] \<and>
    ch_taken (receiver_turn api c) = xs \<and> length (ch_queue c) \<le> n"
proof -
  have ok: "channel_ok api xs c" by (rule channel_reaches_ok [OF assms(1,2)])
  have "ch_capacity c = n" using assms(2)
    by (induction rule: channel_reaches.induct) (auto simp: channel_new_def elim: channel_step.cases)
  with ok assms(3) have "ch_queue (receiver_turn api c) = [] \<and> ch_taken (receiver_turn api c) = xs \<and>
      length (ch_queue c) \<le> n"
    by (auto simp: channel_ok_def receiver_turn_def drain_and_receive_def receive_all_def readable_def
        split: receiver.split prod.split)
  with receiver_turn_steps show ?thesis by blast
qed

text \<open>The counter of the operating system as an example.\<close>

definition counter_api :: "u64 eventfd_api" where
  "counter_api = \<lparr>ef_write = (\<lambda>n. if n < 2 ^ 64 - 2 then n + 1 else n),
     ef_read = (\<lambda>n. if n = 0 then (None, 0) else (Some n, 0))\<rparr>"

lemma counter_ok: "eventfd_ok counter_api"
proof -
  have "ef_write counter_api n \<noteq> 0" for n
  proof (cases "n < 2 ^ 64 - 2")
    case True
    then have "unat (n + 1) = unat n + 1" by (simp add: unat_word_ariths word_less_nat_alt)
    with True show ?thesis by (auto simp: counter_api_def word_unat_eq_iff)
  next
    case False
    then show ?thesis by (auto simp: counter_api_def)
  qed
  then show ?thesis by (auto simp: eventfd_ok_def counter_api_def)
qed

text \<open>The receiver polls between the send and the notification, finds nothing, and gets the
  message in its next turn.\<close>

lemma no_wakeup_is_lost_witness:
  "\<exists>c. channel_reaches counter_api (channel_new 2 0) [5 :: nat] c \<and> ch_receiver c = Waiting \<and>
     ch_taken (receiver_turn counter_api c) = [5]"
proof -
  let ?c0 = "channel_new 2 0 :: (u64, nat) channel"
  let ?c1 = "?c0\<lparr>ch_queue := [5], ch_sender := MustNotify\<rparr>" and ?c2 = "?c0\<lparr>ch_queue := [5], ch_fd := 1\<rparr>"
  have "channel_reaches counter_api ?c0 ([] @ [5]) ?c1"
    using channel_further [OF channel_here channel_step.send [of ?c0 counter_api 5]] by (simp add: channel_new_def)
  moreover have "channel_step counter_api ?c1 [] ?c1"
    using channel_step.poll [of ?c1 counter_api False 0]
    by (simp add: channel_new_def wait_eventfd_readable_def counter_api_def)
  moreover have "channel_step counter_api ?c1 [] ?c2"
    using channel_step.notify [of ?c1 counter_api]
    by (simp add: channel_new_def notify_eventfd_def counter_api_def)
  ultimately have c2: "channel_reaches counter_api ?c0 [5] ?c2" using reaches_step by fastforce
  have idle: "ch_sender ?c2 = Idle" by (simp add: channel_new_def)
  from no_wakeup_is_lost [OF counter_ok c2 idle] c2 show ?thesis
    by (intro exI [of _ ?c2]) (simp add: channel_new_def)
qed

end
