(* ===== verification/Server.thy ===== *)
theory Server
  imports Acceptor Peer Placement Config Wakeup
begin

text \<open>
  How \<open>server::start\<close> wires the parts together (\<open>server.rs\<close>, the mailboxes of
  \<open>channel/mod.rs\<close>): one mailbox and one engine thread per shard of the placement, one
  acceptor and one peer transport thread if there is a CPU for them, and the joins at the end.
  Channels and eventfds are known by the index of their mailbox. The runtimes that the threads
  build and the sockets they bind are left out.
\<close>

subsection \<open>Mailboxes\<close>

record shard_mailbox =
  mb_request_capacity :: nat
  mb_response_capacity :: nat
  mb_raft_capacity :: nat
  mb_raft_outbound_capacity :: nat
  mb_request_eventfd :: int
  mb_response_eventfd :: int
  mb_raft_eventfd :: int

text \<open>\<open>fds\<close>: what the three system calls return.\<close>

definition mailbox_new :: "nat \<Rightarrow> int \<times> int \<times> int \<Rightarrow> unit + shard_mailbox" where
  "mailbox_new capacity fds =
     (case fds of (request, response, raft) \<Rightarrow>
      case create_eventfd request of Inl e \<Rightarrow> Inl e | Inr request_eventfd \<Rightarrow>
      case create_eventfd response of Inl e \<Rightarrow> Inl e | Inr response_eventfd \<Rightarrow>
      case create_eventfd raft of Inl e \<Rightarrow> Inl e | Inr raft_eventfd \<Rightarrow>
        Inr \<lparr>mb_request_capacity = capacity, mb_response_capacity = capacity,
             mb_raft_capacity = capacity * 4, mb_raft_outbound_capacity = capacity * 4,
             mb_request_eventfd = request_eventfd, mb_response_eventfd = response_eventfd,
             mb_raft_eventfd = raft_eventfd\<rparr>)"

text \<open>The loop over the shards, with \<open>expect\<close> on each.\<close>

primrec create_mailboxes :: "nat \<Rightarrow> (nat \<Rightarrow> int \<times> int \<times> int) \<Rightarrow> nat list \<Rightarrow> unit fault + shard_mailbox list" where
  "create_mailboxes capacity fds [] = Inr []"
| "create_mailboxes capacity fds (i # is) =
     (case mailbox_new capacity (fds i) of
        Inl _ \<Rightarrow> Inl Panic
      | Inr mailbox \<Rightarrow>
          (case create_mailboxes capacity fds is of Inl e \<Rightarrow> Inl e | Inr mailboxes \<Rightarrow> Inr (mailbox # mailboxes)))"

subsection \<open>Wiring\<close>

text \<open>A thread: its name and the CPU it binds itself to.\<close>

record server_thread =
  th_name :: string
  th_cpu :: nat

definition shard_thread_name :: "u16 \<Rightarrow> string" where
  "shard_thread_name shard_id = ''shard-'' @ dec_digits (unat shard_id)"

text \<open>\<open>sv_engines\<close>: for each thread, the shard id of its engine, the CPU and its mailbox.\<close>

record server =
  sv_mailboxes :: "shard_mailbox list"
  sv_engines :: "(u16 \<times> nat \<times> nat) list"
  sv_acceptor :: "acceptor option"
  sv_raft_routes :: "inbound_routes option"
  sv_peer_queues :: "(u64, string) hash_map"
  sv_acceptor_threads :: "server_thread list"
  sv_peer_threads :: "server_thread list"
  sv_shard_threads :: "server_thread list"

text \<open>Collecting pairs into a \<open>HashMap\<close>: a later pair replaces an earlier one of the same key.\<close>

definition collect_map :: "('k \<times> 'v) list \<Rightarrow> ('k, 'v) hash_map" where
  "collect_map kvs = fold (\<lambda>(k, v). hm_insert k v) kvs []"

definition group_map :: "shard_assignment list \<Rightarrow> (u16, nat) hash_map" where
  "group_map as = collect_map (map (\<lambda>(idx, a). (sa_shard_id a, idx)) (enumerate 0 as))"

definition start_server ::
  "server_config \<Rightarrow> shard_placement \<Rightarrow> (nat \<Rightarrow> int \<times> int \<times> int) \<Rightarrow> unit fault + server" where
  "start_server cfg placement fds =
     (let num_shards = length (sp_shard_assignments placement) in
      case create_mailboxes (cfg_channel_capacity cfg) fds [0..<num_shards] of
        Inl e \<Rightarrow> Inl e
      | Inr mailboxes \<Rightarrow>
          let engines = map (\<lambda>(i, a). (sa_shard_id a, sa_cpu_id a, i))
                (enumerate 0 (sp_shard_assignments placement));
              network = (sp_acceptor_cpus placement \<noteq> []);
              acceptor_cpus = take 1 (sp_acceptor_cpus placement)
          in Inr \<lparr>sv_mailboxes = mailboxes, sv_engines = engines,
              sv_acceptor = (if network then Some (acceptor_new (word_of_nat num_shards) []) else None),
              sv_raft_routes = (if network
                then Some \<lparr>in_txs = group_map (sp_shard_assignments placement),
                           in_eventfds = group_map (sp_shard_assignments placement)\<rparr> else None),
              sv_peer_queues = collect_map (map (\<lambda>p. (peer_id p, peer_addr p)) (cfg_peers cfg)),
              sv_acceptor_threads = map (\<lambda>cpu. \<lparr>th_name = ''acceptor'', th_cpu = cpu\<rparr>) acceptor_cpus,
              sv_peer_threads = map (\<lambda>cpu. \<lparr>th_name = ''peer-transport'', th_cpu = cpu\<rparr>) acceptor_cpus,
              sv_shard_threads = map (\<lambda>a. \<lparr>th_name = shard_thread_name (sa_shard_id a), th_cpu = sa_cpu_id a\<rparr>)
                (sp_shard_assignments placement)\<rparr>)"

text \<open>What \<open>main\<close> starts: the placement for the configured number of shards.\<close>

definition server_main ::
  "('e + server_config) option \<Rightarrow> cli \<Rightarrow> numa_node list \<Rightarrow> (nat \<Rightarrow> int \<times> int \<times> int) \<Rightarrow> unit fault + server" where
  "server_main loaded args nodes fds =
     (let cfg = effective_config loaded args in
      case compute_placement nodes (cfg_num_shards cfg) of
        Inl e \<Rightarrow> Inl e
      | Inr placement \<Rightarrow> start_server cfg placement fds)"

subsection \<open>The joins\<close>

text \<open>What has become of a thread, and of \<open>start\<close>, which waits for one thread after the other:
  \<open>None\<close> while it waits.\<close>

datatype thread_end = Running | Returned | Panicked

primrec join_threads :: "thread_end list \<Rightarrow> (unit fault + unit) option" where
  "join_threads [] = Some (Inr ())"
| "join_threads (t # ts) =
     (case t of Running \<Rightarrow> None | Panicked \<Rightarrow> Some (Inl Panic) | Returned \<Rightarrow> join_threads ts)"

definition start_joins :: "thread_end list \<Rightarrow> thread_end list \<Rightarrow> thread_end list \<Rightarrow> (unit fault + unit) option" where
  "start_joins acceptors peers shards = join_threads (acceptors @ peers @ shards)"

text \<open>The body of a shard's thread, when the engine has been opened and run: \<open>expect\<close> on the
  opening, an error of the run is only logged.\<close>

definition shard_thread_end :: "'e fault + ('f fault + unit) option \<Rightarrow> thread_end" where
  "shard_thread_end outcome =
     (case outcome of
        Inl _ \<Rightarrow> Panicked
      | Inr None \<Rightarrow> Running
      | Inr (Some (Inl Panic)) \<Rightarrow> Panicked
      | Inr (Some _) \<Rightarrow> Returned)"

text \<open>While the acceptor accepts, \<open>start\<close> does not notice what becomes of a shard.\<close>

lemma joins_wait_for_acceptor: "start_joins (Running # acceptors) peers shards = None"
  by (simp add: start_joins_def)

subsection \<open>The wiring is consistent\<close>

lemma create_mailboxes_length: "create_mailboxes capacity fds is = Inr ms \<Longrightarrow> length ms = length is"
  by (induction "is" arbitrary: ms) (auto split: sum.splits)

lemma start_server_fields:
  assumes "start_server cfg p fds = Inr sv"
  shows "sv_engines sv = map (\<lambda>(i, a). (sa_shard_id a, sa_cpu_id a, i)) (enumerate 0 (sp_shard_assignments p))"
    and "sv_acceptor sv = (if sp_acceptor_cpus p \<noteq> []
      then Some (acceptor_new (word_of_nat (length (sp_shard_assignments p))) []) else None)"
    and "sv_raft_routes sv = (if sp_acceptor_cpus p \<noteq> []
      then Some \<lparr>in_txs = group_map (sp_shard_assignments p), in_eventfds = group_map (sp_shard_assignments p)\<rparr>
      else None)"
    and "length (sv_mailboxes sv) = length (sp_shard_assignments p)"
  using assms by (auto simp: start_server_def Let_def create_mailboxes_length split: sum.splits)

lemma collect_map_ok: "hm_ok (collect_map kvs)"
  unfolding collect_map_def by (rule hash.ok_fold_put) simp

lemma get_collect_map: "hm_get (collect_map kvs) k = map_of (rev kvs) k"
proof -
  have "hm_ok m \<Longrightarrow> hm_get (fold (\<lambda>(k, v). hm_insert k v) kvs m) k =
      (case map_of (rev kvs) k of Some v \<Rightarrow> Some v | None \<Rightarrow> hm_get m k)" for m
    by (induction kvs arbitrary: m) (auto simp: map_add_def split: option.splits)
  from this [of "[]"] show ?thesis by (simp add: collect_map_def split: option.split)
qed

lemma placed_shards:
  assumes "compute_placement nodes k = Inr p"
  shows "map sa_shard_id (sp_shard_assignments p) = map word_of_nat [0..<length (sp_shard_assignments p)]"
  using assms
  by (auto simp: compute_placement_def Let_def assign_cpus split: prod.splits if_splits list.splits option.splits)

lemma group_map_numbered:
  assumes "map sa_shard_id as = map word_of_nat [0..<length as]"
  shows "map (\<lambda>(idx, a). (sa_shard_id a, idx)) (enumerate 0 as) =
    map (\<lambda>i. (word_of_nat i :: u16, i)) [0..<length as]"
proof (rule nth_equalityI)
  fix i assume "i < length (map (\<lambda>(idx, a). (sa_shard_id a, idx)) (enumerate 0 as))"
  then have i: "i < length as" by simp
  then have "map sa_shard_id as ! i = word_of_nat i" unfolding assms by simp
  with i show "map (\<lambda>(idx, a). (sa_shard_id a, idx)) (enumerate 0 as) ! i =
      map (\<lambda>i. (word_of_nat i :: u16, i)) [0..<length as] ! i" by (simp add: nth_enumerate_eq)
qed simp

lemma get_group_map:
  assumes "map sa_shard_id as = map word_of_nat [0..<length as]" and "length as < 2 ^ 16"
  shows "hm_get (group_map as) g = (if unat g < length as then Some (unat g) else None)"
proof -
  let ?kvs = "map (\<lambda>i. (word_of_nat i :: u16, i)) [0..<length as]"
  have val: "unat (word_of_nat i :: u16) = i" if "i < length as" for i
    using that assms(2) by (simp add: unat_of_nat)
  have "inj_on (\<lambda>i. word_of_nat i :: u16) {0..<length as}"
    using val by (intro inj_on_inverseI [where g = unat]) auto
  then have dist: "distinct (map fst (rev ?kvs))" by (simp add: comp_def distinct_map rev_map [symmetric])
  have get: "hm_get (group_map as) g = map_of (rev ?kvs) g"
    unfolding group_map_def get_collect_map group_map_numbered [OF assms(1)] ..
  show ?thesis
  proof (cases "unat g < length as")
    case True
    then have "(g, unat g) \<in> set (rev ?kvs)" by (auto simp: image_iff intro: bexI [of _ "unat g"])
    with dist True show ?thesis by (simp add: get map_of_is_SomeI del: set_rev)
  next
    case False
    then have "g \<notin> fst ` set (rev ?kvs)" using val by auto
    with False show ?thesis by (simp add: get map_of_eq_None_iff)
  qed
qed

lemma start_server_engine:
  assumes "map sa_shard_id as = map word_of_nat [0..<length as]" and "i < length as"
  shows "map (\<lambda>(i, a). (sa_shard_id a, sa_cpu_id a, i)) (enumerate 0 as) ! i =
    (word_of_nat i, sa_cpu_id (as ! i), i)"
proof -
  have "map sa_shard_id as ! i = word_of_nat i" unfolding assms(1) using assms(2) by simp
  with assms(2) show ?thesis by (simp add: nth_enumerate_eq)
qed

text \<open>
  C27: The parts are wired consistently. In a server with between 1 and 2^16 - 1 shards, the
  request of a stream always finds a shard; it goes to the mailbox of the engine whose shard id
  is the number the hash gives, and that engine runs on its own mailbox. The raft frames of a
  group go to the mailbox of the engine with that id, and those of any other group nowhere.
\<close>

theorem wiring_consistent:
  assumes "server_main loaded args nodes fds = Inr sv" and "sv_acceptor sv = Some a"
    and "sv_raft_routes sv = Some routes" and "sv_engines sv \<noteq> []" and "length (sv_engines sv) < 2 ^ 16"
  shows "\<exists>i cpu. route_stream xxh3 (ac_router a) sid = Some i \<and>
      unat i = unat (xxh3 (be64 sid)) mod length (sv_engines sv) \<and>
      sv_engines sv ! unat i = (i, cpu, unat i) \<and> length (sv_mailboxes sv) = length (sv_engines sv) \<and>
      hm_get (in_txs routes) g = (if unat g < length (sv_engines sv) then Some (unat g) else None) \<and>
      hm_get (in_eventfds routes) g = hm_get (in_txs routes) g"
proof -
  from assms(1) obtain p where p: "compute_placement nodes (cfg_num_shards (effective_config loaded args)) = Inr p"
    and sv: "start_server (effective_config loaded args) p fds = Inr sv"
    by (auto simp: server_main_def Let_def split: sum.splits)
  let ?as = "sp_shard_assignments p"
  note ids = placed_shards [OF p] and sv = start_server_fields [OF sv]
  have n: "length (sv_engines sv) = length ?as" by (simp add: sv)
  have a: "ac_router a = router_new (word_of_nat (length ?as))" and routes: "in_txs routes = group_map ?as"
    "in_eventfds routes = group_map ?as"
    using assms(2,3) by (auto simp: sv acceptor_new_def split: if_splits)
  have pos: "0 < length ?as" "length ?as < 2 ^ 16" using assms(4,5) n by (auto simp del: length_0_conv)
  then have un: "unat (word_of_nat (length ?as) :: u16) = length ?as" by (simp add: unat_of_nat)
  then have "(word_of_nat (length ?as) :: u16) \<noteq> 0" using pos(1) by (metis unat_0 less_irrefl)
  then obtain i where i: "route_stream xxh3 (ac_router a) sid = Some i"
    by (auto simp: a route_stream_def router_new_def)
  have idx: "unat i = unat (xxh3 (be64 sid)) mod length ?as"
    using route_stream_unat [OF i] by (simp add: a router_new_def un)
  then have lt: "unat i < length ?as" using pos(1) by simp
  have "sv_engines sv ! unat i = (i, sa_cpu_id (?as ! unat i), unat i)"
    using start_server_engine [OF ids lt] by (simp add: sv)
  then show ?thesis
    using i idx get_group_map [OF ids pos(2), of g] by (auto simp: n routes sv(4))
qed

text \<open>A machine with two nodes of four CPUs and the default configuration.\<close>

definition demo_nodes :: "numa_node list" where
  "demo_nodes = [\<lparr>nn_node_id = 0, nn_cpu_ids = [0, 1, 2, 3]\<rparr>, \<lparr>nn_node_id = 1, nn_cpu_ids = [4, 5, 6, 7]\<rparr>]"

definition demo_fds :: "nat \<Rightarrow> int \<times> int \<times> int" where
  "demo_fds i = (3 + 3 * int i, 4 + 3 * int i, 5 + 3 * int i)"

definition demo_args :: "nat option \<Rightarrow> cli" where
  "demo_args shards = \<lparr>cli_listen = None, cli_raft_listen = None, cli_node_id = None,
     cli_shards = shards, cli_data_dir = None\<rparr>"

lemma demo_mailboxes: "\<exists>ms. create_mailboxes n demo_fds is = Inr ms"
  by (induction "is") (auto simp: mailbox_new_def create_eventfd_def demo_fds_def)

lemma demo_main:
  "\<exists>sv a routes. server_main (None :: (unit + server_config) option) (demo_args shards) demo_nodes demo_fds = Inr sv \<and>
     sv_acceptor sv = Some a \<and> sv_raft_routes sv = Some routes \<and>
     length (sv_engines sv) = (case shards of Some k \<Rightarrow> min k 6 | None \<Rightarrow> 6)"
proof -
  let ?cfg = "effective_config (None :: (unit + server_config) option) (demo_args shards)"
  let ?p = "\<lparr>sp_acceptor_cpus = [0, 4], sp_shard_assignments = assign (take (case shards of Some k \<Rightarrow> min k 6 | None \<Rightarrow> 6)
    [(1, 0), (2, 0), (3, 0), (5, 1), (6, 1), (7, 1)])\<rparr>"
  have p: "compute_placement demo_nodes (cfg_num_shards ?cfg) = Inr ?p"
    by (cases shards) (simp_all add: compute_placement_def demo_nodes_def Let_def effective_config_def
        apply_overrides_def demo_args_def default_config_def numeral_eq_Suc)
  obtain ms where ms: "create_mailboxes (cfg_channel_capacity ?cfg) demo_fds
      [0..<length (sp_shard_assignments ?p)] = Inr ms" using demo_mailboxes by blast
  have "\<exists>sv. start_server ?cfg ?p demo_fds = Inr sv" using ms by (simp add: start_server_def Let_def del: upt.simps)
  then obtain sv where sv: "start_server ?cfg ?p demo_fds = Inr sv" by blast
  have main: "server_main (None :: (unit + server_config) option) (demo_args shards) demo_nodes demo_fds = Inr sv"
    using sv by (simp add: server_main_def Let_def p)
  with start_server_fields [OF sv] show ?thesis
    by (auto simp: assign_cpus split: option.split)
qed

lemma wiring_consistent_witness:
  "\<exists>sv a routes i cpu. server_main (None :: (unit + server_config) option) (demo_args None) demo_nodes demo_fds = Inr sv \<and>
     sv_acceptor sv = Some a \<and> sv_raft_routes sv = Some routes \<and>
     route_stream (\<lambda>_. 17) (ac_router a) 3 = Some i \<and> unat i = 5 \<and> sv_engines sv ! 5 = (i, cpu, 5) \<and>
     hm_get (in_txs routes) 4 = Some 4"
proof -
  from demo_main [of None] obtain sv a routes where
    sv: "server_main (None :: (unit + server_config) option) (demo_args None) demo_nodes demo_fds = Inr sv"
    "sv_acceptor sv = Some a" "sv_raft_routes sv = Some routes" "length (sv_engines sv) = 6" by auto
  then have "sv_engines sv \<noteq> []" "length (sv_engines sv) < 2 ^ 16" by auto
  from wiring_consistent [OF sv(1-3) this, of "\<lambda>_. 17" 3 4] sv show ?thesis by auto
qed

text \<open>
  A server started with a number of shards that is 0 modulo 2^16 comes up and panics at its
  first request. \<open>--shards 0\<close> is accepted: the placement has no shard, the acceptor is started
  all the same, and the first request that a client completes divides by zero in the router. The
  same happens with 65536 shards, whose number does not fit the 16 bits it is passed in.
\<close>

theorem no_shards_panics_on_first_request:
  assumes "server_main loaded args nodes fds = Inr sv" and "sv_acceptor sv = Some a"
    and "length (sv_engines sv) mod 2 ^ 16 = 0" and "request_fits r"
    and "acceptor_reaches xxh3 a evs b" and "hm_get (ac_conns b) cid = Some c"
    and "cn_phase c = Reading" and "cn_parse_buf c = []"
  shows "acceptor_step xxh3 (ReadDone cid (ReadData (encode_request r @ rest))) b = Some (Inl Panic)"
proof -
  have "ac_router a = router_new (word_of_nat (length (sv_engines sv)))" and "hm_ok (ac_conns a)"
    using assms(1,2) by (auto simp: server_main_def start_server_fields Let_def acceptor_new_def
        split: sum.splits if_splits)
  moreover have "(word_of_nat (length (sv_engines sv)) :: u16) = 0"
    using assms(3) by (simp add: word_unat_eq_iff unat_of_nat)
  ultimately have zero: "ac_router b = router_new 0"
    using acceptor_reaches_router [OF assms(5)] by simp
  have "encode_request r \<noteq> []" using reqs.frames.enc_nonempty [OF assms(4)] .
  moreover have "forward_request xxh3 (router_new 0) cid r ol = (ol, False)" for ol
    by (simp add: forward_request_def route_stream_def router_new_def)
  then have "drain_frames decode_request (forward_request xxh3 (router_new 0) cid) (encode_request r @ rest)
      (ac_outlet b) = Some (encode_request r @ rest, ac_outlet b, Aborted)"
    using reqs.frame_enc [OF assms(4)] by (subst drain_frames.simps) simp
  ultimately show ?thesis
    using assms(6-8)
    by (auto simp: acceptor_step_def on_conn_def read_done_def parse_frames_def zero) (simp_all add: router_new_def)
qed

lemma no_shards_panics_on_first_request_witness:
  "\<exists>sv a b. server_main (None :: (unit + server_config) option) (demo_args (Some 0)) demo_nodes demo_fds = Inr sv \<and>
     sv_acceptor sv = Some a \<and> acceptor_reaches (\<lambda>_. 0) a [Accepted, Started 0] b \<and>
     acceptor_step (\<lambda>_. 0) (ReadDone 0 (ReadData (encode_request (append_request 7 3 [1]) @ []))) b = Some (Inl Panic)"
proof -
  from demo_main [of "Some 0"] obtain sv a where
    sv: "server_main (None :: (unit + server_config) option) (demo_args (Some 0)) demo_nodes demo_fds = Inr sv"
    "sv_acceptor sv = Some a" "length (sv_engines sv) = 0" by auto
  then obtain n where a: "a = acceptor_new n []"
    by (auto simp: server_main_def start_server_fields Let_def split: sum.splits if_splits)
  let ?b = "(acceptor_new n [])\<lparr>ac_next_conn_id := 1, ac_conns := [(0, reading_conn)]\<rparr>"
  have run: "acceptor_reaches (\<lambda>_. 0) a [Accepted, Started 0] ?b" unfolding a by (rule first_connection)
  have get: "hm_get (ac_conns ?b) 0 = Some reading_conn" by (simp add: hm_get_def)
  have fits: "request_fits (append_request 7 3 [1])"
    by (simp add: append_request_def request_fits_def payload_fits_def)
  have "length (sv_engines sv) mod 2 ^ 16 = 0" using sv(3) by simp
  from no_shards_panics_on_first_request [OF sv(1,2) this fits run get demo_acceptor(4,6)] sv run
  show ?thesis by blast
qed

end
