(* ===== verification/Client.thy ===== *)
theory Client
  imports Protocol Topology
begin

text \<open>
  The command line client (\<open>bin/wal_client.rs\<close>): its arguments and what each of its commands
  sends and reads. The socket is the bytes the server has sent; \<open>None\<close> is a panic (an
  \<open>expect\<close> or the assertion on the status). Printing and timing are left out.
\<close>

datatype client_command =
  RunAppend string u64 u64 nat nat | RunRead string u64 u64 u64 | RunAck string u64 u64 u64 |
  RunStatus string u64 | Usage string

definition arg :: "string list \<Rightarrow> nat \<Rightarrow> string option" where
  "arg args i = (if i < length args then Some (args ! i) else None)"

definition arg_or :: "string option \<Rightarrow> string \<Rightarrow> string" where
  "arg_or a d = (case a of Some s \<Rightarrow> s | None \<Rightarrow> d)"

definition parse_usize_arg :: "string option \<Rightarrow> nat \<Rightarrow> nat" where
  "parse_usize_arg a d = (case Option.bind a (parse_unsigned (2 ^ 64)) of Some n \<Rightarrow> n | None \<Rightarrow> d)"

definition parse_u64_arg :: "string option \<Rightarrow> u64 \<Rightarrow> u64" where
  "parse_u64_arg a d = (case Option.bind a (parse_unsigned (2 ^ 64)) of Some n \<Rightarrow> word_of_nat n | None \<Rightarrow> d)"

definition client_main :: "string list \<Rightarrow> client_command" where
  "client_main args =
     (let scenario = arg_or (arg args 1) ''append''; addr = arg_or (arg args 2) ''127.0.0.1:9876'' in
      if scenario = ''append'' then
        RunAppend addr (parse_u64_arg (arg args 3) 7) (parse_u64_arg (arg args 4) 1)
          (parse_usize_arg (arg args 5) 1024) (parse_usize_arg (arg args 6) 10000)
      else if scenario = ''read'' then
        RunRead addr (parse_u64_arg (arg args 3) 7) (parse_u64_arg (arg args 4) 1) (parse_u64_arg (arg args 5) 0)
      else if scenario = ''ack'' then
        RunAck addr (parse_u64_arg (arg args 3) 7) (parse_u64_arg (arg args 4) 1) (parse_u64_arg (arg args 5) 0)
      else if scenario = ''status'' then RunStatus addr (parse_u64_arg (arg args 3) 7)
      else Usage scenario)"

text \<open>One request on the connection: the request goes out, one response is read. A connection is
  what the server will still send and what has been sent to it.\<close>

definition send_request :: "request \<Rightarrow> bytes \<times> bytes \<Rightarrow> (response \<times> bytes \<times> bytes) option" where
  "send_request req = (\<lambda>(socket, sent).
     (case receive_response socket of
        None \<Rightarrow> None
      | Some (resp, rest) \<Rightarrow> Some (resp, rest, sent @ encode_request req)))"

text \<open>The loop of \<open>run_append\<close>: what it has sent, and the last offset it was told.\<close>

primrec run_append :: "request \<Rightarrow> nat \<Rightarrow> bytes \<times> bytes \<Rightarrow> u64 \<Rightarrow> (bytes \<times> u64) option" where
  "run_append req 0 stream last_offset = Some (snd stream, last_offset)"
| "run_append req (Suc n) stream last_offset =
     (case send_request req stream of
        None \<Rightarrow> None
      | Some (resp, stream) \<Rightarrow>
          if resp_status resp \<noteq> Ok then None
          else run_append req n stream (resp_offset resp))"

definition client_append :: "u64 \<Rightarrow> u64 \<Rightarrow> nat \<Rightarrow> nat \<Rightarrow> bytes \<Rightarrow> (bytes \<times> u64) option" where
  "client_append sid epoch payload_bytes requests socket =
     run_append (append_request sid epoch (replicate payload_bytes 118)) requests (socket, []) 0"

text \<open>The commands with one request: what they send and what they report.\<close>

definition run_read :: "u64 \<Rightarrow> u64 \<Rightarrow> u64 \<Rightarrow> bytes \<Rightarrow> (bytes \<times> response) option" where
  "run_read sid epoch lsn socket =
     (case send_request (read_request sid epoch lsn) (socket, []) of
        None \<Rightarrow> None | Some (resp, _, sent) \<Rightarrow> Some (sent, resp))"

definition run_ack :: "u64 \<Rightarrow> u64 \<Rightarrow> u64 \<Rightarrow> bytes \<Rightarrow> (bytes \<times> response) option" where
  "run_ack sid epoch consumed socket =
     (case send_request (ack_request sid epoch consumed) (socket, []) of
        None \<Rightarrow> None | Some (resp, _, sent) \<Rightarrow> Some (sent, resp))"

definition run_status :: "u64 \<Rightarrow> bytes \<Rightarrow> (bytes \<times> response \<times> stream_status_payload option) option" where
  "run_status sid socket =
     (case send_request (get_status_request sid) (socket, []) of
        None \<Rightarrow> None
      | Some (resp, _, sent) \<Rightarrow>
          if resp_payload resp = [] then Some (sent, resp, None)
          else (case decode_stream_status_payload (resp_payload resp) of
                  Inl _ \<Rightarrow> None | Inr st \<Rightarrow> Some (sent, resp, Some st)))"

lemma run_append_session:
  assumes "list_all (\<lambda>r. payload_fits (resp_payload r)) rs"
  shows "run_append req (length rs) (concat (map encode_response rs), sent) last_offset =
    (if list_all (\<lambda>r. resp_status r = Ok) rs
     then Some (sent @ concat (replicate (length rs) (encode_request req)),
       if rs = [] then last_offset else resp_offset (last rs))
     else None)"
  using assms
proof (induction rs arbitrary: sent last_offset)
  case (Cons r rs)
  then show ?case by (simp add: send_request_def receive_encoded_response)
qed simp

text \<open>
  An append session of the client succeeds exactly if the server answers every request with
  \<open>Ok\<close>. Then the bytes it has sent are the encodings of that many equal append requests, from
  which the server's loop recovers the requests, and it reports the offset of the last answer;
  one answer with another status (a node that is not the leader, a fenced epoch) ends the
  client in a panic.
\<close>

theorem client_append_session:
  assumes "list_all (\<lambda>r. payload_fits (resp_payload r)) rs" and "rs \<noteq> []"
    and "payload_bytes < 2 ^ 32"
  shows "client_append sid epoch payload_bytes (length rs) (concat (map encode_response rs)) =
      (if list_all (\<lambda>r. resp_status r = Ok) rs
       then Some (concat (replicate (length rs)
         (encode_request (append_request sid epoch (replicate payload_bytes 118)))), resp_offset (last rs))
       else None) \<and>
    feed_chunks decode_request (\<lambda>r rs. (rs @ [r], True)) [] []
      [concat (replicate (length rs) (encode_request (append_request sid epoch (replicate payload_bytes 118))))] =
    Some ([], replicate (length rs) (append_request sid epoch (replicate payload_bytes 118)), NeedMore)"
proof -
  let ?req = "append_request sid epoch (replicate payload_bytes 118)"
  have all: "handle_all (\<lambda>r rs. (rs @ [r], True)) ms s = s @ ms" for ms :: "request list" and s
    by (induction ms arbitrary: s) auto
  have "feed_chunks decode_request (\<lambda>r rs. (rs @ [r], True)) [] [] [concat (replicate n (encode_request ?req))] =
      Some ([], handle_all (\<lambda>r rs. (rs @ [r], True)) (replicate n ?req) [], NeedMore)" for n
    using assms(3) by (intro reqs.feed_all)
      (auto simp: list_all_iff append_request_def request_fits_def payload_fits_def stays_open_def map_replicate_const)
  then show ?thesis
    using run_append_session [OF assms(1), of ?req "[]" 0] assms(2) by (simp add: client_append_def all)
qed

definition demo_answers :: "response list" where
  "demo_answers = [\<lparr>resp_status = Ok, resp_epoch = 3, resp_offset = 0, resp_payload = []\<rparr>,
     \<lparr>resp_status = ErrNotLeader, resp_epoch = 0, resp_offset = 2, resp_payload = []\<rparr>]"

lemma client_append_session_witness:
  "client_append 7 3 16 (length demo_answers) (concat (map encode_response demo_answers)) = None"
proof -
  have "list_all (\<lambda>r. payload_fits (resp_payload r)) demo_answers" "demo_answers \<noteq> []"
    "\<not> list_all (\<lambda>r. resp_status r = Ok) demo_answers" "(16 :: nat) < 2 ^ 32"
    by (simp_all add: demo_answers_def payload_fits_def)
  with client_append_session [of demo_answers 16 7 3] show ?thesis by argo
qed

text \<open>The arguments, with their defaults.\<close>

lemma client_main_default:
  "client_main [''wal_client''] = RunAppend ''127.0.0.1:9876'' 7 1 1024 10000"
  by (simp add: client_main_def arg_def arg_or_def parse_u64_arg_def parse_usize_arg_def)

end
