(* ===== verification/EngineAnswers.thy ===== *)
theory EngineAnswers
  imports EngineDurable "HOL-Library.Sublist"
begin

text \<open>
  One answer per request. Every client request that a shard takes from its channel is answered
  once, at once or later: the connections of the answers given and of the writes that still
  wait are, as a multiset, the connections of the requests taken. The answers that got into
  the response channel are among those given, in the order in which they were given.
\<close>

subsection \<open>The account of a shard\<close>

definition ledger :: "('r, 'm, 'c) engine \<Rightarrow>
    shard_response list \<times> shard_response list \<times> (u64, pending_client_write) hash_map \<times> u64" where
  "ledger e = (eg_offered e, eg_delivered e, eg_pending e, eg_request_seq e)"

text \<open>The connections of the answers given and of the writes that wait.\<close>

definition accounts :: "('r, 'm, 'c) engine \<Rightarrow> u64 multiset" where
  "accounts e = image_mset srsp_connection_id (mset (eg_offered e)) +
     image_mset pcw_connection_id (mset (hm_values (eg_pending e)))"

text \<open>The ids of the waiting writes have been given out, each once.\<close>

definition ledger_ok :: "('r, 'm, 'c) engine \<Rightarrow> bool" where
  "ledger_ok e =
     (hm_ok (eg_pending e) \<and>
      (\<forall>k \<in> set (hm_keys (eg_pending e)). unat k \<le> unat (eg_request_seq e)) \<and>
      subseq (eg_delivered e) (eg_offered e))"

text \<open>A step that takes requests of the connections \<open>X\<close>, at most \<open>n\<close> of them writes: if it fails,
  some of them may be unanswered.\<close>

definition serves :: "u64 multiset \<Rightarrow> nat \<Rightarrow> ('r, 'm, 'c) engine \<Rightarrow> ('x + 'y) \<times> ('r, 'm, 'c) engine \<Rightarrow> bool" where
  "serves X n e r = (case r of (res, e') \<Rightarrow>
     ledger_ok e \<and> unat (eg_request_seq e) + n < 2 ^ 64 \<longrightarrow>
       ledger_ok e' \<and> unat (eg_request_seq e') \<le> unat (eg_request_seq e) + n \<and>
       prefix (eg_delivered e) (eg_delivered e') \<and>
       accounts e' \<subseteq># accounts e + X \<and> (\<forall>a. res = Inr a \<longrightarrow> accounts e' = accounts e + X))"

lemma serves_and_then:
  assumes "serves X n e r" and "\<And>a s. serves Y m s (f a s)"
  shows "serves (X + Y) (n + m) e (and_then r f)"
proof (cases r)
  case (Pair res s)
  show ?thesis
  proof (cases res)
    case (Inl err)
    show ?thesis
      using assms(1) unfolding Pair Inl
      by (auto simp: serves_def intro: subset_mset.order_trans [OF _ mset_subset_eq_add_left]
          simp flip: add.assoc)
  next
    case (Inr a)
    have add: "A \<subseteq># accounts s + Y \<Longrightarrow> A \<subseteq># accounts e + X + Y" if "accounts s = accounts e + X" for A
      using that by simp
    show ?thesis
      using assms(1) assms(2) [of s a] unfolding Pair Inr
      by (auto simp: serves_def add.assoc intro: prefix_order.order_trans split: prod.splits)
  qed
qed

lemma serves_then [intro]:
  assumes "serves {#} 0 e r" and "\<And>a s. serves Y m s (f a s)"
  shows "serves Y m e (and_then r f)"
  using serves_and_then [OF assms] by simp

lemma serves_quiet [intro]:
  assumes "\<And>a s. serves {#} 0 s (f a s)" and "serves X n e r"
  shows "serves X n e (and_then r f)"
  using serves_and_then [OF assms(2,1)] by simp

lemma accounts_ledger: "ledger e' = ledger e \<Longrightarrow> accounts e' = accounts e"
  and ledger_ok_ledger: "ledger e' = ledger e \<Longrightarrow> ledger_ok e' = ledger_ok e"
  by (simp_all add: ledger_def accounts_def ledger_ok_def)

lemma serves_same: "ledger (snd r) = ledger e \<Longrightarrow> serves {#} 0 e r"
proof -
  assume same: "ledger (snd r) = ledger e"
  then have "eg_delivered (snd r) = eg_delivered e" "eg_request_seq (snd r) = eg_request_seq e"
    by (simp_all add: ledger_def)
  then show "serves {#} 0 e r"
    by (cases r) (use accounts_ledger [OF same] ledger_ok_ledger [OF same] in \<open>simp add: serves_def\<close>)
qed

text \<open>The state in which a step begins matters only through its ledger.\<close>

lemma serves_from: "ledger s = ledger e \<Longrightarrow> serves X n s r \<Longrightarrow> serves X n e r"
proof -
  assume same: "ledger s = ledger e" and "serves X n s r"
  moreover from same have "eg_delivered s = eg_delivered e" "eg_request_seq s = eg_request_seq e"
    by (simp_all add: ledger_def)
  ultimately show "serves X n e r"
    by (simp add: serves_def accounts_ledger [OF same] ledger_ok_ledger [OF same])
qed

subsection \<open>Steps that answer nobody\<close>

lemma calls_ledger [simp]:
  "ledger (snd (wal_call f e)) = ledger e" "ledger (snd (store_call g e)) = ledger e"
  "ledger (snd (raft_call h e)) = ledger e"
  by (auto simp: wal_call_def store_call_def raft_call_def map_err_def ledger_def split: prod.splits sum.splits)

lemma and_then_ledger:
  assumes "ledger (snd r) = c" and "\<And>a s. ledger (snd (f a s)) = ledger s"
  shows "ledger (snd (and_then r f)) = c"
  using assms by (cases r) (auto simp: and_then_def split: sum.splits)

lemma maybe_snapshot_ledger [simp]: "ledger (snd (maybe_snapshot_raft_state p api e)) = ledger e"
  by (simp add: maybe_snapshot_raft_state_def Let_def and_then_ledger)

lemma process_raft_messages_ledger [simp]: "ledger (snd (process_raft_messages api ms e)) = ledger e"
  by (induction ms arbitrary: e) (simp_all add: and_then_ledger)

lemma dispatch_ledger [simp]: "ledger (snd (dispatch_raft_messages api ms e)) = ledger e"
proof (induction ms arbitrary: e)
  case (Cons m ms)
  have "ledger (e\<lparr>eg_outbound_sends := ss, eg_outbound := out\<rparr>) = ledger e"
    "ledger (e\<lparr>eg_outbound_sends := ss\<rparr>) = ledger e" for ss out
    by (simp_all add: ledger_def)
  then show ?case by (auto simp: Let_def Cons.IH and_then_ledger split: prod.splits bool.splits)
qed simp

lemma gc_segments_ledger [simp]: "ledger (snd (gc_segments live cur ss e)) = ledger e"
proof (induction ss arbitrary: e)
  case (Cons s ss)
  have "ledger (e\<lparr>eg_reader := rd, eg_disk := d\<rparr>) = ledger e" for rd d by (simp add: ledger_def)
  with Cons.IH show ?case by (auto simp: Let_def split: prod.split sum.split)
qed simp

lemma run_gc_ledger [simp]: "ledger (snd (run_gc e)) = ledger e"
proof -
  have "ledger (e\<lparr>eg_index := idx, eg_disk := d\<rparr>) = ledger e" for idx d by (simp add: ledger_def)
  then show ?thesis by (auto simp: run_gc_def Let_def split: prod.split sum.split)
qed

subsection \<open>Answers and waiting writes\<close>

lemma send_response_serves: "serves {#conn#} 0 e (send_response conn st ep off pl e)"
proof -
  let ?r = "answer conn st ep off pl" and ?e = "snd (send_response conn st ep off pl e)"
  have del: "eg_delivered ?e = eg_delivered e \<or> eg_delivered ?e = eg_delivered e @ [?r]"
    by (auto simp: send_response_def Let_def split: list.split send_result.split)
  have "subseq xs (ys @ [r])" if "subseq xs ys" for xs ys and r :: shard_response
    using that subseq_order.trans [OF that, of "ys @ [r]"] by (simp add: prefix_imp_subseq)
  with del show ?thesis
    by (subst send_response_eq) (auto simp: serves_def ledger_ok_def accounts_def)
qed

text \<open>The same, after the waiting writes or the streams were changed: \<open>C\<close> are the connections whose
  writes stopped waiting.\<close>

lemma send_response_serves_from:
  assumes "eg_offered s = eg_offered e" "eg_delivered s = eg_delivered e" "eg_request_seq s = eg_request_seq e"
    and "ledger_ok e \<Longrightarrow> hm_ok (eg_pending s) \<and> set (hm_keys (eg_pending s)) \<subseteq> set (hm_keys (eg_pending e)) \<and>
      image_mset pcw_connection_id (mset (hm_values (eg_pending e))) =
        image_mset pcw_connection_id (mset (hm_values (eg_pending s))) + C"
    and "{#conn#} = C + X"
  shows "serves X 0 e (send_response conn st ep off pl s)"
proof -
  obtain s' where s': "send_response conn st ep off pl s = (Inr (), s')" using send_response_eq by metis
  have acc: "accounts e + X = accounts s + {#conn#}" and ok: "ledger_ok s" if "ledger_ok e"
    using assms(4) [OF that] assms(1-3,5) that
    by (auto simp: accounts_def ledger_ok_def)
  show ?thesis
    using send_response_serves [of conn s st ep off pl] acc ok assms(2,3)
    by (auto simp: s' serves_def)
qed

lemma hm_remove_value: "hm_ok m \<Longrightarrow> hm_get m k = Some v \<Longrightarrow>
   mset (hm_values m) = add_mset v (mset (hm_values (hm_remove k m)))"
proof (induction m)
  case (Cons x m)
  then have "k = fst x \<Longrightarrow> hm_remove k m = m"
    by (intro hm_remove_absent) (auto simp: hm_ok_def hm_get_def map_of_eq_None_iff)
  with Cons show ?case
    by (auto simp: hm_ok_def hm_get_def hm_remove_def hm_values_def simp del: mset_filter split: if_splits)
qed simp

lemma hm_insert_absent: "hm_get m k = None \<Longrightarrow> hm_insert k v m = m @ [(k, v)]"
  by (induction m) (auto simp: hm_get_def split: if_splits)

lemma answer_waiting_serves:
  assumes "hm_get (eg_pending e) k = Some q"
  shows "serves {#} 0 e (send_response (pcw_connection_id q) st ep off pl
    (e\<lparr>eg_pending := hm_remove k (eg_pending e)\<rparr>))"
  using assms hm_remove_value [of "eg_pending e" k q]
  by (intro send_response_serves_from [where C = "{#pcw_connection_id q#}"])
    (auto simp: ledger_ok_def hash.set_keys_del)

lemma apply_append_entry_serves: "serves {#} 0 e (apply_append_entry crc p api i tm cmd e)"
proof -
  have "serves {#} 0 s (case hm_get (eg_pending s) (cmd_request_id cmd) of
      Some q \<Rightarrow> send_response (pcw_connection_id q) Ok (pcw_epoch q) (pcw_stream_lsn q) []
         (s\<lparr>eg_pending := hm_remove (cmd_request_id cmd) (eg_pending s)\<rparr>)
    | None \<Rightarrow> (Inr (), s))" for s :: "('a, 'b, 'c) engine"
    by (auto intro: answer_waiting_serves serves_same split: option.split)
  note tail = serves_then [OF this serves_same [OF maybe_snapshot_ledger]]
  show ?thesis
    unfolding apply_append_entry_def Let_def
    by (intro serves_then [OF serves_same [OF calls_ledger(1)]] serves_from [OF _ tail]) (simp add: ledger_def)
qed

lemma apply_committed_serves: "serves {#} 0 e (apply_committed crc p api es e)"
proof (induction es arbitrary: e)
  case (Cons en es)
  show ?case
    by (auto intro: Cons.IH serves_same serves_then [OF apply_append_entry_serves Cons.IH] split: sum.split)
qed (simp add: serves_same)

lemma persist_ready_ledger: "ledger (snd (persist_ready p rdy e)) = ledger e"
  unfolding persist_ready_def
  by (intro and_then_ledger) (simp_all split: option.split)

lemma drive_ready_serves: "serves {#} 0 e (drive_ready crc p api e)"
proof (cases "ra_has_ready api (eg_store e) (eg_raft e)")
  case True
  obtain rdy r where rdy: "ra_ready api (eg_store e) (eg_raft e) = (rdy, r)" by force
  have raft: "ledger (s\<lparr>eg_raft := r\<rparr>) = ledger s" for s :: "('a, 'b, 'c) engine" and r
    by (simp add: ledger_def)
  have "serves {#} 0 s (act_on_ready crc p api rdy s)" for s
    unfolding act_on_ready_def Let_def
    by (intro serves_then [OF serves_same [OF dispatch_ledger]] serves_then [OF apply_committed_serves])
      (auto intro!: serves_same simp: raft split: prod.split)
  then show ?thesis
    unfolding drive_ready_split [OF True rdy]
    by (intro serves_from [OF raft [where r = r] serves_then] serves_same [OF persist_ready_ledger])
qed (simp add: drive_ready_def serves_same)

lemma handle_client_request_serves:
  "serves {#sreq_connection_id req#} 1 e (handle_client_request crc api req e)"
proof -
  let ?conn = "sreq_connection_id req" and ?r = "sreq_request req"
  have more: "serves X (Suc 0) e r" if "serves X 0 e r" for X and r :: "(engine_error fault + unit) \<times> ('a, 'b, 'c) engine"
    using that by (auto simp: serves_def)
  have resp: "serves {#?conn#} (Suc 0) e (send_response ?conn st ep off pl s)"
    if "ledger s = ledger e" for st ep off pl s
    by (rule more [OF serves_from [OF that send_response_serves]])
  have panic: "serves {#?conn#} (Suc 0) e (Inl err, s)" if "ledger s = ledger e" for err s
    using that accounts_ledger [OF that] ledger_ok_ledger [OF that] by (auto simp: serves_def ledger_def)
  have waits: "serves {#?conn#} (Suc 0) e (raft_call f (e\<lparr>eg_streams := t, eg_request_seq := eg_request_seq e + 1,
      eg_pending := hm_insert (eg_request_seq e + 1) q (eg_pending e)\<rparr>))" if q: "pcw_connection_id q = ?conn" for t q f
  proof -
    let ?e = "e\<lparr>eg_streams := t, eg_request_seq := eg_request_seq e + 1,
      eg_pending := hm_insert (eg_request_seq e + 1) q (eg_pending e)\<rparr>"
    have "ledger_ok ?e \<and> unat (eg_request_seq ?e) \<le> Suc (unat (eg_request_seq e)) \<and>
        accounts ?e = add_mset ?conn (accounts e)"
      if ok: "ledger_ok e" and less: "Suc (unat (eg_request_seq e)) < 2 ^ 64"
    proof -
      have seq: "unat (eg_request_seq e + 1) = Suc (unat (eg_request_seq e))"
        using less by (simp add: unat_word_ariths)
      have keys: "k \<in> set (hm_keys (eg_pending e)) \<Longrightarrow> unat k \<le> unat (eg_request_seq e)" for k
        using ok by (simp add: ledger_ok_def)
      have "hm_get (eg_pending e) (eg_request_seq e + 1) = None"
        using keys [of "eg_request_seq e + 1"] seq ok hash.keys_get [of "eg_pending e" "eg_request_seq e + 1"]
        by (auto simp: ledger_ok_def)
      then have "accounts ?e = add_mset ?conn (accounts e)"
        using q by (simp add: accounts_def hm_insert_absent hm_values_def)
      moreover have "ledger_ok ?e"
        using ok keys seq by (fastforce simp: ledger_ok_def hash.set_keys_put)
      ultimately show ?thesis using seq by simp
    qed
    then have "serves {#?conn#} (Suc 0) e (Inr (), ?e)" by (simp add: serves_def)
    from serves_and_then [OF this, of "{#}" 0 "\<lambda>_. raft_call f"] show ?thesis
      by (simp add: serves_same)
  qed
  show ?thesis
  proof (cases "req_op ?r")
    case Write
    then show ?thesis
      by (auto simp: handle_client_request_def handle_write_def Let_def send_not_leader_def ledger_def
          intro!: resp waits split: prod.split sum.split epoch_fence_error.split)
  next
    case Read
    then show ?thesis
      by (auto simp: handle_client_request_def read_stream_def Let_def send_not_leader_def ledger_def
          intro!: resp panic split: option.split prod.split sum.split fault.split)
  next
    case Ack
    then show ?thesis
      by (auto simp: handle_client_request_def Let_def ledger_def intro!: resp split: prod.split)
  next
    case GetStatus
    then show ?thesis
      by (auto simp: handle_client_request_def Let_def intro!: resp split: option.split)
  qed
qed

lemma process_client_requests_serves:
  "serves (image_mset sreq_connection_id (mset reqs)) (length reqs) e (process_client_requests crc api reqs e)"
proof (induction reqs arbitrary: e)
  case (Cons req reqs)
  from serves_and_then [OF handle_client_request_serves Cons.IH] show ?case by simp
qed (simp add: serves_same)

lemma fail_pending_serves:
  "serves (image_mset pcw_connection_id (mset ps)) 0 e
     (Inr () :: engine_error fault + unit, fail_pending leader ps e)"
proof (induction ps arbitrary: e)
  case (Cons p ps)
  let ?e = "e\<lparr>eg_streams := rollback_uncommitted_append (pcw_stream_id p) (pcw_stream_lsn p) (eg_streams e)\<rparr>"
  have "serves {#pcw_connection_id p#} 0 e
      (send_response (pcw_connection_id p) ErrNotLeader (pcw_epoch p) leader [] ?e)"
    by (rule serves_from [OF _ send_response_serves]) (simp add: ledger_def)
  from serves_and_then [OF this, where f = "\<lambda>_ s. (Inr (), fail_pending leader ps s)", OF Cons.IH]
  show ?case by (simp add: Let_def)
qed (simp add: serves_same)

lemma fail_pending_writes_serves:
  "serves {#} 0 e (Inr () :: engine_error fault + unit, fail_pending_writes_not_leader api e)"
proof -
  let ?ps = "drain_order (hm_values (eg_pending e))"
  have "accounts e = accounts (e\<lparr>eg_pending := []\<rparr>) + image_mset pcw_connection_id (mset ?ps)"
    by (simp add: accounts_def drain_order_spec(1) hm_values_def)
  moreover have "ledger_ok e \<Longrightarrow> ledger_ok (e\<lparr>eg_pending := []\<rparr>)" by (simp add: ledger_ok_def hm_keys_def)
  ultimately have "serves {#} 0 e (Inr () :: engine_error fault + unit, fail_pending leader ?ps (e\<lparr>eg_pending := []\<rparr>))"
    for leader using fail_pending_serves [of ?ps "e\<lparr>eg_pending := []\<rparr>" leader] by (simp add: serves_def)
  then show ?thesis by (simp add: fail_pending_writes_not_leader_def serves_same Let_def)
qed

lemma log_raft_state_serves:
  "serves {#} 0 e (Inr () :: engine_error fault + unit, log_raft_state_if_changed api e)"
proof -
  have seen: "serves {#} 0 e (Inr () :: engine_error fault + unit, s\<lparr>eg_observed_role := role, eg_observed_leader := leader\<rparr>)"
    if "serves {#} 0 e (Inr () :: engine_error fault + unit, s)" for s role leader
  proof -
    let ?s = "s\<lparr>eg_observed_role := role, eg_observed_leader := leader\<rparr>"
    have same: "ledger ?s = ledger s" by (simp add: ledger_def)
    then show ?thesis
      using that accounts_ledger [OF same] ledger_ok_ledger [OF same] by (simp add: serves_def)
  qed
  have "serves {#} 0 e (Inr () :: engine_error fault + unit,
      if b then fail_pending_writes_not_leader api e else e)" for b
    using fail_pending_writes_serves [of e api] by (simp add: serves_same)
  from seen [OF this] show ?thesis
    by (simp add: log_raft_state_if_changed_def Let_def serves_same del: if_split)
qed

subsection \<open>Rounds\<close>

definition taken_requests :: "'m loop_input \<Rightarrow> shard_request list" where
  "taken_requests inp = (case li_wake inp of WakeRequests reqs \<Rightarrow> reqs | _ \<Rightarrow> [])"

text \<open>The loop of the shard over the inputs of its rounds: an error ends it.\<close>

primrec run_rounds ::
  "(bytes \<Rightarrow> u32) \<Rightarrow> 'c proto \<Rightarrow> ('r, 'm, 'c) raft_api \<Rightarrow> 'm loop_input list \<Rightarrow> ('r, 'm, 'c) engine \<Rightarrow>
   (engine_error fault + unit) \<times> ('r, 'm, 'c) engine" where
  "run_rounds crc p api [] e = (Inr (), e)"
| "run_rounds crc p api (inp # inps) e =
     and_then (run_round crc p api inp e) (\<lambda>_ e. run_rounds crc p api inps e)"

lemma run_round_serves:
  "serves (image_mset sreq_connection_id (mset (taken_requests inp))) (length (taken_requests inp)) e
     (run_round crc p api inp e)"
proof -
  have now: "ledger (e\<lparr>eg_now := t\<rparr>) = ledger e" for t by (simp add: ledger_def)
  have raft: "ledger (if b then s\<lparr>eg_raft := r\<rparr> else s) = ledger s"
    "ledger (s\<lparr>eg_bootstrapped := c\<rparr>) = ledger s" for b r c and s :: "('a, 'b, 'c) engine"
    by (simp_all add: ledger_def)
  have last: "serves {#} 0 s (let s = log_raft_state_if_changed api s in
      if li_gc_due inp then run_gc s else (Inr (), s))" for s :: "('a, 'b, 'c) engine"
    using serves_and_then [OF log_raft_state_serves [of s api], of "{#}" 0
        "\<lambda>_ s. if li_gc_due inp then run_gc s else (Inr (), s)"]
    by (simp add: serves_same Let_def)
  show ?thesis
    unfolding run_round_def Let_def
    apply (rule serves_from [OF now])
    apply (rule serves_quiet)
     apply (rule serves_from [OF raft(1)])
     apply (rule serves_then [OF serves_same])
      apply (simp add: and_then_ledger raft)
     apply (rule serves_then [OF drive_ready_serves last [unfolded Let_def]])
    apply (auto simp: taken_requests_def intro: process_client_requests_serves serves_same split: wake_up.split)
    done
qed

lemma run_rounds_serves:
  "serves (image_mset sreq_connection_id (mset (concat (map taken_requests inps))))
     (length (concat (map taken_requests inps))) e (run_rounds crc p api inps e)"
proof (induction inps arbitrary: e)
  case (Cons inp inps)
  from serves_and_then [OF run_round_serves Cons.IH] show ?case by simp
qed (simp add: serves_same)

lemma run_rounds_reaches:
  "run_rounds crc p api inps e = (Inr (), e') \<Longrightarrow> engine_reaches crc p api e (length inps) e'"
proof (induction inps arbitrary: e' rule: rev_induct)
  case (snoc inp inps)
  have "run_rounds crc p api (xs @ ys) e =
      and_then (run_rounds crc p api xs e) (\<lambda>_. run_rounds crc p api ys)" for xs ys and e :: "('a, 'b, 'c) engine"
    by (induction xs arbitrary: e) (simp_all add: and_then_assoc)
  with snoc show ?case by (auto simp: and_then_Inr intro: reach_round)
qed (simp add: reach_start)

text \<open>
  C9: Every request is answered exactly once or still waits. Over any number of rounds of the
  main loop, whatever raft, the disks and the timers do, the connections of the answers given
  and of the writes that still wait are, as a multiset, those at the start and the connections
  of the requests taken from the channel: no request is forgotten, none is answered twice, and
  no connection gets an answer that it did not ask for. What went into the response channel is
  part of the answers given, in their order. (Request ids are 64-bit and must not run out.)
\<close>

theorem each_request_answered_once:
  assumes "ledger_ok e" and "run_rounds crc p api inps e = (Inr (), e')"
    and "unat (eg_request_seq e) + length (concat (map taken_requests inps)) < 2 ^ 64"
  shows "mset (map srsp_connection_id (eg_offered e')) +
      mset (map pcw_connection_id (hm_values (eg_pending e'))) =
    mset (map srsp_connection_id (eg_offered e)) +
      mset (map pcw_connection_id (hm_values (eg_pending e))) +
      mset (map sreq_connection_id (concat (map taken_requests inps))) \<and>
    subseq (eg_delivered e') (eg_offered e') \<and> prefix (eg_delivered e) (eg_delivered e')"
  using run_rounds_serves [of inps e crc p api] assms
  by (simp add: serves_def accounts_def ledger_ok_def mset_map [symmetric] del: mset_map map_concat)

subsection \<open>Example runs\<close>

definition client_round :: "shard_request list \<Rightarrow> nat loop_input" where
  "client_round reqs = \<lparr>li_wake = WakeRequests reqs, li_tick_due = False, li_campaign_due = False,
     li_gc_due = False, li_now = 5\<rparr>"

lemma client_round_write:
  "\<exists>e'. run_rounds demo_crc demo_proto (demo_api Leader []) [client_round [write_req 7 5]] (demo_engine 4 []) =
      (Inr (), e')"
proof -
  have same: "(demo_engine 4 [])\<lparr>eg_now := 5\<rparr> = (demo_engine 4 [])\<lparr>eg_request_seq := 1\<rparr>"
    by (simp add: demo_engine_def)
  have "\<not> 5 < sr_max_epoch (ensure_stream 7 (demo_streams 4))" by (simp add: demo_streams_ok)
  then have "eg_bootstrapped (after_write 1 7) \<and> eg_raft (after_write 1 7) = Suc 0 \<and>
      eg_observed_role (after_write 1 7) = Leader"
    by (simp add: after_write_def handle_client_request_def handle_write_def write_req_def Let_def
        allocate_append_def raft_call_def map_err_def)
  with same after_write(1) [of 7 1] show ?thesis
    by (simp add: run_round_def client_round_def Let_def drive_ready_def log_raft_state_if_changed_def)
qed

lemma each_request_answered_once_witness:
  "\<exists>e'. run_rounds demo_crc demo_proto (demo_api Leader []) [client_round [write_req 7 5]] (demo_engine 4 []) =
      (Inr (), e') \<and>
    mset (map srsp_connection_id (eg_offered e')) + mset (map pcw_connection_id (hm_values (eg_pending e'))) = {#9#}"
proof -
  obtain e' where run: "run_rounds demo_crc demo_proto (demo_api Leader []) [client_round [write_req 7 5]]
      (demo_engine 4 []) = (Inr (), e')" using client_round_write by blast
  have "ledger_ok (demo_engine 4 [])" by (simp add: ledger_ok_def hm_keys_def demo_engine_def)
  from each_request_answered_once [OF this run] run show ?thesis
    by (simp add: client_round_def taken_requests_def write_req_def hm_values_def del: run_rounds.simps)
qed

end
