(* ===== verification/EngineLive.thy ===== *)
theory EngineLive
  imports EngineAnswers
begin

text \<open>
  The main loop of a shard does not end by itself. What the engine relies on of the consensus
  library is stated as a contract (\<open>raft_contract\<close>); on disks that answer every call, with the
  queues to the peers open, every round then returns without an error and keeps everything it
  needs for the next one.
\<close>

subsection \<open>The contract of the consensus library\<close>

text \<open>A call that succeeds and keeps what relates the library to the storage.\<close>

definition call_keeps :: "('s \<Rightarrow> 'r \<Rightarrow> bool) \<Rightarrow> 's \<Rightarrow> ('e + unit) \<times> 'r \<Rightarrow> bool" where
  "call_keeps R st x = (fst x = Inr () \<and> R st (snd x))"

text \<open>What the library hands out: committed commands of this program, small enough for a record;
  new entries that can be written, behind the applied one and without a gap; possibly a snapshot
  from the leader, then with entries only behind it and none to apply; at most \<open>k\<close> of each, indices
  below 2^63, and messages from \<open>M\<close>.\<close>

definition ready_ok ::
  "'c proto \<Rightarrow> 'm set \<Rightarrow> nat \<Rightarrow> 'c persistent_state \<Rightarrow> u64 \<Rightarrow> ('m, 'c) raft_ready \<Rightarrow> bool" where
  "ready_ok p M k st applied rdy =
     (entries_fit (rdy_committed rdy) \<and> entries_decode (rdy_committed rdy) \<and> length (rdy_committed rdy) \<le> k \<and>
      set (rdy_messages rdy) \<subseteq> M \<and> set (rdy_persisted_messages rdy) \<subseteq> M \<and>
      list_all (\<lambda>en. write_entry p en \<noteq> None \<and> unat (en_index en) < 2 ^ 63) (rdy_entries rdy) \<and>
      (case rdy_entries rdy of [] \<Rightarrow> True | en # _ \<Rightarrow> contiguous (unat (en_index en)) (rdy_entries rdy)) \<and>
      (if snapshot_is_empty (rdy_snapshot rdy)
       then (case rdy_entries rdy of [] \<Rightarrow> True
             | en # _ \<Rightarrow> applied < en_index en \<and> unat (en_index en) \<le> unat (last_index st) + 1)
       else rdy_committed rdy = [] \<and> unat (sm_index (sn_metadata (rdy_snapshot rdy))) < 2 ^ 63 \<and>
            (case rdy_entries rdy of [] \<Rightarrow> True
             | en # _ \<Rightarrow> unat (en_index en) = unat (sm_index (sn_metadata (rdy_snapshot rdy))) + 1)))"

text \<open>The storage with a ready stored.\<close>

definition installed :: "'c raft_snapshot \<Rightarrow> 'c persistent_state \<Rightarrow> 'c persistent_state" where
  "installed sn st =
     st\<lparr>ps_snapshot := sn, ps_conf_state := sm_conf_state (sn_metadata sn), ps_entries := [],
       ps_hard_state := (ps_hard_state st)\<lparr>hs_commit := sm_index (sn_metadata sn),
         hs_term := max (hs_term (ps_hard_state st)) (sm_term (sn_metadata sn))\<rparr>\<rparr>"

definition ready_state :: "('m, 'c) raft_ready \<Rightarrow> 'c persistent_state \<Rightarrow> 'c persistent_state" where
  "ready_state rdy st =
     (let st = (case rdy_hs rdy of Some hs \<Rightarrow> st\<lparr>ps_hard_state := hs\<rparr> | None \<Rightarrow> st);
          st = (if snapshot_is_empty (rdy_snapshot rdy) then st else installed (rdy_snapshot rdy) st) in
      case rdy_entries rdy of [] \<Rightarrow> st
      | en # es \<Rightarrow> st\<lparr>ps_entries :=
          (if en_index en \<le> last_index st then take (unat (en_index en - first_index st)) (ps_entries st)
           else ps_entries st) @ en # es\<rparr>)"

text \<open>The library and the storage are related by \<open>I\<close> between two rounds and by \<open>J rdy\<close> while the
  ready \<open>rdy\<close> is worked on. The library documents: the applied index lies within the log, but
  while a snapshot waits; a leader takes a proposal (no leadership is transferred and no limit
  of uncommitted bytes is configured here); a campaign and a tick are always possible; a
  message of \<open>M\<close> is stepped (those are the messages of the protocol among the peers, but no
  local ones and no proposals of others, which it may refuse); storing a ready leads from \<open>I\<close> to \<open>J\<close>,
  the storage may then get a snapshot at the applied index, and advancing with the ready that
  was taken leads back. Of a follower or a candidate it is not assumed that it takes
  proposals, and nothing is assumed of \<open>advance\<close> with another ready.\<close>

definition raft_contract ::
  "'c proto \<Rightarrow> ('r, 'm, 'c) raft_api \<Rightarrow> 'm set \<Rightarrow> nat \<Rightarrow> ('c persistent_state \<Rightarrow> 'r \<Rightarrow> bool) \<Rightarrow>
   (('m, 'c) raft_ready \<Rightarrow> 'c persistent_state \<Rightarrow> 'r \<Rightarrow> bool) \<Rightarrow> bool" where
  "raft_contract p api M k I J =
     ((\<forall>s. write_snapshot p s \<noteq> None) \<and> (\<forall>hs. write_hard_state p hs \<noteq> None) \<and> (\<forall>c. write_conf_state p c \<noteq> None) \<and>
      (\<forall>st r. I st r \<longrightarrow> snap_index st \<le> ra_applied api r \<and> ra_applied api r \<le> last_index st) \<and>
      (\<forall>rdy st r. J rdy st r \<longrightarrow> rdy_committed rdy \<noteq> [] \<longrightarrow>
         snap_index st \<le> ra_applied api r \<and> ra_applied api r \<le> last_index st) \<and>
      (\<forall>st r cmd. I st r \<longrightarrow> ra_role api r = Leader \<longrightarrow>
         call_keeps I st (ra_propose api st [] (encode_append_command cmd) r)) \<and>
      (\<forall>st r. I st r \<longrightarrow> call_keeps I st (ra_campaign api st r) \<and> I st (ra_tick api st r)) \<and>
      (\<forall>m \<in> M. \<forall>st r. (I st r \<longrightarrow> call_keeps I st (ra_step api st m r)) \<and>
         (\<forall>rdy. J rdy st r \<longrightarrow> call_keeps (J rdy) st (ra_step api st m r))) \<and>
      (\<forall>st r rdy r'. I st r \<longrightarrow> ra_has_ready api st r \<longrightarrow> ra_ready api st r = (rdy, r') \<longrightarrow>
         ready_ok p M k st (ra_applied api r) rdy \<and> J rdy (ready_state rdy st) r') \<and>
      (\<forall>rdy st r bs t. J rdy st r \<longrightarrow> rdy_committed rdy \<noteq> [] \<longrightarrow> raft_term st (ra_applied api r) = Inr t \<longrightarrow>
         J rdy (snapshot_state (ra_applied api r) bs t st) r) \<and>
      (\<forall>rdy st r light r'. J rdy st r \<longrightarrow>
         ra_advance api st (rdy\<lparr>rdy_committed := [], rdy_messages := [], rdy_persisted_messages := []\<rparr>) r = (light, r') \<longrightarrow>
         set (lr_messages light) \<subseteq> M \<and> I st r'))"

lemma raft_contractD:
  assumes "raft_contract p api M k I J"
  shows "write_snapshot p s \<noteq> None" and "write_hard_state p hs \<noteq> None" and "write_conf_state p c \<noteq> None"
    and "I st r \<Longrightarrow> snap_index st \<le> ra_applied api r \<and> ra_applied api r \<le> last_index st"
    and "J rdy st r \<Longrightarrow> rdy_committed rdy \<noteq> [] \<Longrightarrow> snap_index st \<le> ra_applied api r \<and> ra_applied api r \<le> last_index st"
    and "I st r \<Longrightarrow> ra_role api r = Leader \<Longrightarrow> call_keeps I st (ra_propose api st [] (encode_append_command cmd) r)"
    and "I st r \<Longrightarrow> call_keeps I st (ra_campaign api st r)" and "I st r \<Longrightarrow> I st (ra_tick api st r)"
    and "m \<in> M \<Longrightarrow> I st r \<Longrightarrow> call_keeps I st (ra_step api st m r)"
    and "m \<in> M \<Longrightarrow> J rdy st r \<Longrightarrow> call_keeps (J rdy) st (ra_step api st m r)"
    and "I st r \<Longrightarrow> ra_has_ready api st r \<Longrightarrow> ra_ready api st r = (rdy, r') \<Longrightarrow>
      ready_ok p M k st (ra_applied api r) rdy \<and> J rdy (ready_state rdy st) r'"
    and "J rdy st r \<Longrightarrow> rdy_committed rdy \<noteq> [] \<Longrightarrow> raft_term st (ra_applied api r) = Inr t \<Longrightarrow>
      J rdy (snapshot_state (ra_applied api r) bs t st) r"
    and "J rdy st r \<Longrightarrow>
      ra_advance api st (rdy\<lparr>rdy_committed := [], rdy_messages := [], rdy_persisted_messages := []\<rparr>) r = (light, r'') \<Longrightarrow>
      set (lr_messages light) \<subseteq> M \<and> I st r''"
  using assms unfolding raft_contract_def by auto

subsection \<open>A healthy engine\<close>

definition store_ready :: "'c proto \<Rightarrow> 'c persistent_state \<Rightarrow> disk \<Rightarrow> bool" where
  "store_ready p st d =
     (log_ok st \<and> unat (last_index st) < 2 ^ 63 \<and> state_writable p st \<and> dk_faults d = [])"

text \<open>Data, disks, queues and room for \<open>n\<close> more segments; \<open>R\<close> relates library and storage.\<close>

definition healthy ::
  "(bytes \<Rightarrow> u32) \<Rightarrow> 'c proto \<Rightarrow> ('c persistent_state \<Rightarrow> 'r \<Rightarrow> bool) \<Rightarrow> nat \<Rightarrow> ('r, 'm, 'c) engine \<Rightarrow> bool" where
  "healthy crc p R n e =
     ((\<exists>A segs. engine_ok crc A segs e) \<and> ww_next_segment_id (eg_writer e) \<noteq> 0 \<and>
      unat (ww_next_segment_id (eg_writer e)) + n < 2 ^ 64 \<and> dk_faults (eg_disk e) = [] \<and>
      store_ready p (eg_store e) (eg_raft_disk e) \<and> R (eg_store e) (eg_raft e) \<and>
      SendDisconnected \<notin> set (eg_outbound_sends e))"

lemma healthyI:
  assumes "healthy crc p R n e" and "\<exists>A segs. engine_ok crc A segs e'" and "eg_writer e' = eg_writer e"
    and "dk_faults (eg_disk e') = []" and "eg_store e' = eg_store e" and "eg_raft_disk e' = eg_raft_disk e"
    and "R' (eg_store e') (eg_raft e')" and "set (eg_outbound_sends e') \<subseteq> set (eg_outbound_sends e)"
  shows "healthy crc p R' n e'"
  using assms by (auto simp: healthy_def)

lemma healthy_related: "healthy crc p R n e \<Longrightarrow> R (eg_store e) (eg_raft e)"
  by (simp add: healthy_def)

definition returns :: "('s \<Rightarrow> bool) \<Rightarrow> ('e + unit) \<times> 's \<Rightarrow> bool" where
  "returns H r = (\<exists>s. r = (Inr (), s) \<and> H s)"

lemma returns_and_then: "returns H r \<Longrightarrow> (\<And>s. H s \<Longrightarrow> returns K (f () s)) \<Longrightarrow> returns K (and_then r f)"
  by (auto simp: returns_def)

lemma returns_Inr [simp]: "returns H (Inr (), s) = H s"
  by (simp add: returns_def)

lemma returns_raft_call:
  assumes "healthy crc p R n e" and "call_keeps R' (eg_store e) (f (eg_raft e))"
  shows "returns (healthy crc p R' n) (raft_call f e)"
proof -
  obtain res r where f: "f (eg_raft e) = (res, r)" by force
  have core: "engine_core (e\<lparr>eg_raft := r\<rparr>) = engine_core e" by simp
  have "healthy crc p R' n (e\<lparr>eg_raft := r\<rparr>)"
    using assms by (intro healthyI [OF assms(1)]) (auto simp: healthy_def call_keeps_def f engine_ok_core [OF core])
  with assms(2) show ?thesis by (simp add: raft_call_def f call_keeps_def)
qed

subsection \<open>Requests\<close>

lemma read_record_calm:
  "dk_faults d = [] \<Longrightarrow> read_record crc sid lsn idx (rd, d) = (res, rd', d') \<Longrightarrow> d' = d"
  by (auto simp: read_record_def get_or_open_segment_def list_segments_def io_read_dir_def io_open_def
      io_read_exact_at_def and_then_def beside_def map_err_def
      split: option.splits sum.splits prod.splits fault.splits if_splits)

lemma read_stream_fields:
  "dk_faults (eg_disk e) = [] \<Longrightarrow> dk_faults (eg_disk (snd (read_stream crc conn sid lsn e))) = []"
  "eg_store (snd (read_stream crc conn sid lsn e)) = eg_store e"
  "eg_raft_disk (snd (read_stream crc conn sid lsn e)) = eg_raft_disk e"
  "eg_raft (snd (read_stream crc conn sid lsn e)) = eg_raft e"
  "eg_outbound_sends (snd (read_stream crc conn sid lsn e)) = eg_outbound_sends e"
  by (auto simp: read_stream_def Let_def dest: read_record_calm
      split: option.split prod.split sum.split fault.split)

lemma request_returns:
  assumes con: "raft_contract p api M k I J" and H: "healthy crc p I n e"
  shows "returns (healthy crc p I n) (handle_client_request crc api req e)"
proof -
  let ?r = "handle_client_request crc api req e"
  from H obtain A segs where ok: "engine_ok crc A segs e" and I: "I (eg_store e) (eg_raft e)"
    and calm: "dk_faults (eg_disk e) = []" by (auto simp: healthy_def)
  define nxt where "nxt cmd = snd (ra_propose api (eg_store e) [] (encode_append_command cmd) (eg_raft e))" for cmd
  have proposes: "ra_propose api (eg_store e) [] (encode_append_command cmd) (eg_raft e) = (Inr (), nxt cmd)"
    "I (eg_store e) (nxt cmd)" if "ra_role api (eg_raft e) = Leader" for cmd
    using raft_contractD(6) [OF con I that, of cmd] by (auto simp: call_keeps_def nxt_def prod_eq_iff)
  have "fst ?r = Inr () \<and> I (eg_store e) (eg_raft (snd ?r)) \<and> eg_store (snd ?r) = eg_store e \<and>
      eg_raft_disk (snd ?r) = eg_raft_disk e \<and> dk_faults (eg_disk (snd ?r)) = [] \<and>
      eg_outbound_sends (snd ?r) = eg_outbound_sends e"
    using proposes I calm read_stream_cases [OF ok]
    by (auto simp: handle_client_request_def handle_write_def send_not_leader_def Let_def raft_call_def
        read_stream_fields
        split: op_code.split prod.split option.split sum.split epoch_fence_error.split)
  moreover have "engine_ok crc A segs (snd ?r)" by (rule handle_client_request_ok [OF ok])
  ultimately have "fst ?r = Inr ()" "healthy crc p I n (snd ?r)"
    by (auto intro!: healthyI [OF H])
  then show ?thesis by (metis prod.collapse returns_Inr)
qed

lemma requests_return:
  assumes "raft_contract p api M k I J"
  shows "healthy crc p I n e \<Longrightarrow> returns (healthy crc p I n) (process_client_requests crc api reqs e)"
  by (induction reqs arbitrary: e) (auto intro!: returns_and_then request_returns [OF assms])

lemma raft_messages_return:
  assumes "raft_contract p api M k I J"
  shows "set ms \<subseteq> M \<Longrightarrow> healthy crc p I n e \<Longrightarrow> returns (healthy crc p I n) (process_raft_messages api ms e)"
  by (induction ms arbitrary: e)
    (auto intro!: returns_and_then returns_raft_call raft_contractD(9) [OF assms] dest: healthy_related)

subsection \<open>The ready loop\<close>

lemma try_send_open:
  "SendDisconnected \<notin> set ss \<Longrightarrow> \<exists>ss'. try_send_outbound out ss = (True, ss') \<and> set ss' \<subseteq> set ss"
proof (induction ss)
  case (Cons s ss)
  then show ?case by (cases s) (auto intro: order_trans)
qed simp

lemma dispatch_returns:
  assumes steps: "\<And>m st r. m \<in> M \<Longrightarrow> R st r \<Longrightarrow> call_keeps R st (ra_step api st m r)"
  shows "set ms \<subseteq> M \<Longrightarrow> healthy crc p R n e \<Longrightarrow> returns (healthy crc p R n) (dispatch_raft_messages api ms e)"
proof (induction ms arbitrary: e)
  case (Cons m ms)
  show ?case
  proof (cases "ra_msg_to api m = eg_node_id e")
    case True
    have "returns (healthy crc p R n) (raft_call (ra_step api (eg_store e) m) e)"
      using Cons.prems by (intro returns_raft_call [OF Cons.prems(2)] steps) (auto dest: healthy_related)
    with True Cons.IH Cons.prems(1) show ?thesis by (auto intro: returns_and_then)
  next
    case False
    have "SendDisconnected \<notin> set (eg_outbound_sends e)" using Cons.prems(2) by (simp add: healthy_def)
    from try_send_open [OF this] obtain ss' where
      ss: "try_send_outbound \<lparr>ro_group_id = eg_shard_id e, ro_target_id = ra_msg_to api m, ro_message = m\<rparr>
        (eg_outbound_sends e) = (True, ss')" "set ss' \<subseteq> set (eg_outbound_sends e)" by blast
    define e' where "e' = e\<lparr>eg_outbound_sends := ss', eg_outbound := eg_outbound e @
      [\<lparr>ro_group_id = eg_shard_id e, ro_target_id = ra_msg_to api m, ro_message = m\<rparr>]\<rparr>"
    have core: "engine_core e' = engine_core e" by (simp add: e'_def engine_core_def)
    have "healthy crc p R n e'"
      using Cons.prems(2) ss(2) engine_ok_core [OF core]
      by (intro healthyI [OF Cons.prems(2)]) (auto simp: e'_def healthy_def)
    with Cons.IH Cons.prems(1) False ss(1) show ?thesis by (simp add: e'_def)
  qed
qed simp

text \<open>Storing a ready.\<close>

lemma hs_stored:
  assumes "store_ready p st d" and "\<And>hs. write_hard_state p hs \<noteq> None"
    and st1: "st1 = (case rdy_hs rdy of Some hs \<Rightarrow> st\<lparr>ps_hard_state := hs\<rparr> | None \<Rightarrow> st)"
  shows "\<exists>d1. (case rdy_hs rdy of
      Some hs \<Rightarrow> store_call (set_hardstate p hs) (e\<lparr>eg_store := st, eg_raft_disk := d\<rparr>)
    | None \<Rightarrow> (Inr (), e\<lparr>eg_store := st, eg_raft_disk := d\<rparr>)) = (Inr (), e\<lparr>eg_store := st1, eg_raft_disk := d1\<rparr>) \<and>
    store_ready p st1 d1 \<and> last_index st1 = last_index st \<and> snap_index st1 = snap_index st"
proof -
  have same: "first_index st1 = first_index st" "last_index st1 = last_index st" "snap_index st1 = snap_index st"
    by (auto simp: st1 first_index_def last_index_def snap_index_def split: option.split list.split)
  have w: "state_writable p st1" and ok: "log_ok st1"
    using assms(1,2) by (auto simp: store_ready_def st1 state_writable_def log_ok_def
        first_index_def snap_index_def split: option.split list.split)
  have calm: "dk_faults d = []" using assms(1) by (simp add: store_ready_def)
  have "\<exists>d1. dk_faults d1 = [] \<and> (case rdy_hs rdy of
      Some hs \<Rightarrow> store_call (set_hardstate p hs) (e\<lparr>eg_store := st, eg_raft_disk := d\<rparr>)
    | None \<Rightarrow> (Inr (), e\<lparr>eg_store := st, eg_raft_disk := d\<rparr>)) = (Inr (), e\<lparr>eg_store := st1, eg_raft_disk := d1\<rparr>)"
    using commit_calm [OF w calm] calm
    by (cases "rdy_hs rdy") (auto simp: st1 store_call_def set_hardstate_def)
  then show ?thesis using same ok w assms(1) by (auto simp: store_ready_def)
qed

lemma snapshot_stored:
  assumes sr: "store_ready p st d" and writes: "\<And>s. write_snapshot p s \<noteq> None" "\<And>hs. write_hard_state p hs \<noteq> None"
      "\<And>c. write_conf_state p c \<noteq> None"
    and i: "unat (sm_index (sn_metadata sn)) < 2 ^ 63"
  shows "\<exists>d1. store_call (apply_snapshot p sn) (e\<lparr>eg_store := st, eg_raft_disk := d\<rparr>) =
      (Inr (), e\<lparr>eg_store := installed sn st, eg_raft_disk := d1\<rparr>) \<and>
    store_ready p (installed sn st) d1 \<and> unat (first_index (installed sn st)) = unat (sm_index (sn_metadata sn)) + 1 \<and>
    last_index (installed sn st) = sm_index (sn_metadata sn)"
proof -
  let ?st = "installed sn st"
  have snap: "snap_index ?st = sm_index (sn_metadata sn)" by (simp add: installed_def snap_index_def)
  have first: "unat (first_index ?st) = unat (sm_index (sn_metadata sn)) + 1"
  proof -
    have "first_index ?st = sm_index (sn_metadata sn) + 1"
      unfolding first_index_def snap by (simp add: installed_def)
    then show ?thesis using i by (simp add: unat_word_ariths)
  qed
  have last: "last_index ?st = sm_index (sn_metadata sn)" by (simp add: last_index_def snap) (simp add: installed_def)
  have entries: "ps_entries ?st = []" by (simp add: installed_def)
  have ok: "log_ok ?st" using i by (simp add: log_ok_def first snap entries)
  have w: "state_writable p ?st" using writes by (simp add: state_writable_def installed_def)
  have calm: "dk_faults d = []" using sr by (simp add: store_ready_def)
  from commit_calm [OF w calm] obtain d1 where
    "beside ?st (persist p ?st d) = (Inr (), ?st, d1)" "dk_faults d1 = []" by blast
  moreover have "apply_snapshot p sn (st, d) = beside ?st (persist p ?st d)"
    by (cases st) (simp add: apply_snapshot_def installed_def Let_def)
  ultimately show ?thesis
    using ok w i first last by (intro exI [of _ d1]) (simp add: store_call_def store_ready_def)
qed

lemma entries_stored:
  assumes sr: "store_ready p st d" and ne: "es \<noteq> []"
    and es: "contiguous (unat (en_index (hd es))) es" "first_index st \<le> en_index (hd es)"
      "unat (en_index (hd es)) \<le> unat (last_index st) + 1"
    and w: "list_all (\<lambda>en. write_entry p en \<noteq> None \<and> unat (en_index en) < 2 ^ 63) es"
  shows "\<exists>d1. store_call (storage_append p es) (e\<lparr>eg_store := st, eg_raft_disk := d\<rparr>) =
      (Inr (), e\<lparr>eg_store := st\<lparr>ps_entries := (if en_index (hd es) \<le> last_index st
         then take (unat (en_index (hd es) - first_index st)) (ps_entries st) else ps_entries st) @ es\<rparr>, eg_raft_disk := d1\<rparr>) \<and>
    store_ready p (st\<lparr>ps_entries := (if en_index (hd es) \<le> last_index st
         then take (unat (en_index (hd es) - first_index st)) (ps_entries st) else ps_entries st) @ es\<rparr>) d1"
proof -
  obtain en es' where e: "es = en # es'" using ne by (cases es) auto
  have ok: "log_ok st" and calm: "dk_faults d = []" "state_writable p st" using sr by (simp_all add: store_ready_def)
  have "list_all (\<lambda>en. write_entry p en \<noteq> None) (en # es')" using w by (auto simp: e list_all_iff)
  from storage_append_calm [OF _ calm this] es(2) obtain st2 d2 where
    app: "storage_append p (en # es') (st, d) = (Inr (), st2, d2)" "dk_faults d2 = []" "state_writable p st2"
    by (auto simp: e)
  have last: "unat (en_index (last (en # es'))) + 1 = unat (en_index en) + length (en # es')"
    using contiguous_last [of "unat (en_index en)" "en # es'"] es(1) by (simp add: e)
  have small: "unat (en_index (last (en # es'))) < 2 ^ 63"
    using w last_in_set [of "en # es'"] by (simp add: e list_all_iff)
  have log: "log_ok st2 \<and> last_index st2 = en_index (last (en # es'))"
    using append_log [OF ok _ _ _ app(1)] es last small by (simp add: e)
  have st2: "st\<lparr>ps_entries := (if en_index en \<le> last_index st
      then take (unat (en_index en - first_index st)) (ps_entries st) else ps_entries st) @ (en # es')\<rparr> = st2"
    using append_state(2) [OF app(1)] by simp
  show ?thesis unfolding e list.sel st2
    using small app log by (intro exI [of _ d2]) (simp add: store_call_def store_ready_def)
qed

lemma persist_ready_returns:
  assumes sr: "store_ready p st d" and ro: "ready_ok p M k st a rdy" and snap: "snap_index st \<le> a"
    and writes: "\<And>s. write_snapshot p s \<noteq> None" "\<And>hs. write_hard_state p hs \<noteq> None"
      "\<And>c. write_conf_state p c \<noteq> None"
  shows "\<exists>d'. persist_ready p rdy (e\<lparr>eg_store := st, eg_raft_disk := d\<rparr>) =
      (Inr (), e\<lparr>eg_store := ready_state rdy st, eg_raft_disk := d'\<rparr>) \<and>
    store_ready p (ready_state rdy st) d'"
proof -
  define st1 where "st1 = (case rdy_hs rdy of Some hs \<Rightarrow> st\<lparr>ps_hard_state := hs\<rparr> | None \<Rightarrow> st)"
  define st2 where "st2 = (if snapshot_is_empty (rdy_snapshot rdy) then st1 else installed (rdy_snapshot rdy) st1)"
  from hs_stored [OF sr writes(2) st1_def] obtain d1 where
    hs: "(case rdy_hs rdy of Some hs \<Rightarrow> store_call (set_hardstate p hs) (e\<lparr>eg_store := st, eg_raft_disk := d\<rparr>)
    | None \<Rightarrow> (Inr (), e\<lparr>eg_store := st, eg_raft_disk := d\<rparr>)) = (Inr (), e\<lparr>eg_store := st1, eg_raft_disk := d1\<rparr>)"
    and sr1: "store_ready p st1 d1" and same: "last_index st1 = last_index st" "snap_index st1 = snap_index st" by blast
  have "\<exists>d2. (if \<not> snapshot_is_empty (rdy_snapshot rdy)
        then store_call (apply_snapshot p (rdy_snapshot rdy)) (e\<lparr>eg_store := st1, eg_raft_disk := d1\<rparr>)
        else (Inr (), e\<lparr>eg_store := st1, eg_raft_disk := d1\<rparr>)) = (Inr (), e\<lparr>eg_store := st2, eg_raft_disk := d2\<rparr>) \<and>
      store_ready p st2 d2 \<and> (rdy_entries rdy \<noteq> [] \<longrightarrow> first_index st2 \<le> en_index (hd (rdy_entries rdy)) \<and>
        unat (en_index (hd (rdy_entries rdy))) \<le> unat (last_index st2) + 1)"
  proof (cases "snapshot_is_empty (rdy_snapshot rdy)")
    case True
    have "first_index st1 \<le> en_index (hd (rdy_entries rdy))" if "rdy_entries rdy \<noteq> []"
    proof -
      from that ro True have "a < en_index (hd (rdy_entries rdy))"
        by (cases "rdy_entries rdy") (simp_all add: ready_ok_def)
      then show ?thesis
        using sr1 snap same by (simp add: store_ready_def log_ok_def word_le_nat_alt word_less_nat_alt)
    qed
    with True ro sr1 same show ?thesis
      by (intro exI [of _ d1]) (cases "rdy_entries rdy"; simp add: st2_def ready_ok_def)
  next
    case False
    then have "unat (sm_index (sn_metadata (rdy_snapshot rdy))) < 2 ^ 63" using ro by (simp add: ready_ok_def)
    from snapshot_stored [OF sr1 writes this, of e] obtain d2 where
      "store_call (apply_snapshot p (rdy_snapshot rdy)) (e\<lparr>eg_store := st1, eg_raft_disk := d1\<rparr>) =
        (Inr (), e\<lparr>eg_store := st2, eg_raft_disk := d2\<rparr>)" "store_ready p st2 d2"
      "unat (first_index st2) = unat (sm_index (sn_metadata (rdy_snapshot rdy))) + 1"
      "last_index st2 = sm_index (sn_metadata (rdy_snapshot rdy))" using False by (auto simp: st2_def)
    with False ro show ?thesis
      by (intro exI [of _ d2]) (cases "rdy_entries rdy"; simp add: ready_ok_def word_le_nat_alt)
  qed
  then obtain d2 where
    sn: "(if \<not> snapshot_is_empty (rdy_snapshot rdy)
        then store_call (apply_snapshot p (rdy_snapshot rdy)) (e\<lparr>eg_store := st1, eg_raft_disk := d1\<rparr>)
        else (Inr (), e\<lparr>eg_store := st1, eg_raft_disk := d1\<rparr>)) = (Inr (), e\<lparr>eg_store := st2, eg_raft_disk := d2\<rparr>)"
    and sr2: "store_ready p st2 d2" and en: "rdy_entries rdy \<noteq> [] \<Longrightarrow>
      first_index st2 \<le> en_index (hd (rdy_entries rdy)) \<and> unat (en_index (hd (rdy_entries rdy))) \<le> unat (last_index st2) + 1"
    by blast
  show ?thesis
  proof (cases "rdy_entries rdy = []")
    case True
    then have "ready_state rdy st = st2" by (simp add: ready_state_def st1_def st2_def Let_def)
    with hs sn sr2 True show ?thesis by (intro exI [of _ d2]) (simp add: persist_ready_def)
  next
    case False
    have w: "list_all (\<lambda>en. write_entry p en \<noteq> None \<and> unat (en_index en) < 2 ^ 63) (rdy_entries rdy)"
      and cont: "contiguous (unat (en_index (hd (rdy_entries rdy)))) (rdy_entries rdy)"
      using ro False by (auto simp: ready_ok_def split: list.splits)
    have "ready_state rdy st = st2\<lparr>ps_entries := (if en_index (hd (rdy_entries rdy)) \<le> last_index st2
         then take (unat (en_index (hd (rdy_entries rdy)) - first_index st2)) (ps_entries st2) else ps_entries st2) @ rdy_entries rdy\<rparr>"
      using False by (cases "rdy_entries rdy") (simp_all add: ready_state_def st1_def [symmetric] st2_def [symmetric] Let_def)
    with entries_stored [OF sr2 False cont conjunct1 [OF en [OF False]] conjunct2 [OF en [OF False]] w, of e] obtain d3 where
      "store_call (storage_append p (rdy_entries rdy)) (e\<lparr>eg_store := st2, eg_raft_disk := d2\<rparr>) =
        (Inr (), e\<lparr>eg_store := ready_state rdy st, eg_raft_disk := d3\<rparr>)" "store_ready p (ready_state rdy st) d3" by auto
    with hs sn False show ?thesis by (intro exI [of _ d3]) (simp add: persist_ready_def)
  qed
qed

text \<open>Applying: the snapshot step keeps the storage ready.\<close>

definition snapshot_fine ::
  "'c proto \<Rightarrow> ('r, 'm, 'c) raft_api \<Rightarrow> 'm set \<Rightarrow> nat \<Rightarrow> ('c persistent_state \<Rightarrow> 'r \<Rightarrow> bool) \<Rightarrow>
   (('m, 'c) raft_ready \<Rightarrow> 'c persistent_state \<Rightarrow> 'r \<Rightarrow> bool) \<Rightarrow> ('m, 'c) raft_ready \<Rightarrow> ('r, 'm, 'c) engine \<Rightarrow> bool" where
  "snapshot_fine p api M k I J rdy e =
     (raft_contract p api M k I J \<and> rdy_committed rdy \<noteq> [] \<and>
      store_ready p (eg_store e) (eg_raft_disk e) \<and> J rdy (eg_store e) (eg_raft e))"

lemma snapshot_fine_takes:
  assumes S: "snapshot_fine p api M k I J rdy e"
  shows "\<exists>st d. maybe_snapshot_raft_state p api e = (Inr (), e\<lparr>eg_store := st, eg_raft_disk := d\<rparr>) \<and>
    snapshot_fine p api M k I J rdy (e\<lparr>eg_store := st, eg_raft_disk := d\<rparr>)"
proof (cases "between_snapshots api e")
  case True
  with S show ?thesis
    by (intro exI [of _ "eg_store e"] exI [of _ "eg_raft_disk e"]) (simp add: no_snapshot_due)
next
  case False
  let ?a = "ra_applied api (eg_raft e)"
  from S have con: "raft_contract p api M k I J" and J: "J rdy (eg_store e) (eg_raft e)"
    and ne: "rdy_committed rdy \<noteq> []"
    and sr: "store_ready p (eg_store e) (eg_raft_disk e)" by (simp_all add: snapshot_fine_def)
  from raft_contractD(5) [OF con J ne] have a: "snap_index (eg_store e) \<le> ?a" "?a \<le> last_index (eg_store e)" by blast+
  then have "snapshot_possible p api e"
    using sr raft_contractD(1) [OF con] by (auto simp: snapshot_possible_def store_ready_def Let_def word_le_nat_alt)
  from snapshot_taken [OF False this refl] obtain t st d where
    run: "maybe_snapshot_raft_state p api e = (Inr (), e\<lparr>eg_store := st, eg_raft_disk := d\<rparr>)"
      "raft_term (eg_store e) ?a = Inr t" "st = snapshot_state ?a (encode_snapshot (eg_streams e)) t (eg_store e)"
      "dk_faults d = []" "log_ok st" "last_index st = last_index (eg_store e)" "state_writable p st" by blast
  have "J rdy st (eg_raft e)" unfolding run(3) by (rule raft_contractD(12) [OF con J ne run(2)])
  with run(4-7) con sr ne have "snapshot_fine p api M k I J rdy (e\<lparr>eg_store := st, eg_raft_disk := d\<rparr>)"
    by (simp add: snapshot_fine_def store_ready_def)
  with run(1) show ?thesis by blast
qed

interpretation contract: snapshot_taker p api "snapshot_fine p api M k I J rdy" for p api M k I J rdy
  by unfold_locales (simp add: snapshot_fine_def, rule snapshot_fine_takes)

lemma healthy_less: "healthy crc p R n e \<Longrightarrow> m \<le> n \<Longrightarrow> healthy crc p R m e"
  by (auto simp: healthy_def)

lemma committed_returns:
  assumes con: "raft_contract p api M k I J" and H: "healthy crc p (J rdy) (n + k) e"
    and es: "entries_fit (rdy_committed rdy)" "entries_decode (rdy_committed rdy)" "length (rdy_committed rdy) \<le> k"
  shows "returns (healthy crc p (J rdy) n) (apply_committed crc p api (rdy_committed rdy) e)"
proof (cases "rdy_committed rdy = []")
  case True
  with healthy_less [OF H] show ?thesis by simp
next
  case False
  let ?es = "rdy_committed rdy"
  from H obtain A segs where ok: "engine_ok crc A segs e" and seg: "ww_next_segment_id (eg_writer e) \<noteq> 0"
    and room: "unat (ww_next_segment_id (eg_writer e)) + (n + k) < 2 ^ 64" and calm: "dk_faults (eg_disk e) = []"
    and sr: "store_ready p (eg_store e) (eg_raft_disk e)" and J: "J rdy (eg_store e) (eg_raft e)"
    and out: "SendDisconnected \<notin> set (eg_outbound_sends e)"
    by (auto simp: healthy_def)
  have S: "snapshot_fine p api M k I J rdy e"
    using con sr J False by (simp add: snapshot_fine_def)
  have room': "unat (ww_next_segment_id (eg_writer e)) + length ?es < 2 ^ 64" using room es(3) by simp
  from contract.committed [OF ok es(1,2) seg room' calm S] obtain e' where
    run: "apply_committed crc p api ?es e = (Inr (), e')" and pr: "progressed e (entries_cmds ?es) e'"
    and S': "snapshot_fine p api M k I J rdy e'" by blast
  from apply_committed_ok [OF ok es(1) seg room' run] obtain segs' where
    "engine_ok crc (A @ entries_cmds ?es) segs' e'" "ww_next_segment_id (eg_writer e') \<noteq> 0"
    "unat (ww_next_segment_id (eg_writer e')) \<le> unat (ww_next_segment_id (eg_writer e)) + length ?es" by blast
  with pr S' out room es(3) have "healthy crc p (J rdy) n e'"
    by (auto simp: healthy_def progressed_def snapshot_fine_def)
  with run show ?thesis by simp
qed

lemma drive_ready_returns:
  assumes con: "raft_contract p api M k I J" and H: "healthy crc p I (n + k) e"
  shows "returns (healthy crc p I n) (drive_ready crc p api e)"
proof (cases "ra_has_ready api (eg_store e) (eg_raft e)")
  case True
  obtain rdy r where rdy: "ra_ready api (eg_store e) (eg_raft e) = (rdy, r)" by force
  note I = healthy_related [OF H]
  from raft_contractD(11) [OF con I True rdy] have ro: "ready_ok p M k (eg_store e) (ra_applied api (eg_raft e)) rdy"
    and J: "J rdy (ready_state rdy (eg_store e)) r" by auto
  have sr: "store_ready p (eg_store e) (eg_raft_disk e)" using H by (simp add: healthy_def)
  have snap: "snap_index (eg_store e) \<le> ra_applied api (eg_raft e)" using raft_contractD(4) [OF con] I by blast
  from persist_ready_returns [OF sr ro snap raft_contractD(1-3) [OF con], of "e\<lparr>eg_raft := r\<rparr>"] obtain d where
    d: "persist_ready p rdy (e\<lparr>eg_raft := r\<rparr>) =
      (Inr (), e\<lparr>eg_raft := r, eg_store := ready_state rdy (eg_store e), eg_raft_disk := d\<rparr>)"
      "store_ready p (ready_state rdy (eg_store e)) d" by auto
  let ?e = "e\<lparr>eg_raft := r, eg_store := ready_state rdy (eg_store e), eg_raft_disk := d\<rparr>"
  have core: "engine_core ?e = engine_core e" by (simp add: engine_core_def)
  have H1: "healthy crc p (J rdy) (n + k) ?e"
    using H d(2) J engine_ok_core [OF core] by (simp add: healthy_def)
  have M: "set (rdy_messages rdy) \<subseteq> M" "set (rdy_persisted_messages rdy) \<subseteq> M" and
    es: "entries_fit (rdy_committed rdy)" "entries_decode (rdy_committed rdy)" "length (rdy_committed rdy) \<le> k"
    using ro by (simp_all add: ready_ok_def)
  have dispJ: "returns (healthy crc p (J rdy) (n + k)) (dispatch_raft_messages api ms s)"
    if "set ms \<subseteq> M" "healthy crc p (J rdy) (n + k) s" for ms s
    by (rule dispatch_returns [OF _ that]) (rule raft_contractD(10) [OF con])
  have dispI: "returns (healthy crc p I n) (dispatch_raft_messages api ms s)"
    if "set ms \<subseteq> M" "healthy crc p I n s" for ms s
    by (rule dispatch_returns [OF _ that]) (rule raft_contractD(9) [OF con])
  have adv: "returns (healthy crc p I n) (case ra_advance api (eg_store s)
        (rdy\<lparr>rdy_committed := [], rdy_messages := [], rdy_persisted_messages := []\<rparr>) (eg_raft s) of
      (light, r) \<Rightarrow> dispatch_raft_messages api (lr_messages light) (s\<lparr>eg_raft := r\<rparr>))"
    if "healthy crc p (J rdy) n s" for s
  proof -
    obtain light r where a: "ra_advance api (eg_store s)
        (rdy\<lparr>rdy_committed := [], rdy_messages := [], rdy_persisted_messages := []\<rparr>) (eg_raft s) = (light, r)" by force
    from raft_contractD(13) [OF con healthy_related [OF that] a] have
      "set (lr_messages light) \<subseteq> M" and I: "I (eg_store s) r" by auto
    moreover have "healthy crc p I n (s\<lparr>eg_raft := r\<rparr>)"
      using that I engine_ok_core [of "s\<lparr>eg_raft := r\<rparr>" s] by (simp add: healthy_def)
    ultimately show ?thesis by (simp add: a dispI)
  qed
  have "returns (healthy crc p I n) (act_on_ready crc p api rdy ?e)"
    unfolding act_on_ready_def Let_def
    by (intro returns_and_then [OF dispJ [OF M(1) H1]] returns_and_then [OF dispJ [OF M(2)]]
        returns_and_then [OF committed_returns [OF con _ es]] adv)
  then show ?thesis
    unfolding drive_ready_split [OF True rdy] d(1) by simp
next
  case False
  with healthy_less [OF H] show ?thesis by (simp add: drive_ready_def)
qed

subsection \<open>Garbage collection and the round\<close>

lemma gc_segments_return:
  assumes "distinct (map snd ss)" and "\<forall>s \<in> set ss. disk_file (eg_disk e) (snd s) \<noteq> None"
    and "disk_ok (eg_disk e)" and "dk_faults (eg_disk e) = []"
  shows "\<exists>rd d. gc_segments live current ss e = (Inr (), e\<lparr>eg_reader := rd, eg_disk := d\<rparr>) \<and> dk_faults d = []"
  using assms
proof (induction ss arbitrary: e)
  case Nil
  then show ?case by (intro exI [of _ "eg_reader e"] exI [of _ "eg_disk e"]) simp
next
  case (Cons s ss)
  show ?case
  proof (cases "fst s = current \<or> fst s \<in> live")
    case True
    then show ?thesis using Cons.IH [of e] Cons.prems by auto
  next
    case False
    let ?d = "(eg_disk e)\<lparr>dk_files := hm_remove (snd s) (dk_files (eg_disk e)),
      dk_synced := (dk_synced (eg_disk e))(snd s := None)\<rparr>"
    have "io_remove_file (snd s) (eg_disk e) = (Inr (), ?d)"
      using Cons.prems(2,4) by (auto simp: io_remove_file_def disk_file_def)
    moreover have "\<exists>rd d. gc_segments live current ss
        (e\<lparr>eg_reader := evict_segment (fst s) (eg_reader e), eg_disk := ?d\<rparr>) =
        (Inr (), (e\<lparr>eg_reader := evict_segment (fst s) (eg_reader e), eg_disk := ?d\<rparr>)\<lparr>eg_reader := rd, eg_disk := d\<rparr>) \<and>
        dk_faults d = []"
      using Cons.prems by (intro Cons.IH) (auto simp: disk_ok_def disk_file_def rev_image_eqI)
    ultimately show ?thesis using False by simp
  qed
qed

lemma gc_returns:
  assumes H: "healthy crc p R n e"
  shows "returns (healthy crc p R n) (run_gc e)"
proof -
  from H obtain A segs where ok: "engine_ok crc A segs e" and calm: "dk_faults (eg_disk e) = []"
    by (auto simp: healthy_def)
  have st: "stores crc (eg_shard_id e) segs (eg_disk e)" using ok by (auto simp: engine_ok_def writer_at_def)
  let ?l = "seg_names (eg_shard_id e) segs"
  have "sorted_wrt (<) (map sg_id segs)" using st by (simp add: stores_def)
  then have "distinct (map sg_id segs)" by (simp add: strict_sorted_iff)
  moreover have "inj (segment_filename (eg_shard_id e))"
    by (rule injI) (metis option.inject parse_segment_filename_roundtrip prod.inject)
  ultimately have dist: "distinct (map snd ?l)"
    by (simp add: seg_names_def comp_def distinct_map inj_on_def)
  have files: "\<forall>s \<in> set ?l. disk_file (eg_disk e) (snd s) \<noteq> None"
    using st by (auto simp: seg_names_def stores_def)
  define e1 where "e1 = e\<lparr>eg_index := gc_truncate (all_statuses (eg_streams e)) (eg_index e), eg_disk := eg_disk e\<rparr>"
  have "disk_ok (eg_disk e)" using st by (simp add: stores_def)
  moreover have "eg_disk e1 = eg_disk e" by (simp add: e1_def)
  ultimately have "\<exists>rd d. gc_segments (live_segment_ids (eg_index e1)) (ww_current_segment_id (eg_writer e)) ?l e1 =
      (Inr (), e1\<lparr>eg_reader := rd, eg_disk := d\<rparr>) \<and> dk_faults d = []"
    using files calm by (intro gc_segments_return [OF dist]) simp_all
  then obtain rd d where
    gc: "gc_segments (live_segment_ids (eg_index e1)) (ww_current_segment_id (eg_writer e)) ?l e1 =
      (Inr (), e1\<lparr>eg_reader := rd, eg_disk := d\<rparr>)" "dk_faults d = []" by blast
  have run: "run_gc e = (Inr (), e1\<lparr>eg_reader := rd, eg_disk := d\<rparr>)"
    using gc(1) by (simp add: run_gc_def Let_def list_segments_stores(2) [OF st calm] e1_def)
  from run_gc_ok [OF ok run] have "\<exists>A segs. engine_ok crc A segs (e1\<lparr>eg_reader := rd, eg_disk := d\<rparr>)" by blast
  moreover have "eg_writer e1 = eg_writer e" "eg_store e1 = eg_store e" "eg_raft_disk e1 = eg_raft_disk e"
    "eg_raft e1 = eg_raft e" "eg_outbound_sends e1 = eg_outbound_sends e" by (simp_all add: e1_def)
  ultimately have "healthy crc p R n (e1\<lparr>eg_reader := rd, eg_disk := d\<rparr>)"
    using gc(2) healthy_related [OF H] by (intro healthyI [OF H]) simp_all
  then show ?thesis by (simp add: run)
qed

lemma fail_pending_fields:
  "eg_store (fail_pending l ps e) = eg_store e" "eg_raft_disk (fail_pending l ps e) = eg_raft_disk e"
  "eg_raft (fail_pending l ps e) = eg_raft e" "eg_disk (fail_pending l ps e) = eg_disk e"
  "eg_outbound_sends (fail_pending l ps e) = eg_outbound_sends e"
  by (induction ps arbitrary: e) (simp_all add: Let_def)

lemma log_raft_state_healthy:
  assumes "healthy crc p R n e"
  shows "healthy crc p R n (log_raft_state_if_changed api e)"
proof -
  from assms obtain A segs where "engine_ok crc A segs e" by (auto simp: healthy_def)
  from log_raft_state_ok [OF this] have "\<exists>A segs. engine_ok crc A segs (log_raft_state_if_changed api e)" by blast
  then show ?thesis using assms
    by (intro healthyI [OF assms])
      (auto simp: log_raft_state_if_changed_def fail_pending_writes_not_leader_def Let_def fail_pending_fields
        healthy_def)
qed

definition wake_messages :: "'m loop_input \<Rightarrow> 'm set" where
  "wake_messages inp = (case li_wake inp of WakeRaft ms \<Rightarrow> set ms | _ \<Rightarrow> {})"

lemma healthy_same:
  assumes H: "healthy crc p R n e" and core: "engine_core e' = engine_core e"
    and "eg_store e' = eg_store e" "eg_raft_disk e' = eg_raft_disk e" "eg_outbound_sends e' = eg_outbound_sends e"
    and "R' (eg_store e') (eg_raft e')"
  shows "healthy crc p R' n e'"
  using assms engine_ok_core [OF core] by (auto simp: healthy_def engine_core_def)

lemma round_returns:
  assumes con: "raft_contract p api M k I J" and H: "healthy crc p I (n + k) e"
    and M: "wake_messages inp \<subseteq> M"
  shows "returns (healthy crc p I n) (run_round crc p api inp e)"
proof -
  let ?H = "healthy crc p I (n + k)"
  have H0: "?H (e\<lparr>eg_now := li_now inp\<rparr>)"
    by (rule healthy_same [OF H]) (use healthy_related [OF H] in \<open>simp_all add: engine_core_def\<close>)
  have wake: "returns ?H (case li_wake inp of
      WakeRequests reqs \<Rightarrow> process_client_requests crc api reqs (e\<lparr>eg_now := li_now inp\<rparr>)
    | WakeRaft ms \<Rightarrow> process_raft_messages api ms (e\<lparr>eg_now := li_now inp\<rparr>)
    | WakeTimer \<Rightarrow> (Inr (), e\<lparr>eg_now := li_now inp\<rparr>))"
    using H0 M by (auto simp: wake_messages_def intro!: requests_return [OF con] raft_messages_return [OF con]
        split: wake_up.split)
  have tick: "?H (if b then s\<lparr>eg_raft := ra_tick api (eg_store s) (eg_raft s)\<rparr> else s)" if "?H s" for b s
    using that raft_contractD(8) [OF con healthy_related [OF that]]
    by (auto intro!: healthy_same [OF that])
  have campaign: "returns ?H (if b then and_then (raft_call (ra_campaign api (eg_store s)) s)
      (\<lambda>_ e. (Inr (), e\<lparr>eg_bootstrapped := True\<rparr>)) else (Inr (), s))" if "?H s" for b s
  proof -
    have "?H (s\<lparr>eg_bootstrapped := True\<rparr>)" if "?H s" for s
      by (rule healthy_same [OF that]) (use healthy_related [OF that] in \<open>simp_all add: engine_core_def\<close>)
    then show ?thesis
      using that raft_contractD(7) [OF con healthy_related [OF that]]
      by (auto intro!: returns_and_then returns_raft_call)
  qed
  have last: "returns (healthy crc p I n) (if b then run_gc (log_raft_state_if_changed api s)
      else (Inr (), log_raft_state_if_changed api s))" if "healthy crc p I n s" for b s
    using log_raft_state_healthy [OF that] by (simp add: gc_returns)
  show ?thesis
    unfolding run_round_def Let_def
    by (intro returns_and_then [OF wake] returns_and_then [OF campaign] tick
        returns_and_then [OF drive_ready_returns [OF con]] last)
qed

text \<open>
  C6: The main loop of a shard does not end by itself. On disks that answer every call, with a
  consensus library that keeps its contract, open queues to the peers, and messages that the
  library accepts, any number of rounds run to their end without an error or a panic, whatever
  the clients send and whatever the role of the node: a write is only proposed to a leader, what
  raft hands out, a snapshot of the leader included, is stored, sent and applied, snapshots are
  taken, segments rotated and collected. (With at most \<open>k\<close> committed entries at once, log indices below
  2^63, and until segment ids reach 2^64. A message that the library refuses does end the loop,
  which is a property of its own.)
\<close>

theorem main_loop_keeps_running:
  assumes "raft_contract p api M k I J" and "healthy crc p I (length inps * k) e"
    and "\<forall>inp \<in> set inps. wake_messages inp \<subseteq> M"
  shows "\<exists>e'. run_rounds crc p api inps e = (Inr (), e') \<and> healthy crc p I 0 e'"
proof -
  have "healthy crc p I (length inps * k) e \<Longrightarrow> returns (healthy crc p I 0) (run_rounds crc p api inps e)"
    using assms(3)
  proof (induction inps arbitrary: e)
    case (Cons inp inps)
    have "healthy crc p I (length inps * k + k) e" using Cons.prems(1) by (simp add: add.commute)
    from round_returns [OF assms(1) this] Cons show ?case by (auto intro: returns_and_then)
  qed simp
  with assms(2) show ?thesis by (simp add: returns_def)
qed

text \<open>A library that keeps the contract: a leader hands out committed entries, is then a follower, which
  refuses proposals, gets a snapshot of index 9 from the new leader, and has nothing more to do.\<close>

definition leader_snapshot :: "u64 raft_snapshot" where
  "leader_snapshot = \<lparr>sn_data = [], sn_metadata = \<lparr>sm_conf_state = 5, sm_index = 9, sm_term = 2\<rparr>\<rparr>"

definition steady_api :: "raft_entry list \<Rightarrow> (nat, nat, u64) raft_api" where
  "steady_api es = (demo_api Leader es)\<lparr>ra_role := (\<lambda>r. if r < 2 then Leader else Follower),
     ra_applied := (\<lambda>r. if r < 4 then 1 else 9),
     ra_propose := (\<lambda>_ _ _ r. if r < 2 then (Inr (), r) else (Inl Unavailable, r)),
     ra_has_ready := (\<lambda>_ r. r = 0 \<or> r = 2),
     ra_ready := (\<lambda>_ r. (if r = 0 then demo_ready es else (demo_ready [])\<lparr>rdy_snapshot := leader_snapshot\<rparr>, Suc r)),
     ra_advance := (\<lambda>_ _ r. (\<lparr>lr_committed = [], lr_messages = []\<rparr>, Suc r))\<rparr>"

definition steady :: "u64 persistent_state \<Rightarrow> nat \<Rightarrow> bool" where
  "steady st r = ((r = 0 \<or> r = 2) \<and> snap_index st \<le> 1 \<and> 1 \<le> last_index st \<or>
     r = 4 \<and> snap_index st \<le> 9 \<and> 9 \<le> last_index st)"

definition working :: "(nat, u64) raft_ready \<Rightarrow> u64 persistent_state \<Rightarrow> nat \<Rightarrow> bool" where
  "working rdy st r = (r = 1 \<and> snap_index st \<le> 1 \<and> 1 \<le> last_index st \<or>
     r = 3 \<and> rdy_committed rdy = [] \<and> snap_index st = 9 \<and> last_index st = 9)"

lemma steady_contract:
  assumes "entries_fit es" and "entries_decode es"
  shows "raft_contract open_proto (steady_api es) UNIV (length es) steady working"
proof -
  have snap: "snap_index (snapshot_state 1 bs t st) \<le> 1 \<and> 1 \<le> last_index (snapshot_state 1 bs t st)"
    if "snap_index st \<le> 1 \<and> 1 \<le> last_index st" for bs t and st :: "u64 persistent_state"
    using that by (auto simp: snapshot_state_def snap_index_def last_index_def split: if_splits)
  have first: "ready_state (demo_ready es) st = st" for st
    by (simp add: ready_state_def demo_ready_def Let_def snapshot_is_empty_def no_snapshot_def)
  have second: "snap_index (ready_state ((demo_ready [])\<lparr>rdy_snapshot := leader_snapshot\<rparr>) st) = 9"
    "last_index (ready_state ((demo_ready [])\<lparr>rdy_snapshot := leader_snapshot\<rparr>) st) = 9" for st
    by (simp_all add: ready_state_def demo_ready_def Let_def snapshot_is_empty_def leader_snapshot_def installed_def
        snap_index_def last_index_def)
  have "ready_ok open_proto UNIV (length es) st a (demo_ready es)" for st a
    using assms by (simp add: ready_ok_def demo_ready_def snapshot_is_empty_def no_snapshot_def)
  moreover have "ready_ok open_proto UNIV (length es) st a ((demo_ready [])\<lparr>rdy_snapshot := leader_snapshot\<rparr>)" for st a
    by (simp add: ready_ok_def demo_ready_def snapshot_is_empty_def leader_snapshot_def entries_fit_def entries_decode_def)
  ultimately have readies: "steady st r \<Longrightarrow> ra_has_ready (steady_api es) st r \<Longrightarrow> ra_ready (steady_api es) st r = (rdy, r') \<Longrightarrow>
      ready_ok open_proto UNIV (length es) st (ra_applied (steady_api es) r) rdy \<and> working rdy (ready_state rdy st) r'" for st r rdy r'
    using first second
    by (auto simp: steady_api_def steady_def working_def split: if_splits) (simp_all add: demo_ready_def)
  show ?thesis
    unfolding raft_contract_def
  proof (intro conjI allI ballI impI)
    fix rdy :: "(nat, u64) raft_ready" and st r bs t
    assume "working rdy st r" "rdy_committed rdy \<noteq> []"
    then show "working rdy (snapshot_state (ra_applied (steady_api es) r) bs t st) r"
      using snap by (auto simp: working_def steady_api_def)
  qed (use readies in \<open>auto simp: steady_api_def call_keeps_def open_proto_def demo_proto_def demo_api_def steady_def
      working_def\<close>)
qed

lemma steady_healthy:
  assumes "n < 1000"
  shows "healthy demo_crc open_proto steady n (demo_engine 4 ps)"
proof -
  have "log_ok (bootstrap_state (5 :: u64))" "last_index (bootstrap_state (5 :: u64)) = 1"
    "snap_index (bootstrap_state (5 :: u64)) = 0"
    by (simp_all add: log_ok_def bootstrap_state_def first_index_def snap_index_def last_index_def)
  moreover have "state_writable open_proto (bootstrap_state 5)"
    by (simp add: state_writable_def open_proto_def demo_proto_def bootstrap_state_def demo_entry_bytes_def)
  ultimately show ?thesis
    using demo_engine_ok [of 4 ps] assms
    by (auto simp: healthy_def store_ready_def steady_def demo_disk_def demo_raft_disk_def)
      (auto simp: demo_engine_def)
qed

lemma main_loop_keeps_running_witness:
  "\<exists>e'. run_rounds demo_crc open_proto (steady_api [cmd_entry 11 (demo_cmd 1)])
     [client_round [write_req 7 5, read_req 7 0], timer_round False, client_round [write_req 7 6], timer_round True]
     (demo_engine 4 []) = (Inr (), e')"
proof -
  have "length [client_round [write_req 7 5, read_req 7 0], timer_round False, client_round [write_req 7 6], timer_round True] *
      length [cmd_entry 11 (demo_cmd 1)] < 1000" by simp
  from main_loop_keeps_running [OF steady_contract [OF demo_entries [of 11 1]] steady_healthy [OF this]]
  show ?thesis by (auto simp: wake_messages_def client_round_def timer_round_def)
qed

end
