(* ===== verification/Node.thy ===== *)
theory Node
  imports AcceptorTotal EngineAnswers
begin

text \<open>
  A whole node: the acceptor thread and the threads of its shards, with the channels between
  them (\<open>server.rs\<close>, \<open>net/acceptor.rs\<close>, \<open>shard/engine.rs\<close>). A channel is a queue: what one side
  has put in and the other has not taken yet, in order. The threads run in any interleaving; a
  step is one step of the acceptor thread or one round of a shard. A shard whose round fails
  has stopped; its channels stay, because \<open>start\<close> keeps the mailboxes until the end.
\<close>

subsection \<open>State and steps\<close>

text \<open>A shard's thread, how many requests it has taken from its channel, and how many of its
  responses the acceptor has taken.\<close>

record ('r, 'm, 'c) shard_thread =
  sh_engine :: "('r, 'm, 'c) engine"
  sh_taken :: nat
  sh_drained :: nat
  sh_running :: bool

record ('r, 'm, 'c) node =
  nd_acceptor :: acceptor
  nd_shards :: "('r, 'm, 'c) shard_thread list"

definition shard_start :: "('r, 'm, 'c) engine \<Rightarrow> ('r, 'm, 'c) shard_thread" where
  "shard_start e = \<lparr>sh_engine = e, sh_taken = 0, sh_drained = 0, sh_running = True\<rparr>"

definition node_start :: "send_result list \<Rightarrow> ('r, 'm, 'c) engine list \<Rightarrow> ('r, 'm, 'c) node" where
  "node_start sends engines =
     \<lparr>nd_acceptor = acceptor_new (word_of_nat (length engines)) sends, nd_shards = map shard_start engines\<rparr>"

text \<open>All requests that were put into the channel of shard \<open>i\<close>; those still in it; the responses
  in the channel back.\<close>

definition sent_to :: "nat \<Rightarrow> acceptor \<Rightarrow> shard_request list" where
  "sent_to i a = map snd (filter (\<lambda>q. unat (fst q) = i) (ol_requests (ac_outlet a)))"

definition request_queue :: "nat \<Rightarrow> ('r, 'm, 'c) node \<Rightarrow> shard_request list" where
  "request_queue i n = drop (sh_taken (nd_shards n ! i)) (sent_to i (nd_acceptor n))"

definition response_queue :: "nat \<Rightarrow> ('r, 'm, 'c) node \<Rightarrow> shard_response list" where
  "response_queue i n = drop (sh_drained (nd_shards n ! i)) (eg_delivered (sh_engine (nd_shards n ! i)))"

definition not_response :: "net_event \<Rightarrow> bool" where
  "not_response ev = (case ev of Responded _ \<Rightarrow> False | _ \<Rightarrow> True)"

text \<open>The steps, with the event of the acceptor thread if it is one of its steps: what the network
  and the timers do; one round of a shard, which takes what it takes from the front of its
  channel; and the response task, which takes a response from a channel.\<close>

inductive node_step ::
  "(bytes \<Rightarrow> u64) \<Rightarrow> (bytes \<Rightarrow> u32) \<Rightarrow> 'c proto \<Rightarrow> ('r, 'm, 'c) raft_api \<Rightarrow>
   ('r, 'm, 'c) node \<Rightarrow> net_event list \<Rightarrow> ('r, 'm, 'c) node \<Rightarrow> bool" for xxh3 crc p api where
  network: "acceptor_step xxh3 ev (nd_acceptor n) = Some (Inr a) \<Longrightarrow> not_response ev \<Longrightarrow>
    node_step xxh3 crc p api n [ev] (n\<lparr>nd_acceptor := a\<rparr>)"
| round: "i < length (nd_shards n) \<Longrightarrow> sh = nd_shards n ! i \<Longrightarrow> sh_running sh \<Longrightarrow>
    prefix (taken_requests inp) (request_queue i n) \<Longrightarrow>
    run_round crc p api inp (sh_engine sh) = (res, e) \<Longrightarrow>
    node_step xxh3 crc p api n [] (n\<lparr>nd_shards := (nd_shards n)[i := sh\<lparr>sh_engine := e,
      sh_taken := sh_taken sh + length (taken_requests inp), sh_running := (res = Inr ())\<rparr>]\<rparr>)"
| drain: "i < length (nd_shards n) \<Longrightarrow> sh = nd_shards n ! i \<Longrightarrow> response_queue i n = r # rs \<Longrightarrow>
    acceptor_step xxh3 (Responded r) (nd_acceptor n) = Some (Inr a) \<Longrightarrow>
    node_step xxh3 crc p api n [Responded r] (n\<lparr>nd_acceptor := a,
      nd_shards := (nd_shards n)[i := sh\<lparr>sh_drained := Suc (sh_drained sh)\<rparr>]\<rparr>)"

inductive node_reaches ::
  "(bytes \<Rightarrow> u64) \<Rightarrow> (bytes \<Rightarrow> u32) \<Rightarrow> 'c proto \<Rightarrow> ('r, 'm, 'c) raft_api \<Rightarrow>
   ('r, 'm, 'c) node \<Rightarrow> net_event list \<Rightarrow> ('r, 'm, 'c) node \<Rightarrow> bool" for xxh3 crc p api n where
  node_here: "node_reaches xxh3 crc p api n [] n"
| node_further: "node_reaches xxh3 crc p api n evs m \<Longrightarrow> node_step xxh3 crc p api m ev k \<Longrightarrow>
    node_reaches xxh3 crc p api n (evs @ ev) k"

text \<open>An engine as opening leaves it.\<close>

definition engine_fresh :: "('r, 'm, 'c) engine \<Rightarrow> bool" where
  "engine_fresh e = (eg_offered e = [] \<and> eg_delivered e = [] \<and> eg_pending e = [] \<and> eg_request_seq e = 0)"

lemma opened_fresh:
  "engine_open crc p new_node voters shard cfg now rd d = (Inr e, rd', d') \<Longrightarrow> engine_fresh e"
  by (auto simp: engine_open_def engine_fresh_def split: prod.splits sum.splits)

subsection \<open>The steps of the acceptor in a run of the node\<close>

lemma node_reaches_acceptor:
  "node_reaches xxh3 crc p api n evs m \<Longrightarrow> acceptor_reaches xxh3 (nd_acceptor n) evs (nd_acceptor m)"
proof (induction rule: node_reaches.induct)
  case (node_further evs m ev k)
  from node_further.hyps(2) node_further.IH show ?case
    by cases (auto intro: acceptor_reaches.further)
qed (rule acceptor_reaches.here)

lemma acceptor_reaches_grow:
  "acceptor_reaches xxh3 a evs b \<Longrightarrow> prefix (ol_requests (ac_outlet a)) (ol_requests (ac_outlet b))"
  by (induction rule: acceptor_reaches.induct) (auto dest: step_requests_grow intro: prefix_order.order_trans)

lemma sent_to_grow:
  "prefix (ol_requests (ac_outlet a)) (ol_requests (ac_outlet b)) \<Longrightarrow> prefix (sent_to i a) (sent_to i b)"
  by (auto simp: sent_to_def prefix_def)

subsection \<open>Requests and answers of a node\<close>

definition shard_ok :: "nat \<Rightarrow> acceptor \<Rightarrow> ('r, 'm, 'c) shard_thread \<Rightarrow> bool" where
  "shard_ok i a sh =
     (ledger_ok (sh_engine sh) \<and> unat (eg_request_seq (sh_engine sh)) \<le> sh_taken sh \<and>
      sh_taken sh \<le> length (sent_to i a) \<and> sh_drained sh \<le> length (eg_delivered (sh_engine sh)) \<and>
      accounts (sh_engine sh) \<subseteq># image_mset sreq_connection_id (mset (take (sh_taken sh) (sent_to i a))) \<and>
      (sh_running sh \<longrightarrow>
         accounts (sh_engine sh) = image_mset sreq_connection_id (mset (take (sh_taken sh) (sent_to i a)))))"

definition to_conn :: "u64 \<Rightarrow> shard_response list \<Rightarrow> nat" where
  "to_conn cid rs = length (filter (\<lambda>r. srsp_connection_id r = cid) rs)"

definition drained_to :: "u64 \<Rightarrow> ('r, 'm, 'c) shard_thread \<Rightarrow> nat" where
  "drained_to cid sh = to_conn cid (take (sh_drained sh) (eg_delivered (sh_engine sh)))"

definition node_ok :: "net_event list \<Rightarrow> ('r, 'm, 'c) node \<Rightarrow> bool" where
  "node_ok evs n =
     ((\<forall>i < length (nd_shards n). shard_ok i (nd_acceptor n) (nd_shards n ! i)) \<and>
      (\<forall>cid. length (addressed cid evs) = sum_list (map (drained_to cid) (nd_shards n))))"

lemma shard_ok_grow:
  assumes "shard_ok i a sh" and "prefix (sent_to i a) (sent_to i b)"
  shows "shard_ok i b sh"
proof -
  have "take (sh_taken sh) (sent_to i b) = take (sh_taken sh) (sent_to i a)"
    using assms by (auto simp: shard_ok_def prefix_def)
  with assms show ?thesis by (auto simp: shard_ok_def dest: prefix_length_le)
qed

lemma sent_to_length: "length (sent_to i a) \<le> length (ol_requests (ac_outlet a))"
  by (simp add: sent_to_def)

lemma addressed_single:
  "not_response ev \<Longrightarrow> addressed cid [ev] = []"
  "length (addressed cid [Responded r]) = to_conn cid [r]"
  by (auto simp: not_response_def addressed_def map_filter_def to_conn_def split: net_event.splits)

lemma sum_list_more:
  "i < length xs \<Longrightarrow> f x = f (xs ! i) + k \<Longrightarrow> sum_list (map f (xs[i := x])) = sum_list (map f xs) + k" for f :: "'x \<Rightarrow> nat"
  using elem_le_sum_list [of i "map f xs"] by (simp add: map_update sum_list_update)

lemma sum_list_same:
  "i < length xs \<Longrightarrow> f x = f (xs ! i) \<Longrightarrow> sum_list (map f (xs[i := x])) = sum_list (map f xs)" for f :: "'x \<Rightarrow> nat"
  using sum_list_more [of i xs f x 0] by simp

lemma shard_start_ok:
  assumes "engine_fresh e"
  shows "shard_ok i a (shard_start e)" and "drained_to cid (shard_start e) = 0"
  using assms by (auto simp: shard_ok_def shard_start_def drained_to_def to_conn_def engine_fresh_def ledger_ok_def
      accounts_def hm_keys_def hm_values_def)

lemma shard_round_ok:
  assumes ok: "shard_ok i a sh" and small: "length (ol_requests (ac_outlet a)) < 2 ^ 64"
    and taken: "prefix (taken_requests inp) (drop (sh_taken sh) (sent_to i a))"
    and run: "run_round crc p api inp (sh_engine sh) = (res, e)" and "sh_running sh"
  shows "shard_ok i a (sh\<lparr>sh_engine := e, sh_taken := sh_taken sh + length (taken_requests inp), sh_running := (res = Inr ())\<rparr>)"
    and "drained_to cid (sh\<lparr>sh_engine := e, sh_taken := k, sh_running := b\<rparr>) = drained_to cid sh"
proof -
  let ?k = "length (taken_requests inp)" and ?S = "sent_to i a"
  from taken obtain rest where rest: "drop (sh_taken sh) ?S = taken_requests inp @ rest" by (auto simp: prefix_def)
  have len: "sh_taken sh + ?k \<le> length ?S"
    using arg_cong [OF rest, of length] ok by (simp add: shard_ok_def) linarith
  have more: "take (sh_taken sh + ?k) ?S = take (sh_taken sh) ?S @ taken_requests inp"
    by (simp add: take_add rest)
  have "unat (eg_request_seq (sh_engine sh)) + ?k < 2 ^ 64"
    using ok len small sent_to_length [of i a] by (simp add: shard_ok_def)
  with run_round_serves [of inp "sh_engine sh" crc p api] run ok have
    e: "ledger_ok e" "unat (eg_request_seq e) \<le> unat (eg_request_seq (sh_engine sh)) + ?k"
      "prefix (eg_delivered (sh_engine sh)) (eg_delivered e)"
      "accounts e \<subseteq># accounts (sh_engine sh) + image_mset sreq_connection_id (mset (taken_requests inp))"
      "res = Inr () \<Longrightarrow> accounts e = accounts (sh_engine sh) + image_mset sreq_connection_id (mset (taken_requests inp))"
    by (auto simp: serves_def shard_ok_def)
  have "accounts (sh_engine sh) + image_mset sreq_connection_id (mset (taken_requests inp)) \<subseteq>#
      image_mset sreq_connection_id (mset (take (sh_taken sh + ?k) ?S))"
    using ok by (simp add: more shard_ok_def)
  with e(4) have "accounts e \<subseteq># image_mset sreq_connection_id (mset (take (sh_taken sh + ?k) ?S))"
    by (rule subset_mset.order_trans)
  moreover have "accounts e = image_mset sreq_connection_id (mset (take (sh_taken sh + ?k) ?S))" if "res = Inr ()"
    using e(5) [OF that] ok assms(5) by (simp add: more shard_ok_def)
  ultimately show "shard_ok i a (sh\<lparr>sh_engine := e, sh_taken := sh_taken sh + ?k, sh_running := (res = Inr ())\<rparr>)"
    using e(1-3) ok len prefix_length_le [OF e(3)] by (simp add: shard_ok_def)
  show "drained_to cid (sh\<lparr>sh_engine := e, sh_taken := k, sh_running := b\<rparr>) = drained_to cid sh"
    using e(3) ok by (auto simp: drained_to_def shard_ok_def prefix_def)
qed

lemma node_reaches_ok:
  assumes "node_reaches xxh3 crc p api (node_start sends engines) evs n"
    and "\<forall>e \<in> set engines. engine_fresh e" and "length (ol_requests (ac_outlet (nd_acceptor n))) < 2 ^ 64"
  shows "node_ok evs n"
  using assms(1,3)
proof (induction rule: node_reaches.induct)
  case node_here
  from assms(2) show ?case
    by (auto simp: node_ok_def node_start_def addressed_def map_filter_def comp_def shard_start_ok)
next
  case (node_further evs m ev k)
  from node_reaches_acceptor [OF node_reaches.node_further [OF node_here node_further.hyps(2)]]
  have grow: "prefix (ol_requests (ac_outlet (nd_acceptor m))) (ol_requests (ac_outlet (nd_acceptor k)))"
    by (rule acceptor_reaches_grow)
  from prefix_length_le [OF this] node_further.prems have small: "length (ol_requests (ac_outlet (nd_acceptor m))) < 2 ^ 64"
    by simp
  note IH = node_further.IH [OF small]
  then have shards: "shard_ok i (nd_acceptor k) (nd_shards m ! i)" if "i < length (nd_shards m)" for i
    using that by (auto simp: node_ok_def intro: shard_ok_grow [OF _ sent_to_grow [OF grow]])
  from node_further.hyps(2) show ?case
  proof cases
    case (network ev' a)
    with IH shards show ?thesis by (simp add: node_ok_def addressed_append addressed_single)
  next
    case (round i sh inp res e)
    from IH round have ok: "shard_ok i (nd_acceptor m) sh" by (simp add: node_ok_def)
    from round(4,6) have "prefix (taken_requests inp) (drop (sh_taken sh) (sent_to i (nd_acceptor m)))"
      by (simp add: request_queue_def)
    note one = shard_round_ok [OF ok small this round(7,5)]
    have "sum_list (map (drained_to cid) ((nd_shards m)[i := sh\<lparr>sh_engine := e,
        sh_taken := sh_taken sh + length (taken_requests inp), sh_running := (res = Inr ())\<rparr>])) =
        sum_list (map (drained_to cid) (nd_shards m))" for cid
      by (rule sum_list_same [OF round(3)]) (simp add: one(2) round(4) [symmetric])
    with IH round(3) one(1) show ?thesis
      by (simp add: round(1,2) node_ok_def nth_list_update)
  next
    case (drain i sh r rs a)
    have ok: "shard_ok i (nd_acceptor k) sh" using shards drain by simp
    from drain(5) have r: "drop (sh_drained sh) (eg_delivered (sh_engine sh)) = r # rs"
      by (simp add: response_queue_def drain(4))
    then have "sh_drained sh < length (eg_delivered (sh_engine sh))"
      by (metis drop_eq_Nil2 list.discI not_le)
    with r have take: "take (Suc (sh_drained sh)) (eg_delivered (sh_engine sh)) =
        take (sh_drained sh) (eg_delivered (sh_engine sh)) @ [r]"
      by (metis hd_drop_conv_nth list.sel(1) take_Suc_conv_app_nth)
    let ?sh = "sh\<lparr>sh_drained := Suc (sh_drained sh)\<rparr>"
    have "drained_to cid ?sh = drained_to cid (nd_shards m ! i) + length (addressed cid [Responded r])" for cid
      by (simp add: drained_to_def take drain(4) [symmetric] addressed_single to_conn_def)
    from sum_list_more [OF drain(3), of "drained_to _", OF this]
    have "sum_list (map (drained_to cid) ((nd_shards m)[i := ?sh])) =
        sum_list (map (drained_to cid) (nd_shards m)) + length (addressed cid [Responded r])" for cid .
    moreover have "shard_ok i (nd_acceptor k) ?sh"
      using ok \<open>sh_drained sh < _\<close> by (simp add: shard_ok_def)
    ultimately show ?thesis
      using IH shards by (auto simp: drain(1,2) node_ok_def addressed_append nth_list_update [OF drain(3)])
  qed
qed

lemma sum_filter_parts:
  "(\<Sum>i < n. length (filter (\<lambda>q. unat (fst q :: u16) = i \<and> P q) qs)) \<le> length (filter P qs)"
proof (induction qs)
  case (Cons q qs)
  have "(\<Sum>i < n. length (filter (\<lambda>q. unat (fst q) = i \<and> P q) (q # qs))) =
      (\<Sum>i < n. (if unat (fst q) = i \<and> P q then 1 else 0) + length (filter (\<lambda>q. unat (fst q) = i \<and> P q) qs))"
    by (intro sum.cong) auto
  also have "\<dots> = (\<Sum>i < n. if unat (fst q) = i \<and> P q then 1 else 0) +
      (\<Sum>i < n. length (filter (\<lambda>q. unat (fst q) = i \<and> P q) qs))" by (simp add: sum.distrib)
  also have "(\<Sum>i < n. if unat (fst q) = i \<and> P q then 1 else 0) \<le> (if P q then 1 else (0 :: nat))"
    by (auto simp: sum.delta)
  finally show ?case using Cons.IH by (auto split: if_splits)
qed simp

lemma answers_bounded:
  assumes "node_ok evs n"
  shows "length (addressed cid evs) \<le> length (requests_of cid (nd_acceptor n))"
proof -
  let ?sh = "\<lambda>i. nd_shards n ! i" and ?a = "nd_acceptor n"
  have "drained_to cid (?sh i) \<le> length (filter (\<lambda>q. unat (fst q) = i \<and> sreq_connection_id (snd q) = cid) (ol_requests (ac_outlet ?a)))"
    if "i < length (nd_shards n)" for i
  proof -
    have ok: "shard_ok i ?a (?sh i)" using assms that by (simp add: node_ok_def)
    have count: "to_conn cid rs = count (image_mset srsp_connection_id (mset rs)) cid" for rs
      by (induction rs) (simp_all add: to_conn_def)
    have req: "count (image_mset sreq_connection_id (mset rs)) cid = length (filter (\<lambda>q. sreq_connection_id q = cid) rs)" for rs
      by (induction rs) simp_all
    let ?e = "sh_engine (?sh i)"
    have "drained_to cid (?sh i) \<le> to_conn cid (eg_delivered ?e)"
      unfolding drained_to_def to_conn_def
      by (subst (2) append_take_drop_id [of "sh_drained (?sh i)" "eg_delivered ?e", symmetric]) (simp del: append_take_drop_id)
    also have "to_conn cid (eg_delivered ?e) \<le> to_conn cid (eg_offered ?e)"
      using ok unfolding to_conn_def shard_ok_def ledger_ok_def
      by (intro list_emb_length [where P = "(=)"] subseq_filter) simp
    also have "to_conn cid (eg_offered ?e) \<le> count (accounts ?e) cid" by (simp add: count accounts_def)
    also have "\<dots> \<le> count (image_mset sreq_connection_id (mset (take (sh_taken (?sh i)) (sent_to i ?a)))) cid"
      using ok by (intro mset_subset_eq_count) (simp add: shard_ok_def)
    also have "\<dots> \<le> length (filter (\<lambda>q. sreq_connection_id q = cid) (sent_to i ?a))"
      unfolding req by (subst (2) append_take_drop_id [of "sh_taken (?sh i)" "sent_to i ?a", symmetric]) (simp del: append_take_drop_id)
    finally show ?thesis by (simp add: sent_to_def filter_map comp_def conj_commute)
  qed
  then have "(\<Sum>i < length (nd_shards n). drained_to cid (?sh i)) \<le>
      (\<Sum>i < length (nd_shards n). length (filter (\<lambda>q. unat (fst q) = i \<and> sreq_connection_id (snd q) = cid) (ol_requests (ac_outlet ?a))))"
    by (intro sum_mono) simp
  also have "\<dots> \<le> length (requests_of cid ?a)" unfolding requests_of_def by (rule sum_filter_parts)
  finally show ?thesis
    using assms by (simp add: node_ok_def sum_list_sum_nth atLeast0LessThan)
qed

text \<open>A connection is handed every response that is addressed to its id, from the start of the node:
  before the connection was accepted, there was no request with its id to answer.\<close>

lemma node_step_acceptor:
  "node_step xxh3 crc p api n evs m \<Longrightarrow>
   evs = [] \<and> nd_acceptor m = nd_acceptor n \<or>
   (\<exists>ev. evs = [ev] \<and> acceptor_step xxh3 ev (nd_acceptor n) = Some (Inr (nd_acceptor m)))"
  by (cases rule: node_step.cases) auto

lemma node_flow:
  assumes "node_reaches xxh3 crc p api (node_start sends engines) evs n"
    and "\<forall>e \<in> set engines. engine_fresh e"
    and "length (ol_requests (ac_outlet (nd_acceptor n))) < 2 ^ 64" and "length evs < 2 ^ 64"
    and "hm_get (ac_conns (nd_acceptor n)) cid = Some c"
  shows "conn_flow c = addressed cid evs"
  using assms(1,3-5)
proof (induction arbitrary: cid c rule: node_reaches.induct)
  case node_here
  then show ?case by (simp add: node_start_def acceptor_new_def)
next
  case (node_further evs m ev k)
  let ?a = "acceptor_new (word_of_nat (length engines)) sends"
  let ?b = "nd_acceptor m" and ?d = "nd_acceptor k"
  from node_reaches_acceptor [OF node_reaches.node_further [OF node_here node_further.hyps(2)]]
  have "prefix (ol_requests (ac_outlet ?b)) (ol_requests (ac_outlet ?d))" by (rule acceptor_reaches_grow)
  from prefix_length_le [OF this] node_further.prems(1) have small: "length (ol_requests (ac_outlet ?b)) < 2 ^ 64" by simp
  have evs: "length evs < 2 ^ 64" using node_further.prems(2) by simp
  note IH = node_further.IH [OF small evs]
  have "acceptor_reaches xxh3 ?a evs ?b"
    using node_reaches_acceptor [OF node_further.hyps(1)] by (simp add: node_start_def)
  from acceptor_from_start [OF this evs] have fs: "from_start xxh3 ?a evs ?b" .
  then have ok: "hm_ok (ac_conns ?b)" by (simp add: from_start_def)
  have unopened: "addressed x evs = []" if "ac_next_conn_id ?b \<le> x" for x
    using answers_bounded [OF node_reaches_ok [OF node_further.hyps(1) assms(2) small], of x] fs that
    by (simp add: from_start_def)
  from node_step_acceptor [OF node_further.hyps(2)] show ?case
  proof (elim disjE exE conjE)
    fix e assume e: "ev = [e]" and step: "acceptor_step xxh3 e ?b = Some (Inr ?d)"
    from acceptor_step_cases [OF step ok] show ?thesis
    proof (elim disjE exE conjE)
      assume "e = Accepted" "?d = put_conn (ac_next_conn_id ?b) conn_new (?b\<lparr>ac_next_conn_id := ac_next_conn_id ?b + 1\<rparr>)"
      moreover have "addressed cid [Accepted] = []" by (simp add: addressed_def map_filter_def)
      ultimately show ?thesis
        using node_further.prems(3) IH unopened ok e
        by (cases "cid = ac_next_conn_id ?b")
          (auto simp: put_conn_def addressed_append conn_new_def conn_flow_def in_flight_def written_responses_def)
    next
      fix r assume "e = Responded r" "hm_get (ac_conns ?b) (srsp_connection_id r) = None" "?d = ?b"
      moreover from this node_further.prems(3) have "subject e \<noteq> Some cid" by (auto simp: subject_def)
      ultimately show ?thesis
        using node_further.prems(3) IH not_subject [of e cid] e by (simp add: addressed_append)
    next
      fix x c' assume x: "subject e = Some x" "hm_get (ac_conns ?b) x = Some c'" and eff: "conn_effect xxh3 x e ?b c' ?d"
      show ?thesis
        using eff node_further.prems(3) IH [OF x(2)] IH [of cid c] not_subject [of e cid] x(1) e
        by (cases "cid = x") (auto simp: conn_effect_def addressed_append)
    qed
  qed (use node_further.prems(3) IH in simp)
qed

text \<open>A node that has come to rest: every shard runs, the channels are empty, no write waits, and no
  response was dropped on its way into a channel.\<close>

definition settled :: "('r, 'm, 'c) node \<Rightarrow> bool" where
  "settled n = (\<forall>i < length (nd_shards n). let sh = nd_shards n ! i in
     sh_running sh \<and> request_queue i n = [] \<and> response_queue i n = [] \<and>
     eg_pending (sh_engine sh) = [] \<and> eg_delivered (sh_engine sh) = eg_offered (sh_engine sh))"

lemma sum_filter_all:
  "\<forall>q \<in> set qs. P q \<longrightarrow> unat (fst q :: u16) < n \<Longrightarrow>
   (\<Sum>i < n. length (filter (\<lambda>q. unat (fst q) = i \<and> P q) qs)) = length (filter P qs)"
proof (induction qs)
  case (Cons q qs)
  have "(\<Sum>i < n. length (filter (\<lambda>q. unat (fst q) = i \<and> P q) (q # qs))) =
      (\<Sum>i < n. (if unat (fst q) = i \<and> P q then 1 else 0) + length (filter (\<lambda>q. unat (fst q) = i \<and> P q) qs))"
    by (intro sum.cong) auto
  also have "\<dots> = (\<Sum>i < n. if unat (fst q) = i \<and> P q then 1 else 0) +
      (\<Sum>i < n. length (filter (\<lambda>q. unat (fst q) = i \<and> P q) qs))" by (simp add: sum.distrib)
  also have "(\<Sum>i < n. if unat (fst q) = i \<and> P q then 1 else 0) = (if P q then 1 else (0 :: nat))"
    using Cons.prems by (cases "P q") (simp_all add: sum.delta)
  finally show ?case using Cons by (auto split: if_splits)
qed simp

lemma answers_settled:
  assumes ok: "node_ok evs n" and "settled n"
    and range: "\<forall>q \<in> set (requests_of cid (nd_acceptor n)). unat (fst q) < length (nd_shards n)"
  shows "length (addressed cid evs) = length (requests_of cid (nd_acceptor n))"
proof -
  let ?sh = "\<lambda>i. nd_shards n ! i" and ?a = "nd_acceptor n"
  have count: "to_conn cid rs = count (image_mset srsp_connection_id (mset rs)) cid" for rs
    by (induction rs) (simp_all add: to_conn_def)
  have req: "count (image_mset sreq_connection_id (mset rs)) cid = length (filter (\<lambda>q. sreq_connection_id q = cid) rs)" for rs
    by (induction rs) simp_all
  have "drained_to cid (?sh i) = length (filter (\<lambda>q. unat (fst q) = i \<and> sreq_connection_id (snd q) = cid) (ol_requests (ac_outlet ?a)))"
    if i: "i < length (nd_shards n)" for i
  proof -
    let ?e = "sh_engine (?sh i)"
    have st: "sh_running (?sh i)" "request_queue i n = []" "response_queue i n = []" "eg_pending ?e = []"
      "eg_delivered ?e = eg_offered ?e" using assms(2) i by (simp_all add: settled_def Let_def)
    then have "drained_to cid (?sh i) = to_conn cid (eg_offered ?e)"
      by (simp add: drained_to_def response_queue_def)
    also have "\<dots> = count (accounts ?e) cid" by (simp add: count accounts_def st(4) hm_values_def)
    also have "accounts ?e = image_mset sreq_connection_id (mset (take (sh_taken (?sh i)) (sent_to i ?a)))"
      using ok i st(1) by (simp add: node_ok_def shard_ok_def)
    also have "take (sh_taken (?sh i)) (sent_to i ?a) = sent_to i ?a"
      using st(2) by (simp add: request_queue_def)
    also have "count (image_mset sreq_connection_id (mset (sent_to i ?a))) cid =
      length (filter (\<lambda>q. sreq_connection_id q = cid) (sent_to i ?a))" by (rule req)
    finally show ?thesis by (simp only: sent_to_def filter_map comp_def filter_filter length_map conj_commute)
  qed
  then have "sum_list (map (drained_to cid) (nd_shards n)) =
      (\<Sum>i < length (nd_shards n). length (filter (\<lambda>q. unat (fst q) = i \<and> sreq_connection_id (snd q) = cid) (ol_requests (ac_outlet ?a))))"
    by (simp add: sum_list_sum_nth atLeast0LessThan)
  also have "\<dots> = length (requests_of cid ?a)"
    using range unfolding requests_of_def by (intro sum_filter_all ballI impI) (erule bspec, simp)
  finally show ?thesis using ok by (simp add: node_ok_def)
qed

lemma node_shards_length:
  "node_reaches xxh3 crc p api n evs m \<Longrightarrow> length (nd_shards m) = length (nd_shards n)"
proof (induction rule: node_reaches.induct)
  case (node_further evs m ev k)
  from node_further.hyps(2) node_further.IH show ?case by cases simp_all
qed simp

text \<open>
  C5: A client gets one answer for each request it sent, from the socket to the disks and back.
  Take a node with any number of shards, start it with engines as opening leaves them, and let
  its threads run in any interleaving, over rounds that fail and shards that stop, with any
  network, raft, disk and timer behaviour. For every connection that is open at the end, the
  bytes it has sent are whole requests and a rest, and the responses and refusals that it was
  given are at most as many as those requests. When the node has come to rest (all shards run,
  the channels are empty, no write waits for raft, no response was dropped at a full channel),
  they are exactly as many. (Fewer than 2^64 events; fewer than 2^16 shards.)
\<close>

theorem one_answer_per_request:
  assumes "node_reaches xxh3 crc p api (node_start sends engines) evs n"
    and "\<forall>e \<in> set engines. engine_fresh e" and "engines \<noteq> []" and "length engines < 2 ^ 16"
    and "length (ol_requests (ac_outlet (nd_acceptor n))) < 2 ^ 64" and "length evs < 2 ^ 64"
    and "hm_get (ac_conns (nd_acceptor n)) cid = Some c"
  shows "\<exists>rs. bytes_read cid evs = concat (map encode_request rs) @ cn_parse_buf c \<and>
    length (conn_flow c) + refusals c \<le> length rs \<and>
    (settled n \<longrightarrow> length (conn_flow c) + refusals c = length rs)"
proof -
  let ?a = "acceptor_new (word_of_nat (length engines)) sends"
  have "acceptor_reaches xxh3 ?a evs (nd_acceptor n)"
    using node_reaches_acceptor [OF assms(1)] by (simp add: node_start_def)
  from acceptor_from_start [OF this assms(6)] assms(7) have
    h: "handled xxh3 cid (bytes_read cid evs) ?a conn_new (nd_acceptor n) c"
    by (simp_all add: from_start_def)
  from h obtain hs where hs: "bytes_read cid evs = concat (map (encode_request \<circ> fst) hs) @ cn_parse_buf c"
    "requests_of cid (nd_acceptor n) = map (forwarded xxh3 (ac_router ?a) cid \<circ> fst) (filter snd hs)"
    "refusals c = length (filter (Not \<circ> snd) hs)"
    by (auto simp: handled_def requests_of_def acceptor_new_def conn_new_def refusals_def)
  note ok = node_reaches_ok [OF assms(1,2,5)]
  note flow = node_flow [OF assms(1,2,5,6,7)]
  have parts: "length (requests_of cid (nd_acceptor n)) + refusals c = length hs"
    using hs(2,3) sum_length_filter_compl [of snd hs] by (simp add: comp_def)
  have n: "unat (word_of_nat (length engines) :: u16) = length engines" using assms(4) by (simp add: unat_of_nat)
  have "unat (the (route_stream xxh3 (ac_router ?a) sid)) < length engines" for sid
  proof -
    have router: "ac_router ?a = router_new (word_of_nat (length engines))" by (simp add: acceptor_new_def)
    have "(word_of_nat (length engines) :: u16) \<noteq> 0" using n assms(3) by (metis length_0_conv unat_0)
    then obtain i where "route_stream xxh3 (ac_router ?a) sid = Some i"
      using route_stream_panics_iff [of xxh3 "ac_router ?a" sid] by (auto simp: router router_new_def)
    with route_stream_in_range [OF this] n show ?thesis by (simp add: router router_new_def)
  qed
  then have "\<forall>q \<in> set (requests_of cid (nd_acceptor n)). unat (fst q) < length (nd_shards n)"
    using node_shards_length [OF assms(1)] by (auto simp: hs(2) forwarded_def node_start_def)
  from answers_settled [OF ok _ this] answers_bounded [OF ok, of cid] flow parts hs(1) show ?thesis
    by (intro exI [of _ "map fst hs"]) auto
qed

subsection \<open>A shard that has stopped\<close>

lemma stopped_shard_stays:
  assumes "node_reaches xxh3 crc p api n evs m" and "i < length (nd_shards n)" and "\<not> sh_running (nd_shards n ! i)"
  shows "length (nd_shards m) = length (nd_shards n) \<and> \<not> sh_running (nd_shards m ! i) \<and>
    sh_engine (nd_shards m ! i) = sh_engine (nd_shards n ! i) \<and> sh_taken (nd_shards m ! i) = sh_taken (nd_shards n ! i)"
  using assms
proof (induction rule: node_reaches.induct)
  case (node_further evs m ev k)
  then have m: "length (nd_shards m) = length (nd_shards n)" "\<not> sh_running (nd_shards m ! i)"
    "sh_engine (nd_shards m ! i) = sh_engine (nd_shards n ! i)" "sh_taken (nd_shards m ! i) = sh_taken (nd_shards n ! i)"
    by auto
  from node_further.hyps(2) show ?case
  proof cases
    case (round j sh inp res e)
    with m show ?thesis by (cases "j = i") (simp_all add: nth_list_update)
  next
    case (drain j sh r rs a)
    with m show ?thesis by (cases "j = i") (simp_all add: nth_list_update)
  qed (use m in simp)
qed simp

lemma request_queue_grows:
  assumes reach: "node_reaches xxh3 crc p api n evs m" and "i < length (nd_shards n)" "\<not> sh_running (nd_shards n ! i)"
  shows "prefix (request_queue i n) (request_queue i m)"
proof -
  have "prefix (sent_to i (nd_acceptor n)) (sent_to i (nd_acceptor m))"
    by (rule sent_to_grow [OF acceptor_reaches_grow [OF node_reaches_acceptor [OF reach]]])
  then show ?thesis using stopped_shard_stays [OF assms] by (auto simp: request_queue_def prefix_def)
qed

lemma refused_message_round:
  assumes "li_wake inp = WakeRaft (msg # ms)"
    and "ra_step api (eg_store e) msg (eg_raft e) = (Inl err, r)"
  shows "run_round crc p api inp e = (Inl (Err (EngineRaft err)), e\<lparr>eg_now := li_now inp, eg_raft := r\<rparr>)"
  using assms by (simp add: run_round_def Let_def raft_call_def)

text \<open>
  C36: One peer message that raft refuses stops a shard for good, and its clients wait without an
  answer. If stepping a message gives an error (the library refuses, for instance, messages of
  the kinds that are local to a node, and any host can send one to the raft port), the round
  fails and the engine's thread ends; from then on, whatever the node does, this shard hands
  out no further response, and every request that waits for it or is sent to it later stays in
  its channel, which keeps accepting requests.
\<close>

theorem refused_message_stops_shard:
  assumes "i < length (nd_shards n)" and "sh_running (nd_shards n ! i)"
    and "li_wake (inp :: _ loop_input) = WakeRaft (msg # ms)"
    and "ra_step api (eg_store (sh_engine (nd_shards n ! i))) msg (eg_raft (sh_engine (nd_shards n ! i))) = (Inl err, r)"
  shows "\<exists>n1. node_step xxh3 crc p api n [] n1 \<and>
    (\<forall>evs n2. node_reaches xxh3 crc p api n1 evs n2 \<longrightarrow>
       eg_delivered (sh_engine (nd_shards n2 ! i)) = eg_delivered (sh_engine (nd_shards n ! i)) \<and>
       prefix (request_queue i n) (request_queue i n2))"
proof -
  let ?sh = "nd_shards n ! i" and ?e = "sh_engine (nd_shards n ! i)"
  let ?n1 = "n\<lparr>nd_shards := (nd_shards n)[i := ?sh\<lparr>sh_engine := ?e\<lparr>eg_now := li_now inp, eg_raft := r\<rparr>,
    sh_running := False\<rparr>]\<rparr>"
  have none: "taken_requests inp = []" using assms(3) by (simp add: taken_requests_def)
  have "node_step xxh3 crc p api n [] ?n1"
    using node_step.round [OF assms(1) refl assms(2) _ refused_message_round [where api = api, OF assms(3,4)]] none
    by simp
  moreover have "eg_delivered (sh_engine (nd_shards n2 ! i)) = eg_delivered ?e \<and>
      prefix (request_queue i n) (request_queue i n2)" if "node_reaches xxh3 crc p api ?n1 evs n2" for evs n2
  proof -
    have at: "i < length (nd_shards ?n1)" "\<not> sh_running (nd_shards ?n1 ! i)" using assms(1) by simp_all
    have "request_queue i ?n1 = request_queue i n" using assms(1) by (simp add: request_queue_def)
    with stopped_shard_stays [OF that at] request_queue_grows [OF that at] assms(1) show ?thesis by simp
  qed
  ultimately show ?thesis by blast
qed

subsection \<open>A run of a node with one shard\<close>

lemma node_network_run:
  "acceptor_reaches xxh3 (nd_acceptor n) evs a \<Longrightarrow> list_all not_response evs \<Longrightarrow>
   node_reaches xxh3 crc p api n evs (n\<lparr>nd_acceptor := a\<rparr>)"
proof (induction rule: acceptor_reaches.induct)
  case (further evs b ev c)
  then have "node_reaches xxh3 crc p api n evs (n\<lparr>nd_acceptor := b\<rparr>)" "not_response ev" by simp_all
  moreover have "node_step xxh3 crc p api (n\<lparr>nd_acceptor := b\<rparr>) [ev] ((n\<lparr>nd_acceptor := b\<rparr>)\<lparr>nd_acceptor := c\<rparr>)"
    using further.hyps(2) \<open>not_response ev\<close> by (intro network) simp_all
  ultimately show ?case using node_further by fastforce
qed (simp add: node_here)

definition fresh_engine :: "(nat, nat, u64) engine" where
  "fresh_engine = (demo_engine 4 [])\<lparr>eg_request_seq := 0, eg_raft := 1\<rparr>"

definition demo_ack :: request where "demo_ack = ack_request 7 3 1"

lemma fresh_engine_round:
  "\<exists>e rsp. run_round demo_crc demo_proto (demo_api Leader []) (client_round [\<lparr>sreq_connection_id = 0, sreq_request = demo_ack\<rparr>])
      fresh_engine = (Inr (), e) \<and> eg_delivered e = [rsp] \<and> srsp_connection_id rsp = 0 \<and>
      eg_offered e = [rsp] \<and> eg_pending e = []"
  by (simp add: fresh_engine_def run_round_def client_round_def Let_def demo_ack_def ack_request_def
      handle_client_request_def drive_ready_def log_raft_state_if_changed_def send_response_def
      demo_engine_def split: prod.split)

lemma demo_node_reads:
  "\<exists>a. node_reaches (\<lambda>_. 0) demo_crc demo_proto (demo_api Leader []) (node_start [] [fresh_engine])
      [Accepted, Started 0, ReadDone 0 (ReadData (encode_request demo_ack))]
      ((node_start [] [fresh_engine])\<lparr>nd_acceptor := a\<rparr>) \<and>
    hm_ok (ac_conns a) \<and> hm_get (ac_conns a) 0 = Some reading_conn \<and>
    ol_requests (ac_outlet a) = [(0, \<lparr>sreq_connection_id = 0, sreq_request = demo_ack\<rparr>)]"
proof -
  let ?b = "(acceptor_new 1 [])\<lparr>ac_next_conn_id := 1, ac_conns := [(0, reading_conn)]\<rparr>"
  let ?ol = "handle_all (forward_request (\<lambda>_. 0) (router_new 1) 0) [demo_ack] \<lparr>ol_sends = [], ol_requests = []\<rparr>"
  let ?a = "put_conn 0 reading_conn (?b\<lparr>ac_outlet := ?ol\<rparr>)"
  have fits: "request_fits demo_ack" by (simp add: demo_ack_def ack_request_def request_fits_def payload_fits_def)
  have route: "route_stream (\<lambda>_. 0) (router_new 1) s = Some 0" for s by (simp add: route_stream_def router_new_def)
  have "acceptor_step (\<lambda>_. 0) (ReadDone 0 (ReadData (concat (map encode_request [demo_ack])))) ?b = Some (Inr ?a)"
    using fits by (subst read_requests_step [where c = reading_conn])
      (simp_all add: demo_acceptor hm_get_def acceptor_new_def forward_request_def route Let_def)
  from acceptor_reaches.further [OF first_connection this] have
    "acceptor_reaches (\<lambda>_. 0) (acceptor_new 1 []) [Accepted, Started 0, ReadDone 0 (ReadData (encode_request demo_ack))] ?a"
    by simp
  then have "node_reaches (\<lambda>_. 0) demo_crc demo_proto (demo_api Leader []) (node_start [] [fresh_engine])
      [Accepted, Started 0, ReadDone 0 (ReadData (encode_request demo_ack))]
      ((node_start [] [fresh_engine])\<lparr>nd_acceptor := ?a\<rparr>)"
    by (intro node_network_run) (simp_all add: node_start_def not_response_def)
  then show ?thesis
    by (intro exI [of _ ?a]) (simp add: put_conn_def hm_get_def hm_ok_def forward_request_def route Let_def)
qed

lemma one_answer_per_request_witness:
  "\<exists>evs n c rs. node_reaches (\<lambda>_. 0) demo_crc demo_proto (demo_api Leader []) (node_start [] [fresh_engine]) evs n \<and>
     hm_get (ac_conns (nd_acceptor n)) 0 = Some c \<and> length (conn_flow c) = 1 \<and>
     bytes_read 0 evs = concat (map encode_request rs) \<and> settled n \<and> length (conn_flow c) + refusals c = length rs"
proof -
  from demo_node_reads obtain a where
    reads: "node_reaches (\<lambda>_. 0) demo_crc demo_proto (demo_api Leader []) (node_start [] [fresh_engine])
      [Accepted, Started 0, ReadDone 0 (ReadData (encode_request demo_ack))] ((node_start [] [fresh_engine])\<lparr>nd_acceptor := a\<rparr>)"
      (is "node_reaches _ _ _ _ _ ?evs ?n")
    and a: "hm_ok (ac_conns a)" "hm_get (ac_conns a) 0 = Some reading_conn"
      "ol_requests (ac_outlet a) = [(0, \<lparr>sreq_connection_id = 0, sreq_request = demo_ack\<rparr>)]" by blast
  from fresh_engine_round obtain e rsp where
    run: "run_round demo_crc demo_proto (demo_api Leader []) (client_round [\<lparr>sreq_connection_id = 0, sreq_request = demo_ack\<rparr>])
      fresh_engine = (Inr (), e)" and e: "eg_delivered e = [rsp]" "srsp_connection_id rsp = 0"
      "eg_offered e = [rsp]" "eg_pending e = []" by blast
  let ?sh = "\<lparr>sh_engine = e, sh_taken = 1, sh_drained = 0, sh_running = True\<rparr>"
  let ?m = "?n\<lparr>nd_shards := [?sh]\<rparr>" and ?k = "?n\<lparr>nd_acceptor := put_conn 0 (reading_conn\<lparr>cn_queue := [rsp]\<rparr>) a,
    nd_shards := [?sh\<lparr>sh_drained := 1\<rparr>]\<rparr>"
  have sh: "nd_shards ?n = [shard_start fresh_engine]" by (simp add: node_start_def)
  have sent: "sent_to 0 a = [\<lparr>sreq_connection_id = 0, sreq_request = demo_ack\<rparr>]" by (simp add: sent_to_def a(3))
  have "node_step (\<lambda>_. 0) demo_crc demo_proto (demo_api Leader []) ?n [] ?m"
    using node_step.round [where n = ?n and i = 0 and inp = "client_round [\<lparr>sreq_connection_id = 0, sreq_request = demo_ack\<rparr>]",
      OF _ refl, where crc = demo_crc and p = demo_proto and api = "demo_api Leader []" and res = "Inr ()" and e = e] run
    by (simp add: sh sent shard_start_def request_queue_def taken_requests_def client_round_def)
  from node_further [OF reads this]
  have m: "node_reaches (\<lambda>_. 0) demo_crc demo_proto (demo_api Leader []) (node_start [] [fresh_engine]) (?evs @ []) ?m" .
  have "node_step (\<lambda>_. 0) demo_crc demo_proto (demo_api Leader []) ?m [Responded rsp]
      (?m\<lparr>nd_acceptor := put_conn 0 (reading_conn\<lparr>cn_queue := [rsp]\<rparr>) a,
        nd_shards := (nd_shards ?m)[0 := ?sh\<lparr>sh_drained := Suc (sh_drained ?sh)\<rparr>]\<rparr>)"
    by (intro drain) (simp_all add: response_queue_def e acceptor_step_def respond_def a demo_acceptor)
  then have "node_step (\<lambda>_. 0) demo_crc demo_proto (demo_api Leader []) ?m [Responded rsp] ?k" by simp
  from node_further [OF m this]
  have k: "node_reaches (\<lambda>_. 0) demo_crc demo_proto (demo_api Leader []) (node_start [] [fresh_engine])
    ((?evs @ []) @ [Responded rsp]) ?k" (is "node_reaches _ _ _ _ _ ?all _") .
  have c: "hm_get (ac_conns (nd_acceptor ?k)) 0 = Some (reading_conn\<lparr>cn_queue := [rsp]\<rparr>)"
    using a(1) by (simp add: put_conn_def)
  have flow: "length (conn_flow (reading_conn\<lparr>cn_queue := [rsp]\<rparr>)) = 1"
    by (simp add: conn_flow_def written_responses_def in_flight_def demo_acceptor)
  have "engine_fresh fresh_engine" by (simp add: engine_fresh_def fresh_engine_def demo_engine_def)
  moreover have "settled ?k" using sent
    by (simp add: settled_def Let_def request_queue_def response_queue_def put_conn_def sent_to_def e)
  ultimately obtain rs where "bytes_read 0 ?all = concat (map encode_request rs) @ cn_parse_buf (reading_conn\<lparr>cn_queue := [rsp]\<rparr>)"
    "settled ?k" "length (conn_flow (reading_conn\<lparr>cn_queue := [rsp]\<rparr>)) + refusals (reading_conn\<lparr>cn_queue := [rsp]\<rparr>) = length rs"
    using one_answer_per_request [OF k _ _ _ _ _ c] a(3) by (auto simp: put_conn_def)
  then show ?thesis using k c flow
    by (intro exI [of _ ?all] exI [of _ ?k] exI [of _ "reading_conn\<lparr>cn_queue := [rsp]\<rparr>"] exI [of _ rs])
      (simp add: demo_acceptor)
qed

text \<open>The same node with a library that refuses the message 7, which a peer then sends.\<close>

definition picky_api :: "(nat, nat, u64) raft_api" where
  "picky_api = (demo_api Leader [])\<lparr>ra_step := (\<lambda>_ m r. (if m = 7 then Inl SnapshotOutOfDate else Inr (), r))\<rparr>"

definition raft_round :: "nat list \<Rightarrow> nat loop_input" where
  "raft_round ms = \<lparr>li_wake = WakeRaft ms, li_tick_due = False, li_campaign_due = False, li_gc_due = False, li_now = 5\<rparr>"

lemma refused_message_stops_shard_witness:
  "\<exists>n1. node_step (\<lambda>_. 0) demo_crc demo_proto picky_api (node_start [] [fresh_engine]) [] n1 \<and>
    (\<forall>evs n2. node_reaches (\<lambda>_. 0) demo_crc demo_proto picky_api n1 evs n2 \<longrightarrow>
       eg_delivered (sh_engine (nd_shards n2 ! 0)) = [])"
proof -
  have start: "nd_shards (node_start [] [fresh_engine]) = [shard_start fresh_engine]" by (simp add: node_start_def)
  have "eg_delivered fresh_engine = []" by (simp add: fresh_engine_def demo_engine_def)
  moreover have "ra_step picky_api st 7 r = (Inl SnapshotOutOfDate, r)" for st r by (simp add: picky_api_def)
  ultimately show ?thesis
    using refused_message_stops_shard [of 0 "node_start [] [fresh_engine]" "raft_round [7]" 7 "[]" picky_api
        SnapshotOutOfDate "eg_raft fresh_engine" "\<lambda>_. 0" demo_crc demo_proto]
    by (simp add: start shard_start_def raft_round_def) blast
qed

end
