(* ===== verification/WalBench.thy ===== *)
theory WalBench
  imports Client EngineProgress
begin

text \<open>
  The benchmark of the WAL (\<open>bin/wal_bench.rs\<close>): its arguments, and what its three scenarios do
  with writer, index and reader in a directory of their own. \<open>None\<close> is a panic (an
  \<open>expect\<close>). The clock is a function of the record. Timing and printing are left out, and
  so is the removal of the directory at the end.
\<close>

datatype bench_command =
  BenchAppendSync nat nat u64 | BenchRecovery nat nat u64 | BenchPointRead nat nat u64 | BenchUsage string

definition bench_main :: "string list \<Rightarrow> bench_command" where
  "bench_main args =
     (let scenario = arg_or (arg args 1) ''append-sync'';
          records = parse_usize_arg (arg args 2) 200000;
          payload_size = parse_usize_arg (arg args 3) 1024;
          max_bytes = parse_u64_arg (arg args 4) (64 * 1024 * 1024) in
      if scenario = ''append-sync'' then BenchAppendSync records payload_size max_bytes
      else if scenario = ''recovery'' then BenchRecovery records payload_size max_bytes
      else if scenario = ''point-read'' then BenchPointRead records payload_size max_bytes
      else BenchUsage scenario)"

text \<open>A shard directory below a fresh temporary one: it does not exist yet.\<close>

definition fresh_dir :: disk where
  "fresh_dir = \<lparr>dk_exists = False, dk_files = [], dk_faults = [], dk_synced = Map.empty\<rparr>"

definition bench_open ::
  "(bytes \<Rightarrow> u32) \<Rightarrow> u64 \<Rightarrow> u64 \<Rightarrow> disk \<Rightarrow>
   ((wal_writer \<times> stream_log_index \<times> stream_state_table) \<times> disk) option" where
  "bench_open crc now max_bytes d =
     (case writer_open crc now 0 max_bytes 32 None 0 d of
        (Inl _, _) \<Rightarrow> None | (Inr parts, d) \<Rightarrow> Some (parts, d))"

primrec append_records ::
  "(bytes \<Rightarrow> u32) \<Rightarrow> (u64 \<Rightarrow> u64) \<Rightarrow> bytes \<Rightarrow> u64 list \<Rightarrow> wal_writer \<times> disk \<Rightarrow> (wal_writer \<times> disk) option" where
  "append_records crc clock value [] wd = Some wd"
| "append_records crc clock value (lsn # lsns) wd =
     (case writer_append crc (clock lsn) (clock lsn) 7 1 lsn value wd of
        (Inl _, _) \<Rightarrow> None | (Inr _, wd) \<Rightarrow> append_records crc clock value lsns wd)"

text \<open>The loop \<open>for stream_lsn in 0..records\<close> and the sync: the body of \<open>populate\<close> and of
  \<open>run_append_sync\<close>.\<close>

definition populate ::
  "(bytes \<Rightarrow> u32) \<Rightarrow> (u64 \<Rightarrow> u64) \<Rightarrow> nat \<Rightarrow> nat \<Rightarrow> u64 \<Rightarrow> (wal_writer \<times> disk) option" where
  "populate crc clock records payload_size max_bytes =
     (case bench_open crc (clock 0) max_bytes fresh_dir of
        None \<Rightarrow> None
      | Some ((writer, _, _), d) \<Rightarrow>
     (case append_records crc clock (replicate payload_size 118) (map word_of_nat [0..<records]) (writer, d) of
        None \<Rightarrow> None
      | Some (writer, d) \<Rightarrow>
     (case writer_sync writer d of (Inl _, _) \<Rightarrow> None | (Inr _, d) \<Rightarrow> Some (writer, d))))"

text \<open>What the scenarios report.\<close>

record append_report =
  ar_last_entry_id :: u64
  ar_segment_id :: u64

definition run_append_sync ::
  "(bytes \<Rightarrow> u32) \<Rightarrow> (u64 \<Rightarrow> u64) \<Rightarrow> nat \<Rightarrow> nat \<Rightarrow> u64 \<Rightarrow> append_report option" where
  "run_append_sync crc clock records payload_size max_bytes =
     (case populate crc clock records payload_size max_bytes of
        None \<Rightarrow> None
      | Some (writer, _) \<Rightarrow> Some \<lparr>ar_last_entry_id = saturating_sub (ww_next_entry_id writer) 1,
          ar_segment_id = ww_current_segment_id writer\<rparr>)"

record recovery_report =
  rr_recovered_index :: nat
  rr_streams :: nat
  rr_next_entry_id :: u64

definition run_recovery ::
  "(bytes \<Rightarrow> u32) \<Rightarrow> (u64 \<Rightarrow> u64) \<Rightarrow> nat \<Rightarrow> nat \<Rightarrow> u64 \<Rightarrow> recovery_report option" where
  "run_recovery crc clock records payload_size max_bytes =
     (case populate crc clock records payload_size max_bytes of
        None \<Rightarrow> None
      | Some (_, d) \<Rightarrow>
     (case bench_open crc (clock 0) max_bytes d of
        None \<Rightarrow> None
      | Some ((writer, index, streams), _) \<Rightarrow>
          Some \<lparr>rr_recovered_index = index_len index, rr_streams = table_len streams,
                rr_next_entry_id = ww_next_entry_id writer\<rparr>))"

definition run_point_read ::
  "(bytes \<Rightarrow> u32) \<Rightarrow> (u64 \<Rightarrow> u64) \<Rightarrow> nat \<Rightarrow> nat \<Rightarrow> u64 \<Rightarrow> (u64 \<times> wal_record) option" where
  "run_point_read crc clock records payload_size max_bytes =
     (case populate crc clock records payload_size max_bytes of
        None \<Rightarrow> None
      | Some (_, d) \<Rightarrow>
     (case bench_open crc (clock 0) max_bytes d of
        None \<Rightarrow> None
      | Some ((_, index, _), d) \<Rightarrow>
          let reader = reader_new 0; target = word_of_nat (records div 2) in
          (case read_record crc 7 target index (reader, d) of
             (Inl _, _) \<Rightarrow> None | (Inr rec, _) \<Rightarrow> Some (target, rec))))"

subsection \<open>Filling the directory\<close>

definition bench_write :: "(u64 \<Rightarrow> u64) \<Rightarrow> bytes \<Rightarrow> nat \<Rightarrow> log_write" where
  "bench_write clock value i =
     \<lparr>lw_now = clock (word_of_nat i), lw_seg_now = clock (word_of_nat i), lw_stream_id = 7, lw_epoch = 1,
      lw_stream_lsn = word_of_nat i, lw_entry_id = word_of_nat i, lw_payload = value\<rparr>"

lemma writer_open_fresh:
  "\<exists>w d. writer_open crc now shard seg limit None 0 fresh_dir = (Inr (w, index_new, table_new limit), d) \<and>
     writer_at crc [new_segment 0 now] (w, d) \<and> dk_faults d = [] \<and>
     w = \<lparr>ww_shard_id = shard, ww_current_file = segment_filename shard 0, ww_current_segment_id = 0,
        ww_current_offset = of_nat SEGMENT_HEADER_SIZE, ww_next_entry_id = 0, ww_next_segment_id = 1,
        ww_max_segment_bytes = seg\<rparr>"
proof -
  let ?d = "\<lparr>dk_exists = True, dk_files = [], dk_faults = [], dk_synced = Map.empty\<rparr>"
  have st: "stores crc shard [] ?d" by (simp add: stores_def disk_ok_def disk_file_def hm_ok_def hm_get_def)
  have calm: "dk_faults ?d = []" by simp
  from create_segment_stores(2) [where crc = crc and now = now and g = 0, OF st _ calm] obtain d where
    d: "dk_faults d = []" "create_segment now shard 0 ?d = (Inr (segment_filename shard 0), d)" by auto
  from create_segment_stores(1) [OF st _ d(2)] have stores: "stores crc shard [new_segment 0 now] d" by simp
  have "io_create_dir_all fresh_dir = (Inr (), ?d)" by (simp add: io_create_dir_all_def fresh_dir_def)
  moreover have "list_segments shard ?d = (Inr [], ?d)"
    by (simp add: list_segments_def io_read_dir_def hm_keys_def segments_of_def map_filter_simps)
  ultimately have "writer_open crc now shard seg limit None 0 fresh_dir =
      (Inr (\<lparr>ww_shard_id = shard, ww_current_file = segment_filename shard 0, ww_current_segment_id = 0,
        ww_current_offset = of_nat SEGMENT_HEADER_SIZE, ww_next_entry_id = 0, ww_next_segment_id = 1,
        ww_max_segment_bytes = seg\<rparr>, index_new, table_new limit), d)"
    using d(2) by (simp add: writer_open_def Let_def)
  with stores d(1) show ?thesis
    by (simp add: writer_at_def stands_at_def SEGMENT_HEADER_SIZE_def)
qed

lemma bench_open_fresh:
  "\<exists>w d. bench_open crc now seg fresh_dir = Some ((w, index_new, table_new 32), d) \<and>
     writer_at crc [new_segment 0 now] (w, d) \<and> ww_shard_id w = 0 \<and> ww_next_entry_id w = 0 \<and>
     ww_next_segment_id w = 1 \<and> dk_faults d = [] \<and> ww_max_segment_bytes w = seg"
  using writer_open_fresh [of crc now 0 seg 32] by (auto simp: bench_open_def)

lemma writer_append_write:
  assumes "ww_next_entry_id w = word_of_nat i" and "Suc i < 2 ^ 64"
  shows "writer_append crc (clock (word_of_nat i)) (clock (word_of_nat i)) 7 1 (word_of_nat i) value (w, d) =
    append_write crc (bench_write clock value i) (w, d)"
proof -
  have "unat (word_of_nat i + 1 :: u64) = Suc i" "unat (word_of_nat i :: u64) = i"
    using assms(2) by (simp_all add: unat_word_ariths unat_of_nat)
  then have "max (word_of_nat i) (word_of_nat i + 1 :: u64) = word_of_nat i + 1"
    by (simp add: max_def word_le_nat_alt)
  with assms(1) show ?thesis
    by (simp add: writer_append_def append_write_def append_with_log_index_def bench_write_def Let_def
        split: option.split)
qed

text \<open>The loop returns, and adds its records to the log.\<close>

lemma append_records_log:
  assumes "writer_at crc segs (w, d)" and "sg_tail (last segs) = []" and "dk_faults d = []"
    and "sizes_ok crc (ww_shard_id w) segs w" and "length value + 48 < 2 ^ 32"
    and "ww_next_segment_id w \<noteq> 0" and "unat (ww_next_segment_id w) + (n - a) < 2 ^ 64"
    and "ww_next_entry_id w = word_of_nat a" and "a \<le> n" and "n < 2 ^ 64"
  shows "\<exists>w' d' segs' locs. append_records crc clock value (map word_of_nat [a..<n]) (w, d) = Some (w', d') \<and>
    writer_at crc segs' (w', d') \<and> sizes_ok crc (ww_shard_id w) segs' w' \<and> ww_shard_id w' = ww_shard_id w \<and>
    length locs = n - a \<and>
    wal_log segs' = wal_log segs @ zip locs (map (\<lambda>i. lw_record (bench_write clock value i)) [a..<n]) \<and>
    ww_next_entry_id w' = word_of_nat n \<and> dk_faults d' = []"
  using assms
proof (induction "n - a" arbitrary: a segs w d)
  case 0
  then show ?case by (intro exI [of _ w] exI [of _ d] exI [of _ segs]) auto
next
  case (Suc k)
  then have a: "a < n" "[a..<n] = a # [Suc a..<n]" by (simp_all add: upt_conv_Cons)
  let ?x = "bench_write clock value a"
  have fits: "lw_fits ?x" using Suc.prems(5) by (simp add: lw_fits_def bench_write_def)
  from append_write_calm [OF Suc.prems(1,6,3), of ?x] obtain w1 d1 where
    x: "append_write crc ?x (w, d) = (Inr (lw_entry_id ?x, located ?x w), w1, d1)" "dk_faults d1 = []" by blast
  from append_write_sizes [OF Suc.prems(1,2) fits Suc.prems(6,4) x(1)] obtain segs1 where
    app: "appended crc ?x (located ?x w) segs w segs1 (w1, d1)" and sz: "sizes_ok crc (ww_shard_id w) segs1 w1"
    by blast
  have ids: "unat (word_of_nat a :: u64) = a" "unat (word_of_nat a + 1 :: u64) = Suc a"
    using a(1) Suc.prems(10) by (simp_all add: unat_word_ariths unat_of_nat)
  have nxt: "ww_next_entry_id w1 = word_of_nat (Suc a)"
    using app Suc.prems(8) ids by (simp add: appended_def bench_write_def max_def word_le_nat_alt add.commute)
  have shard: "ww_shard_id w1 = ww_shard_id w" and at1: "writer_at crc segs1 (w1, d1)" "sg_tail (last segs1) = []"
    and log: "wal_log segs1 = wal_log segs @ [(located ?x w, lw_record ?x)]"
    using app by (auto simp: appended_def)
  have "unat (ww_next_segment_id w) + Suc (n - Suc a) < 2 ^ 64" using Suc.prems(7) a(1) by simp
  with unat_Suc_add [OF Suc.prems(6) this] app have
    seg1: "ww_next_segment_id w1 \<noteq> 0" "unat (ww_next_segment_id w1) + (n - Suc a) < 2 ^ 64"
    using Suc.prems(6) by (auto simp: appended_def)
  have k: "k = n - Suc a" "Suc a \<le> n" using Suc.hyps(2) a(1) by simp_all
  from Suc.hyps(1) [OF k(1) at1 x(2) sz [folded shard] Suc.prems(5) seg1 nxt k(2) Suc.prems(10)]
  obtain w' d' segs' locs where
    rest: "append_records crc clock value (map word_of_nat [Suc a..<n]) (w1, d1) = Some (w', d')"
      "writer_at crc segs' (w', d')" "sizes_ok crc (ww_shard_id w) segs' w'" "ww_shard_id w' = ww_shard_id w"
      "length locs = n - Suc a" "ww_next_entry_id w' = word_of_nat n" "dk_faults d' = []"
      "wal_log segs' = wal_log segs1 @ zip locs (map (\<lambda>i. lw_record (bench_write clock value i)) [Suc a..<n])"
    unfolding shard by blast
  have "Suc a < 2 ^ 64" using a(1) Suc.prems(10) by simp
  with rest x(1) log a show ?case
    by (intro exI [of _ w'] exI [of _ d'] exI [of _ segs'] exI [of _ "located ?x w # locs"])
      (simp add: writer_append_write [OF Suc.prems(8)])
qed

text \<open>The directory that \<open>populate\<close> leaves.\<close>

definition bench_fits :: "nat \<Rightarrow> nat \<Rightarrow> u64 \<Rightarrow> bool" where
  "bench_fits records payload_size max_bytes =
     (payload_size + 48 < 2 ^ 32 \<and> records + 1 < 2 ^ 64 \<and> unat max_bytes < 2 ^ 63)"

lemma populate_log:
  assumes "bench_fits n k seg"
  shows "\<exists>w d segs. populate crc clock n k seg = Some (w, d) \<and> ww_next_entry_id w = word_of_nat n \<and>
    dk_faults d = [] \<and> stores crc 0 segs d \<and> segs \<noteq> [] \<and> (\<forall>s \<in> set segs. addressable crc 0 s) \<and>
    map snd (wal_log segs) = map (\<lambda>i. lw_record (bench_write clock (replicate k 118) i)) [0..<n]"
proof -
  from bench_open_fresh [of crc "clock 0" seg] obtain w0 d0 where
    o: "bench_open crc (clock 0) seg fresh_dir = Some ((w0, index_new, table_new 32), d0)" and
    at: "writer_at crc [new_segment 0 (clock 0)] (w0, d0)" and
    w0: "ww_shard_id w0 = 0" "ww_next_entry_id w0 = 0" "ww_next_segment_id w0 = 1" "dk_faults d0 = []"
      "ww_max_segment_bytes w0 = seg" by blast
  have sizes: "sizes_ok crc (ww_shard_id w0) [new_segment 0 (clock 0)] w0"
    using assms by (simp add: sizes_ok_def addressable_def w0 bench_fits_def)
  have tail: "sg_tail (last [new_segment 0 (clock 0)]) = []" by simp
  have "n < 2 ^ 64" "length (replicate k (118 :: 8 word)) + 48 < 2 ^ 32"
    "unat (ww_next_segment_id w0) + (n - 0) < 2 ^ 64" "ww_next_segment_id w0 \<noteq> 0" "ww_next_entry_id w0 = word_of_nat 0"
    using assms by (simp_all add: bench_fits_def w0)
  from append_records_log [OF at tail w0(4) sizes this(2,4,3,5) _ this(1), of clock] obtain w d segs locs where
    app: "append_records crc clock (replicate k 118) (map word_of_nat [0..<n]) (w0, d0) = Some (w, d)"
      "writer_at crc segs (w, d)" "sizes_ok crc (ww_shard_id w0) segs w" "ww_shard_id w = ww_shard_id w0"
      "length locs = n - 0" "ww_next_entry_id w = word_of_nat n" "dk_faults d = []"
      "wal_log segs = wal_log [new_segment 0 (clock 0)] @
        zip locs (map (\<lambda>i. lw_record (bench_write clock (replicate k 118) i)) [0..<n])" by blast
  from writer_sync_calm [OF app(7)] obtain d' where
    sync: "writer_sync w d = (Inr (), d')" "same_files d d'" "dk_faults d' = []" by blast
  have "populate crc clock n k seg = Some (w, d')"
    by (simp add: populate_def o app(1) sync(1))
  moreover have "wal_log [new_segment 0 (clock 0)] = []" by (simp add: wal_log_def)
  ultimately show ?thesis using app w0(1) sync(2,3)
    by (intro exI [of _ w] exI [of _ d'] exI [of _ segs]) (auto simp: writer_at_def sizes_ok_def stores_same)
qed

subsection \<open>What opening it again recovers\<close>

lemma observe_one_stream:
  assumes "st_streams t = [] \<or> (\<exists>v. st_streams t = [(sid, v)])"
  shows "\<exists>v. st_streams (observe_recovered sid ep eid lsn payload t) = [(sid, v)]"
  using assms by (auto simp: observe_recovered_def Let_def put_stream_def hm_insert_def)

lemma bench_replay:
  assumes "map snd l = map (\<lambda>i. lw_record (bench_write clock value i)) [0..<n]" and "n < 2 ^ 64"
  shows "let s = replay_log 0 l (replay_init (table_new 32)) in
    rp_next_entry_id s = word_of_nat n \<and> index_ok (rp_index s) \<and>
    (if n \<le> 1 then st_streams (rp_streams s) = [] else \<exists>v. st_streams (rp_streams s) = [(7, v)])"
  using assms
proof (induction n arbitrary: l)
  case 0
  then show ?case by (simp add: replay_log_def replay_init_def table_new_def Let_def)
next
  case (Suc n)
  from Suc.prems(1) obtain l' loc where l: "l = l' @ [(loc, lw_record (bench_write clock value n))]"
    and l': "map snd l' = map (\<lambda>i. lw_record (bench_write clock value i)) [0..<n]"
    by (cases l rule: rev_cases) auto
  define s where "s = replay_log 0 l' (replay_init (table_new 32))"
  have IH: "rp_next_entry_id s = word_of_nat n" "index_ok (rp_index s)"
    "if n \<le> 1 then st_streams (rp_streams s) = [] else \<exists>v. st_streams (rp_streams s) = [(7, v)]"
    using Suc.IH [OF l'] Suc.prems(2) by (simp_all add: s_def Let_def)
  have split: "replay_log 0 l (replay_init (table_new 32)) =
      replay_record 0 loc (lw_record (bench_write clock value n)) s"
    by (simp add: replay_log_def l s_def)
  have n: "unat (word_of_nat n :: u64) = n" using Suc.prems(2) by (simp add: unat_of_nat)
  have "(0 :: u64) < word_of_nat n \<longleftrightarrow> 0 < n" using n by (simp add: word_less_nat_alt)
  with IH show ?case
    using observe_one_stream [of "rp_streams s" 7]
    by (auto simp: Let_def split replay_record_def bench_write_def lw_record_def index_ok_insert add.commute
        split: if_splits)
qed

lemma bench_log_map:
  assumes "map snd l = map (\<lambda>i. lw_record (bench_write clock value i)) [0..<n]" and "n < 2 ^ 64"
  shows "log_map l (sid, lsn) = (if sid = 7 \<and> unat lsn < n then Some (l ! unat lsn) else None)"
proof -
  have len: "length l = n" using arg_cong [OF assms(1), of length] by simp
  have "snd (l ! i) = lw_record (bench_write clock value i)" if "i < n" for i
    using arg_cong [OF assms(1), of "\<lambda>xs. xs ! i"] that len by simp
  then have key: "record_key (snd (l ! i)) = (7, word_of_nat i)" if "i < n" for i
    using that by (simp add: record_key_def lw_record_def bench_write_def)
  define kvs where "kvs = map (\<lambda>e. (record_key (snd e), e)) l"
  have kvs: "kvs ! i = ((7, word_of_nat i), l ! i)" if "i < n" for i
    using that key len by (simp add: kvs_def)
  have val: "unat (word_of_nat i :: u64) = i" if "i < n" for i
    using that assms(2) by (simp add: unat_of_nat)
  have klen: "length kvs = n" by (simp add: kvs_def len)
  have keys: "map fst kvs = map (\<lambda>i. (7, word_of_nat i)) [0..<n]"
    by (rule nth_equalityI) (simp_all add: klen kvs)
  have dist: "distinct (map fst (rev kvs))"
    unfolding rev_map [symmetric] distinct_rev keys distinct_map
    by (auto intro!: inj_onI dest!: arg_cong [of _ _ unat] simp: val)
  have map: "log_map l k = map_of (rev kvs) k" for k by (simp add: log_map_def kvs_def)
  show ?thesis
  proof (cases "sid = 7 \<and> unat lsn < n")
    case True
    then have "kvs ! unat lsn = ((sid, lsn), l ! unat lsn)" using kvs by simp
    then have "((sid, lsn), l ! unat lsn) \<in> set (rev kvs)"
      using True klen by (metis nth_mem set_rev)
    from map_of_is_SomeI [OF dist this] True show ?thesis by (simp add: map)
  next
    case False
    have "(sid, lsn) \<notin> set (map fst kvs)" unfolding keys using False val by auto
    then have "map_of (rev kvs) (sid, lsn) = None" by (simp add: map_of_eq_None_iff)
    with False show ?thesis by (auto simp: map)
  qed
qed

text \<open>
  C29: What the recovery benchmark measures is a complete recovery. From a fresh directory, on a
  disk that answers, for any number and size of records (sizes that fit the record format) and
  any segment size: the appends succeed and number the records 0, 1, ...; opening the directory
  again finds every one of them in the index and goes on at the next number; and the point read
  returns the record in the middle, whichever segment it is in. Two things the numbering from 0
  brings about: without records the point read panics, and a single record, having the number
  0, is not seen by the stream table that opening rebuilds.
\<close>

theorem bench_recovers_everything:
  assumes "bench_fits n k seg"
  shows "run_recovery crc clock n k seg = Some \<lparr>rr_recovered_index = n,
      rr_streams = (if n \<le> 1 then 0 else 1), rr_next_entry_id = word_of_nat n\<rparr> \<and>
    map_option ar_last_entry_id (run_append_sync crc clock n k seg) = Some (word_of_nat (n - 1)) \<and>
    run_point_read crc clock n k seg = (if n = 0 then None
      else Some (word_of_nat (n div 2), \<lparr>wr_stream_id = 7, wr_epoch = 1, wr_entry_id = word_of_nat (n div 2),
        wr_stream_lsn = word_of_nat (n div 2), wr_timestamp_ns = clock (word_of_nat (n div 2)),
        wr_payload = replicate k 118\<rparr>))"
proof -
  have n: "n < 2 ^ 64" using assms by (simp add: bench_fits_def)
  from populate_log [OF assms, of crc clock] obtain w d segs where
    pop: "populate crc clock n k seg = Some (w, d)" "ww_next_entry_id w = word_of_nat n" and calm: "dk_faults d = []"
    and st: "stores crc 0 segs d" "segs \<noteq> []" and addr: "\<forall>s \<in> set segs. addressable crc 0 s"
    and log: "map snd (wal_log segs) = map (\<lambda>i. lw_record (bench_write clock (replicate k 118) i)) [0..<n]" by blast
  define rs where "rs = replay_log 0 (wal_log segs) (replay_init (recovered_from 32 None))"
  from writer_open_stores(2) [OF st rs_def calm] have
    o: "bench_open crc (clock 0) seg d = Some ((opened crc 0 seg (last segs) rs, rp_index rs, rp_streams rs), d)"
    by (simp add: bench_open_def)
  have rs: "rp_next_entry_id rs = word_of_nat n" "index_ok (rp_index rs)"
    "table_len (rp_streams rs) = (if n \<le> 1 then 0 else 1)"
    using bench_replay [OF log n] by (auto simp: rs_def recovered_from_def Let_def table_len_def split: if_splits)
  have look: "index_lookup (rp_index rs) sid lsn =
      (if sid = 7 \<and> unat lsn < n then Some (fst (wal_log segs ! unat lsn)) else None)" for sid lsn
    by (simp add: rs_def index_lookup_replay bench_log_map [OF log n])
  have val: "unat (word_of_nat i :: u64) = i" if "i < n" for i using that n by (simp add: unat_of_nat)
  have "set (index_keys (rp_index rs)) = (\<lambda>i. (7, word_of_nat i)) ` {..<n}"
  proof (intro set_eqI iffI; clarify)
    fix sid lsn assume "(sid, lsn) \<in> set (index_keys (rp_index rs))"
    then show "(sid, lsn) \<in> (\<lambda>i. (7, word_of_nat i)) ` {..<n}"
      by (auto simp: set_index_keys [OF rs(2)] look split: if_splits intro!: image_eqI [of _ _ "unat lsn"])
  qed (auto simp: set_index_keys [OF rs(2)] look val)
  moreover have "inj_on (\<lambda>i. (7 :: u64, word_of_nat i :: u64)) {..<n}"
    by (auto intro!: inj_onI dest!: arg_cong [of _ _ unat] simp: val)
  ultimately have len: "index_len (rp_index rs) = n"
    using distinct_card [OF distinct_index_keys [OF rs(2)]] by (simp add: index_len_keys card_image)
  have pred: "saturating_sub (word_of_nat n) 1 = word_of_nat (n - 1)"
  proof (cases "n = 0")
    case False
    then have "unat (word_of_nat n :: u64) = n" "(1 :: u64) \<le> word_of_nat n"
      using n by (simp_all add: word_le_nat_alt unat_of_nat)
    moreover from this False have "(word_of_nat n :: u64) \<noteq> 0" by (metis unat_0)
    ultimately show ?thesis using False by (simp add: saturating_sub_def of_nat_diff not_less)
  qed (simp add: saturating_sub_def)
  have "run_point_read crc clock n k seg = (if n = 0 then None
      else Some (word_of_nat (n div 2), lw_record (bench_write clock (replicate k 118) (n div 2))))"
  proof (cases "n = 0")
    case True
    show ?thesis
      using pop(1) o look [of 7 0] True by (simp add: run_point_read_def Let_def read_record_def)
  next
    case False
    then have m: "n div 2 < n" by simp
    let ?x = "wal_log segs ! (n div 2)"
    have len: "length (wal_log segs) = n" using arg_cong [OF log, of length] by simp
    have r: "snd ?x = lw_record (bench_write clock (replicate k 118) (n div 2))"
      using arg_cong [OF log, of "\<lambda>xs. xs ! (n div 2)"] m len by simp
    have new: "wrd_shard_id (reader_new 0) = 0" "reader_ok (reader_new 0)" by (simp_all add: reader_new_def reader_ok_def)
    have "(fst ?x, snd ?x) \<in> set (wal_log segs)" using m len by simp
    moreover have "index_lookup (rp_index rs) 7 (word_of_nat (n div 2)) = Some (fst ?x)"
      using m by (simp add: look val [OF m])
    ultimately obtain rd' where "read_record crc 7 (word_of_nat (n div 2)) (rp_index rs) (reader_new 0, d) = (Inr (snd ?x), rd', d)"
      using read_record_stores [of crc "reader_new 0" segs d] st(1) calm addr unfolding new(1) using new(2) by blast
    with False r show ?thesis by (simp add: run_point_read_def pop o Let_def)
  qed
  then show ?thesis
    by (simp add: run_recovery_def run_append_sync_def pop o rs len pred opened_def)
      (simp add: lw_record_def bench_write_def)
qed

theorem bench_recovers_everything_witness:
  "run_recovery demo_crc (\<lambda>_. 5) 3 4 64 = Some \<lparr>rr_recovered_index = 3, rr_streams = 1, rr_next_entry_id = 3\<rparr> \<and>
   map_option ar_last_entry_id (run_append_sync demo_crc (\<lambda>_. 5) 3 4 64) = Some 2 \<and>
   run_point_read demo_crc (\<lambda>_. 5) 3 4 64 = Some (1, \<lparr>wr_stream_id = 7, wr_epoch = 1, wr_entry_id = 1,
     wr_stream_lsn = 1, wr_timestamp_ns = 5, wr_payload = [118, 118, 118, 118]\<rparr>)"
proof -
  have "bench_fits 3 4 64" by (simp add: bench_fits_def)
  moreover have "3 div 2 = (1 :: nat)" by simp
  moreover have "replicate 4 (118 :: u8) = [118, 118, 118, 118]" by (simp add: numeral_eq_Suc)
  ultimately show ?thesis using bench_recovers_everything [of 3 4 64 demo_crc "\<lambda>_. 5"] by simp
qed

end
