(* ===== verification/BenchClient.thy ===== *)
theory BenchClient
  imports Protocol RaftStorage
begin

text \<open>
  The cluster benchmark (\<open>bin/cluster_bench.rs\<close>): its arguments, a connection that is opened
  when it is needed, the search for the leader, and its threads, a writer, readers that follow it
  and a reporter, which share atomics and interleave in any way. The sockets are a parameter; a
  panic (an \<open>expect\<close>) of a thread ends it without the stores that come after it. Sleeping,
  printing and the rates are left out.
\<close>

subsection \<open>Arguments\<close>

record bench_cli =
  cli_addrs :: "string list"
  cli_stream_id :: u64
  cli_epoch :: u64
  cli_payload_bytes :: nat
  cli_writes :: u64
  cli_duration_secs :: u64
  cli_readers :: nat
  cli_think_us :: u64
  cli_report_ms :: u64

definition cli_default :: bench_cli where
  "cli_default = \<lparr>cli_addrs = [''127.0.0.1:7101'', ''127.0.0.1:7102'', ''127.0.0.1:7103''], cli_stream_id = 7,
     cli_epoch = 1, cli_payload_bytes = 1024, cli_writes = 10000, cli_duration_secs = 0, cli_readers = 3,
     cli_think_us = 0, cli_report_ms = 1000\<rparr>"

text \<open>The assertions at the start of \<open>main\<close>.\<close>

definition cli_ok :: "bench_cli \<Rightarrow> bool" where
  "cli_ok c = (cli_addrs c \<noteq> [] \<and> cli_readers c > 0 \<and> (cli_duration_secs c > 0 \<or> cli_writes c > 0))"

subsection \<open>A connection\<close>

text \<open>The sockets of the standard library: what connecting, setting an option, writing and reading
  exactly some bytes give, in a world of type \<open>'w\<close>. A stream is named by a number.\<close>

datatype socket_option = ReadTimeoutSecs nat | WriteTimeoutSecs nat | NoDelay bool

record 'w sockets =
  so_connect :: "string \<Rightarrow> 'w \<Rightarrow> (unit + nat) \<times> 'w"
  so_set :: "socket_option \<Rightarrow> nat \<Rightarrow> 'w \<Rightarrow> (unit + unit) \<times> 'w"
  so_write_all :: "bytes \<Rightarrow> nat \<Rightarrow> 'w \<Rightarrow> (unit + unit) \<times> 'w"
  so_read_exact :: "nat \<Rightarrow> nat \<Rightarrow> 'w \<Rightarrow> (unit + bytes) \<times> 'w"

definition bench_connect :: "'w sockets \<Rightarrow> string \<Rightarrow> 'w \<Rightarrow> (unit + nat) \<times> 'w" where
  "bench_connect so addr w =
     and_then (so_connect so addr w) (\<lambda>stream w.
     and_then (so_set so (ReadTimeoutSecs 2) stream w) (\<lambda>_ w.
     and_then (so_set so (WriteTimeoutSecs 2) stream w) (\<lambda>_ w.
     and_then (so_set so (NoDelay True) stream w) (\<lambda>_ w. (Inr stream, w)))))"

definition send_on_stream :: "'w sockets \<Rightarrow> nat \<Rightarrow> request \<Rightarrow> 'w \<Rightarrow> (unit fault + response) \<times> 'w" where
  "send_on_stream so stream req w =
     and_then (map_err Err (so_write_all so (encode_request req) stream w)) (\<lambda>_ w.
     and_then (map_err Err (so_read_exact so RESPONSE_HEADER_SIZE stream w)) (\<lambda>header w.
     let payload_len = unat (of_be32 (subslice header 22 26)) in
     and_then (if payload_len > 0 then map_err Err (so_read_exact so payload_len stream w) else (Inr [], w))
       (\<lambda>payload w.
     (case decode_response (header @ payload) of Inl _ \<Rightarrow> (Inl Panic, w) | Inr resp \<Rightarrow> (Inr resp, w)))))"

record bench_connection =
  bc_addr :: string
  bc_stream :: "nat option"

definition bench_connection_new :: "string \<Rightarrow> bench_connection" where
  "bench_connection_new addr = \<lparr>bc_addr = addr, bc_stream = None\<rparr>"

definition bench_set_addr :: "string \<Rightarrow> bench_connection \<Rightarrow> bench_connection" where
  "bench_set_addr addr conn =
     (if bc_addr conn \<noteq> addr then conn\<lparr>bc_addr := addr, bc_stream := None\<rparr> else conn)"

definition bench_send ::
  "'w sockets \<Rightarrow> request \<Rightarrow> bench_connection \<times> 'w \<Rightarrow> (unit fault + response) \<times> bench_connection \<times> 'w" where
  "bench_send so req = (\<lambda>(conn, w).
     (case (case bc_stream conn of
              None \<Rightarrow> bench_connect so (bc_addr conn) w | Some stream \<Rightarrow> (Inr stream, w)) of
        (Inl e, w) \<Rightarrow> (Inl (Err e), conn, w)
      | (Inr stream, w) \<Rightarrow>
          (case send_on_stream so stream req w of
             (Inl e, w) \<Rightarrow> (Inl e, conn\<lparr>bc_stream := None\<rparr>, w)
           | (Inr resp, w) \<Rightarrow> (Inr resp, conn\<lparr>bc_stream := Some stream\<rparr>, w))))"

text \<open>\<open>discover_leader\<close> asks the addresses in turn, each on a connection of its own.\<close>

fun discover_leader_at ::
  "'w sockets \<Rightarrow> u64 \<Rightarrow> nat \<Rightarrow> string list \<Rightarrow> 'w \<Rightarrow> (unit fault + nat option) \<times> 'w" where
  "discover_leader_at so sid idx [] w = (Inr None, w)"
| "discover_leader_at so sid idx (addr # addrs) w =
     (case bench_send so (read_request sid 1 0) (bench_connection_new addr, w) of
        (Inl Panic, _, w) \<Rightarrow> (Inl Panic, w)
      | (Inl (Err _), _, w) \<Rightarrow> discover_leader_at so sid (idx + 1) addrs w
      | (Inr resp, _, w) \<Rightarrow>
          if resp_status resp \<noteq> ErrNotLeader then (Inr (Some idx), w)
          else discover_leader_at so sid (idx + 1) addrs w)"

definition discover_leader :: "'w sockets \<Rightarrow> string list \<Rightarrow> u64 \<Rightarrow> 'w \<Rightarrow> (unit fault + nat option) \<times> 'w" where
  "discover_leader so addrs sid w = discover_leader_at so sid 0 addrs w"

text \<open>What follows an answer that sends a thread elsewhere: \<open>discover_leader(..).unwrap_or(leader_hint + 1)\<close>
  and \<open>conn.stream = None\<close>.\<close>

definition look_elsewhere ::
  "'w sockets \<Rightarrow> bench_cli \<Rightarrow> nat \<Rightarrow> bench_connection \<times> 'w \<Rightarrow> (unit fault + nat \<times> bench_connection) \<times> 'w" where
  "look_elsewhere so cli hint = (\<lambda>(conn, w).
     and_then (discover_leader so (cli_addrs cli) (cli_stream_id cli) w) (\<lambda>found w.
       (Inr (case found of Some idx \<Rightarrow> idx | None \<Rightarrow> hint + 1, conn\<lparr>bc_stream := None\<rparr>), w)))"

definition hinted_addr :: "bench_cli \<Rightarrow> nat \<Rightarrow> string" where
  "hinted_addr cli hint = cli_addrs cli ! (hint mod length (cli_addrs cli))"

subsection \<open>The threads\<close>

text \<open>The atomics they share.\<close>

record bench_shared =
  bs_done :: bool
  bs_highest_written :: u64
  bs_highest_read :: "u64 list"
  bs_write_errors :: u64
  bs_read_errors :: "u64 list"

definition shared_new :: "bench_cli \<Rightarrow> bench_shared" where
  "shared_new cli = \<lparr>bs_done = False, bs_highest_written = 0, bs_highest_read = replicate (cli_readers cli) 0,
     bs_write_errors = 0, bs_read_errors = replicate (cli_readers cli) 0\<rparr>"

record bench_writer =
  bw_leader_hint :: nat
  bw_conn :: bench_connection
  bw_issued :: u64

definition bench_writer_new :: "bench_cli \<Rightarrow> bench_writer" where
  "bench_writer_new cli = \<lparr>bw_leader_hint = 0, bw_conn = bench_connection_new (cli_addrs cli ! 0), bw_issued = 0\<rparr>"

text \<open>The head of the writer's loop, given whether the deadline has passed.\<close>

definition writer_breaks :: "bench_cli \<Rightarrow> bool \<Rightarrow> bench_writer \<Rightarrow> bool" where
  "writer_breaks cli expired wr =
     (if cli_duration_secs cli > 0 then expired else bw_issued wr \<ge> cli_writes cli)"

text \<open>The rest of one pass of the writer's loop.\<close>

definition writer_turn ::
  "'w sockets \<Rightarrow> bench_cli \<Rightarrow> bench_writer \<Rightarrow> bench_shared \<times> 'w \<Rightarrow> (unit fault + bench_writer) \<times> bench_shared \<times> 'w" where
  "writer_turn so cli wr = (\<lambda>(sh, w).
     let hint = bw_leader_hint wr;
         conn = bench_set_addr (hinted_addr cli hint) (bw_conn wr);
         req = append_request (cli_stream_id cli) (cli_epoch cli) (replicate (cli_payload_bytes cli) 118);
         failed = sh\<lparr>bs_write_errors := bs_write_errors sh + 1\<rparr>;
         moved = (\<lambda>sh conn w. and_then (beside sh (look_elsewhere so cli hint (conn, w))) (\<lambda>(hint, conn) w.
           (Inr (wr\<lparr>bw_leader_hint := hint, bw_conn := conn\<rparr>), w))) in
     (case bench_send so req (conn, w) of
        (Inl Panic, _, w) \<Rightarrow> (Inl Panic, sh, w)
      | (Inl (Err _), conn, w) \<Rightarrow> moved failed conn w
      | (Inr resp, conn, w) \<Rightarrow>
          if resp_status resp = Ok then
            (Inr (wr\<lparr>bw_conn := conn, bw_issued := bw_issued wr + 1\<rparr>),
             sh\<lparr>bs_highest_written := resp_offset resp + 1\<rparr>, w)
          else if resp_status resp = ErrNotLeader then moved sh conn w
          else moved failed conn w))"

record bench_reader =
  br_next_lsn :: u64
  br_leader_hint :: nat
  br_conn :: bench_connection

definition bench_reader_new :: "bench_cli \<Rightarrow> nat \<Rightarrow> bench_reader" where
  "bench_reader_new cli i =
     (let hint = i mod length (cli_addrs cli) in
      \<lparr>br_next_lsn = 0, br_leader_hint = hint, br_conn = bench_connection_new (cli_addrs cli ! hint)\<rparr>)"

text \<open>The head of the reader's loop after \<open>available\<close> has been loaded: it ends, it sleeps and
  starts over, or it reads.\<close>

datatype reader_choice = ReaderEnds | ReaderSleeps | ReaderReads

definition reader_head :: "bench_shared \<Rightarrow> u64 \<Rightarrow> bench_reader \<Rightarrow> reader_choice" where
  "reader_head sh available rd =
     (if bs_done sh \<and> br_next_lsn rd \<ge> available then ReaderEnds
      else if br_next_lsn rd \<ge> available then ReaderSleeps else ReaderReads)"

definition reader_turn ::
  "'w sockets \<Rightarrow> bench_cli \<Rightarrow> nat \<Rightarrow> bench_reader \<Rightarrow> bench_shared \<times> 'w \<Rightarrow> (unit fault + bench_reader) \<times> bench_shared \<times> 'w" where
  "reader_turn so cli i rd = (\<lambda>(sh, w).
     let hint = br_leader_hint rd;
         conn = bench_set_addr (hinted_addr cli hint) (br_conn rd);
         failed = sh\<lparr>bs_read_errors := (bs_read_errors sh)[i := bs_read_errors sh ! i + 1]\<rparr>;
         moved = (\<lambda>sh conn w. and_then (beside sh (look_elsewhere so cli hint (conn, w))) (\<lambda>(hint, conn) w.
           (Inr (rd\<lparr>br_leader_hint := hint, br_conn := conn\<rparr>), w))) in
     (case bench_send so (read_request (cli_stream_id cli) (cli_epoch cli) (br_next_lsn rd)) (conn, w) of
        (Inl Panic, _, w) \<Rightarrow> (Inl Panic, sh, w)
      | (Inl (Err _), conn, w) \<Rightarrow> moved failed conn w
      | (Inr resp, conn, w) \<Rightarrow>
          if resp_status resp = Ok then
            (Inr (rd\<lparr>br_next_lsn := resp_offset resp + 1, br_conn := conn\<rparr>),
             sh\<lparr>bs_highest_read := (bs_highest_read sh)[i := resp_offset resp + 1]\<rparr>, w)
          else if resp_status resp = ErrNotLeader then moved sh conn w
          else if resp_status resp = ErrNotFound then
            (if br_next_lsn rd \<ge> bs_highest_written sh then (Inr (rd\<lparr>br_conn := conn\<rparr>), sh, w)
             else (Inr (rd\<lparr>br_conn := conn\<lparr>bc_stream := None\<rparr>\<rparr>), failed, w))
          else moved failed conn w))"

text \<open>The reporter after its loads: the smallest read position, the lag, and whether it ends.\<close>

definition min_read :: "u64 list \<Rightarrow> u64" where
  "min_read reads = (case reads of [] \<Rightarrow> 0 | x # xs \<Rightarrow> foldl min x xs)"

definition max_lag :: "u64 \<Rightarrow> u64 list \<Rightarrow> u64" where
  "max_lag writes reads = saturating_sub writes (min_read reads)"

definition reporter_breaks :: "bench_shared \<Rightarrow> u64 \<Rightarrow> u64 list \<Rightarrow> bool" where
  "reporter_breaks sh writes reads = (bs_done sh \<and> max_lag writes reads = 0)"

subsection \<open>The benchmark as its threads interleave\<close>

datatype 'a bench_thread = Running 'a | Ended 'a | Panicked

datatype reporter = Asleep | Loading u64 "u64 list" | ReporterEnded

text \<open>A reader is kept with what it has loaded as \<open>available\<close>.\<close>

record 'w bench_run =
  bm_shared :: bench_shared
  bm_world :: 'w
  bm_writer :: "bench_writer bench_thread"
  bm_readers :: "(bench_reader \<times> u64 option) bench_thread list"
  bm_reporter :: reporter

definition bench_start :: "bench_cli \<Rightarrow> 'w \<Rightarrow> 'w bench_run" where
  "bench_start cli w = \<lparr>bm_shared = shared_new cli, bm_world = w, bm_writer = Running (bench_writer_new cli),
     bm_readers = map (\<lambda>i. Running (bench_reader_new cli i, None)) [0..<cli_readers cli], bm_reporter = Asleep\<rparr>"

text \<open>The steps: each loads or stores at most one atomic the other threads store to.\<close>

inductive bench_step :: "'w sockets \<Rightarrow> bench_cli \<Rightarrow> 'w bench_run \<Rightarrow> 'w bench_run \<Rightarrow> bool" for so cli where
  writes: "bm_writer b = Running wr \<Longrightarrow> \<not> writer_breaks cli expired wr \<Longrightarrow>
    writer_turn so cli wr (bm_shared b, bm_world b) = (r, sh, w) \<Longrightarrow>
    bench_step so cli b (b\<lparr>bm_shared := sh, bm_world := w,
      bm_writer := (case r of Inl _ \<Rightarrow> Panicked | Inr wr \<Rightarrow> Running wr)\<rparr>)"
| stops_writing: "bm_writer b = Running wr \<Longrightarrow> writer_breaks cli expired wr \<Longrightarrow>
    bench_step so cli b (b\<lparr>bm_shared := (bm_shared b)\<lparr>bs_done := True\<rparr>, bm_writer := Ended wr\<rparr>)"
| looks: "i < length (bm_readers b) \<Longrightarrow> bm_readers b ! i = Running (rd, None) \<Longrightarrow>
    bench_step so cli b (b\<lparr>bm_readers := (bm_readers b)
      [i := Running (rd, Some (bs_highest_written (bm_shared b)))]\<rparr>)"
| stops_reading: "i < length (bm_readers b) \<Longrightarrow> bm_readers b ! i = Running (rd, Some available) \<Longrightarrow>
    reader_head (bm_shared b) available rd = ReaderEnds \<Longrightarrow>
    bench_step so cli b (b\<lparr>bm_readers := (bm_readers b)[i := Ended (rd, Some available)]\<rparr>)"
| sleeps: "i < length (bm_readers b) \<Longrightarrow> bm_readers b ! i = Running (rd, Some available) \<Longrightarrow>
    reader_head (bm_shared b) available rd = ReaderSleeps \<Longrightarrow>
    bench_step so cli b (b\<lparr>bm_readers := (bm_readers b)[i := Running (rd, None)]\<rparr>)"
| reads: "i < length (bm_readers b) \<Longrightarrow> bm_readers b ! i = Running (rd, Some available) \<Longrightarrow>
    reader_head (bm_shared b) available rd = ReaderReads \<Longrightarrow>
    reader_turn so cli i rd (bm_shared b, bm_world b) = (r, sh, w) \<Longrightarrow>
    bench_step so cli b (b\<lparr>bm_shared := sh, bm_world := w,
      bm_readers := (bm_readers b)[i := (case r of Inl _ \<Rightarrow> Panicked | Inr rd \<Rightarrow> Running (rd, None))]\<rparr>)"
| wakes: "bm_reporter b = Asleep \<Longrightarrow>
    bench_step so cli b (b\<lparr>bm_reporter := Loading (bs_highest_written (bm_shared b)) []\<rparr>)"
| loads: "bm_reporter b = Loading written reads \<Longrightarrow> length reads < length (bs_highest_read (bm_shared b)) \<Longrightarrow>
    bench_step so cli b (b\<lparr>bm_reporter := Loading written
      (reads @ [bs_highest_read (bm_shared b) ! length reads])\<rparr>)"
| reports: "bm_reporter b = Loading written reads \<Longrightarrow> length reads = length (bs_highest_read (bm_shared b)) \<Longrightarrow>
    bench_step so cli b (b\<lparr>bm_reporter :=
      if reporter_breaks (bm_shared b) written reads then ReporterEnded else Asleep\<rparr>)"

inductive bench_reaches :: "'w sockets \<Rightarrow> bench_cli \<Rightarrow> 'w bench_run \<Rightarrow> 'w bench_run \<Rightarrow> bool" for so cli b where
  bench_here: "bench_reaches so cli b b"
| bench_further: "bench_reaches so cli b c \<Longrightarrow> bench_step so cli c d \<Longrightarrow> bench_reaches so cli b d"

text \<open>The joins at the end of \<open>main\<close>: of the writer, of the readers, of the reporter.\<close>

fun has_ended :: "'a bench_thread \<Rightarrow> bool" where
  "has_ended (Ended _) = True"
| "has_ended _ = False"

definition bench_joins :: "'w bench_run \<Rightarrow> bool" where
  "bench_joins b = (has_ended (bm_writer b) \<and> list_all has_ended (bm_readers b) \<and> bm_reporter b = ReporterEnded)"

subsection \<open>What holds in every run\<close>

text \<open>The atomic of a reader is its position, and one that has ended has read as far as it had last
  looked.\<close>

fun reader_at :: "u64 \<Rightarrow> (bench_reader \<times> u64 option) bench_thread \<Rightarrow> bool" where
  "reader_at lsn (Running (rd, _)) = (lsn = br_next_lsn rd)"
| "reader_at lsn (Ended (rd, av)) = (lsn = br_next_lsn rd \<and> the av \<le> lsn)"
| "reader_at lsn Panicked = True"

definition bench_ok :: "bench_cli \<Rightarrow> 'w bench_run \<Rightarrow> bool" where
  "bench_ok cli b =
     (length (bm_readers b) = cli_readers cli \<and> length (bs_highest_read (bm_shared b)) = cli_readers cli \<and>
      bs_done (bm_shared b) = has_ended (bm_writer b) \<and>
      (\<forall>wr. bm_writer b = Ended wr \<longrightarrow> cli_duration_secs cli = 0 \<longrightarrow> bw_issued wr = cli_writes cli) \<and>
      (\<forall>wr. bm_writer b = Running wr \<longrightarrow> cli_duration_secs cli = 0 \<longrightarrow> bw_issued wr \<le> cli_writes cli) \<and>
      (\<forall>i < cli_readers cli. reader_at (bs_highest_read (bm_shared b) ! i) (bm_readers b ! i)))"

lemma writer_turn_effect:
  assumes "writer_turn so cli wr (sh, w) = (r, sh', w')"
  shows "bs_done sh' = bs_done sh \<and> bs_highest_read sh' = bs_highest_read sh \<and>
    (\<forall>wr'. r = Inr wr' \<longrightarrow> bw_issued wr' = bw_issued wr \<or> bw_issued wr' = bw_issued wr + 1)"
  using assms
  by (auto simp: writer_turn_def Let_def beside_def and_then_def split: prod.splits sum.splits fault.splits if_splits)

lemma reader_turn_effect:
  assumes "reader_turn so cli i rd (sh, w) = (r, sh', w')" and "bs_highest_read sh ! i = br_next_lsn rd"
    and "i < length (bs_highest_read sh)"
  shows "bs_done sh' = bs_done sh \<and> length (bs_highest_read sh') = length (bs_highest_read sh) \<and>
    (\<forall>j. j \<noteq> i \<longrightarrow> bs_highest_read sh' ! j = bs_highest_read sh ! j) \<and>
    (\<forall>rd'. r = Inr rd' \<longrightarrow> bs_highest_read sh' ! i = br_next_lsn rd')"
  using assms
  by (auto simp: reader_turn_def Let_def beside_def and_then_def split: prod.splits sum.splits fault.splits if_splits)

lemma issued_below:
  "\<not> writer_breaks cli expired wr \<Longrightarrow> cli_duration_secs cli = 0 \<Longrightarrow> bw_issued wr + 1 \<le> cli_writes cli"
  by (simp add: writer_breaks_def not_le inc_le)

lemma bench_step_ok:
  assumes "bench_step so cli b c" and "bench_ok cli b"
  shows "bench_ok cli c"
  using assms(1)
proof cases
  case (writes wr expired r sh w)
  have e: "bs_done sh = bs_done (bm_shared b)" "bs_highest_read sh = bs_highest_read (bm_shared b)"
    "\<forall>wr'. r = Inr wr' \<longrightarrow> bw_issued wr' = bw_issued wr \<or> bw_issued wr' = bw_issued wr + 1"
    using writer_turn_effect [OF writes(4)] by auto
  have "bw_issued wr' \<le> cli_writes cli" if "r = Inr wr'" "cli_duration_secs cli = 0" for wr'
    using that e(3) issued_below [OF writes(3)] assms(2) writes(2) by (auto simp: bench_ok_def)
  with e(1,2) assms(2) writes(2) show ?thesis by (auto simp: writes(1) bench_ok_def split: sum.split)
next
  case (stops_writing wr expired)
  with assms(2) show ?thesis by (auto simp: bench_ok_def writer_breaks_def split: if_splits)
next
  case (looks i rd)
  with assms(2) show ?thesis by (auto simp: bench_ok_def nth_list_update)
next
  case (stops_reading i rd available)
  with assms(2) show ?thesis by (auto simp: bench_ok_def nth_list_update reader_head_def split: if_splits)
next
  case (sleeps i rd available)
  with assms(2) show ?thesis by (auto simp: bench_ok_def nth_list_update)
next
  case (reads i rd available r sh w)
  from assms(2) reads(2,3) have "bs_highest_read (bm_shared b) ! i = br_next_lsn rd"
    "i < length (bs_highest_read (bm_shared b))" by (force simp: bench_ok_def)+
  from reader_turn_effect [OF reads(5) this] assms(2) reads(2) show ?thesis
    by (auto simp: reads(1) bench_ok_def nth_list_update split: sum.split)
qed (use assms(2) in \<open>simp_all add: bench_ok_def\<close>)

lemma bench_start_ok: "bench_ok cli (bench_start cli w)"
  by (simp add: bench_ok_def bench_start_def shared_new_def bench_writer_new_def bench_reader_new_def Let_def)

lemma bench_reaches_ok: "bench_reaches so cli b c \<Longrightarrow> bench_ok cli b \<Longrightarrow> bench_ok cli c"
  by (induction rule: bench_reaches.induct) (auto intro: bench_step_ok)

lemma bench_reaches_trans:
  "bench_reaches so cli c d \<Longrightarrow> bench_reaches so cli b c \<Longrightarrow> bench_reaches so cli b d"
  by (induction rule: bench_reaches.induct) (auto intro: bench_further)

lemma bench_reaches_step: "bench_step so cli b c \<Longrightarrow> bench_reaches so cli b c"
  by (rule bench_further [OF bench_here])

subsection \<open>When the benchmark ends\<close>

lemma max_lag_zero: "max_lag writes reads = 0 \<longleftrightarrow> (if reads = [] then writes = 0 else list_all (\<lambda>r. writes \<le> r) reads)"
proof -
  have "writes \<le> foldl min x xs \<longleftrightarrow> writes \<le> x \<and> list_all (\<lambda>r. writes \<le> r) xs" for x :: u64 and xs
    by (induction xs arbitrary: x) auto
  moreover have "saturating_sub a b = 0 \<longleftrightarrow> a \<le> b" for a b :: u64
    by (auto simp: saturating_sub_def)
  ultimately show ?thesis by (cases reads) (simp_all add: max_lag_def min_read_def)
qed

text \<open>Only the reporter is left. What it has loaded is what stays.\<close>

definition reporter_alone :: "'w bench_run \<Rightarrow> bool" where
  "reporter_alone b = (has_ended (bm_writer b) \<and> list_all has_ended (bm_readers b) \<and>
     (case bm_reporter b of
        Asleep \<Rightarrow> True
      | Loading written reads \<Rightarrow> written = bs_highest_written (bm_shared b) \<and>
          reads = take (length reads) (bs_highest_read (bm_shared b))
      | ReporterEnded \<Rightarrow> max_lag (bs_highest_written (bm_shared b)) (bs_highest_read (bm_shared b)) = 0))"

lemma reporter_alone_step:
  assumes "bench_step so cli b c" and "reporter_alone b"
  shows "reporter_alone c \<and> bm_shared c = bm_shared b"
  using assms(1)
proof cases
  case (loads written reads)
  then have "take (Suc (length reads)) (bs_highest_read (bm_shared b)) =
    take (length reads) (bs_highest_read (bm_shared b)) @ [bs_highest_read (bm_shared b) ! length reads]"
    by (simp add: take_Suc_conv_app_nth)
  with loads assms(2) show ?thesis by (auto simp: reporter_alone_def)
next
  case (reports written reads)
  with assms(2) show ?thesis by (auto simp: reporter_alone_def reporter_breaks_def)
qed (use assms(2) in \<open>auto simp: reporter_alone_def list_all_length\<close>)

lemma reporter_alone_reaches:
  "bench_reaches so cli b c \<Longrightarrow> reporter_alone b \<Longrightarrow> reporter_alone c \<and> bm_shared c = bm_shared b"
  by (induction rule: bench_reaches.induct) (auto dest: reporter_alone_step)

lemma reporter_loads:
  assumes "bm_reporter b = Loading written reads"
    and "reads = take (length reads) (bs_highest_read (bm_shared b))" and "n = length (bs_highest_read (bm_shared b)) - length reads"
  shows "bench_reaches so cli b (b\<lparr>bm_reporter := Loading written (bs_highest_read (bm_shared b))\<rparr>)"
  using assms
proof (induction n arbitrary: b reads)
  case 0
  then have "length (bs_highest_read (bm_shared b)) \<le> length reads" by simp
  with 0(2) have "reads = bs_highest_read (bm_shared b)" by simp
  with 0(1) show ?case using bench_here [of so cli b] by (metis bench_run.surjective bench_run.update_convs(5))
next
  case (Suc n)
  let ?rs = "bs_highest_read (bm_shared b)"
  let ?c = "b\<lparr>bm_reporter := Loading written (reads @ [?rs ! length reads])\<rparr>"
  from Suc(4) have "length reads < length ?rs" by simp
  then have step: "bench_step so cli b ?c" using Suc(2) by (intro bench_step.loads)
  have "reads @ [?rs ! length reads] = take (Suc (length reads)) ?rs"
    using Suc(3) \<open>length reads < length ?rs\<close> by (metis take_Suc_conv_app_nth)
  then have "bench_reaches so cli ?c (?c\<lparr>bm_reporter := Loading written (bs_highest_read (bm_shared ?c))\<rparr>)"
    using Suc(4) by (intro Suc(1) [of ?c "reads @ [?rs ! length reads]"]) auto
  from bench_reaches_trans [OF this bench_reaches_step [OF step]] show ?case by simp
qed

lemma reporter_ends:
  assumes "bs_done (bm_shared b)" and "bm_reporter b = Asleep"
    and "max_lag (bs_highest_written (bm_shared b)) (bs_highest_read (bm_shared b)) = 0"
  shows "bench_reaches so cli b (b\<lparr>bm_reporter := ReporterEnded\<rparr>)"
proof -
  let ?sh = "bm_shared b"
  let ?c = "b\<lparr>bm_reporter := Loading (bs_highest_written ?sh) []\<rparr>"
  let ?d = "b\<lparr>bm_reporter := Loading (bs_highest_written ?sh) (bs_highest_read ?sh)\<rparr>"
  have "bench_step so cli b ?c" using assms(2) by (rule wakes)
  moreover have "bench_reaches so cli ?c ?d" using reporter_loads [of ?c _ "[]" _ so cli] by simp
  moreover have "bench_step so cli ?d (b\<lparr>bm_reporter := ReporterEnded\<rparr>)"
    using reports [of ?d _ _ so cli] assms(1,3) by (simp add: reporter_breaks_def)
  ultimately show ?thesis by (blast intro: bench_reaches_trans bench_further bench_reaches_step)
qed

text \<open>A writer that has ended without a deadline has had \<open>--writes\<close> appends acknowledged, and a
  reader that has ended has read as far as it had last looked.\<close>

lemma ended_threads:
  assumes "bench_reaches so cli (bench_start cli w) b"
  shows "bm_writer b = Ended wr \<Longrightarrow> cli_duration_secs cli = 0 \<Longrightarrow> bw_issued wr = cli_writes cli"
    and "i < cli_readers cli \<Longrightarrow> bm_readers b ! i = Ended (rd, Some av) \<Longrightarrow> av \<le> bs_highest_read (bm_shared b) ! i"
  using bench_reaches_ok [OF assms bench_start_ok] by (fastforce simp: bench_ok_def)+

text \<open>
  C40: When the cluster benchmark comes to an end. Take any run, with any servers and any
  interleaving of the threads, to a point where the writer and all readers have ended and the
  reporter sleeps. From there \<open>main\<close> can get past its joins if and only if every reader has read
  as far as the writer has written: the reporter ends on a lag of 0, and no one is left to reduce
  it. A reader can be behind for good, since it loads \<open>highest_written\<close> before it loads
  \<open>writer_done\<close>: if the writer's last append and its end fall between the two loads, the reader
  leaves without having read that record, and the benchmark hangs.
\<close>

theorem benchmark_ends_iff_caught_up:
  assumes "cli_ok cli" and "bench_reaches so cli (bench_start cli w) b"
    and "has_ended (bm_writer b)" and "list_all has_ended (bm_readers b)" and "bm_reporter b = Asleep"
  shows "(\<exists>c. bench_reaches so cli b c \<and> bench_joins c) \<longleftrightarrow>
    (\<forall>i < cli_readers cli. bs_highest_written (bm_shared b) \<le> bs_highest_read (bm_shared b) ! i)"
proof -
  let ?sh = "bm_shared b"
  have ok: "length (bs_highest_read ?sh) = cli_readers cli" "bs_done ?sh"
    using bench_reaches_ok [OF assms(2) bench_start_ok] assms(3) by (simp_all add: bench_ok_def)
  then have "bs_highest_read ?sh \<noteq> []" using assms(1) by (auto simp: cli_ok_def)
  then have lag: "max_lag (bs_highest_written ?sh) (bs_highest_read ?sh) = 0 \<longleftrightarrow>
    (\<forall>i < cli_readers cli. bs_highest_written ?sh \<le> bs_highest_read ?sh ! i)"
    using ok(1) by (simp add: max_lag_zero list_all_length)
  have alone: "reporter_alone b" using assms(3-5) by (simp add: reporter_alone_def)
  show ?thesis
  proof
    assume "\<exists>c. bench_reaches so cli b c \<and> bench_joins c"
    then obtain c where "bench_reaches so cli b c" "bench_joins c" by blast
    with reporter_alone_reaches [OF this(1) alone] show "\<forall>i < cli_readers cli. bs_highest_written ?sh \<le> bs_highest_read ?sh ! i"
      by (auto simp flip: lag simp: bench_joins_def reporter_alone_def)
  next
    assume "\<forall>i < cli_readers cli. bs_highest_written ?sh \<le> bs_highest_read ?sh ! i"
    with lag have "bench_reaches so cli b (b\<lparr>bm_reporter := ReporterEnded\<rparr>)"
      by (intro reporter_ends [OF ok(2) assms(5)]) blast
    then show "\<exists>c. bench_reaches so cli b c \<and> bench_joins c"
      using assms(3,4) by (intro exI conjI) (assumption, simp add: bench_joins_def)
  qed
qed

text \<open>One writer of one record, one reader, and a server that has its answer ready.\<close>

definition ready_sockets :: "bytes sockets" where
  "ready_sockets = \<lparr>so_connect = (\<lambda>_ w. (Inr 3, w)), so_set = (\<lambda>_ _ w. (Inr (), w)), so_write_all = (\<lambda>_ _ w. (Inr (), w)),
     so_read_exact = (\<lambda>n _ w. if length w < n then (Inl (), []) else (Inr (take n w), drop n w))\<rparr>"

definition one_write :: bench_cli where
  "one_write = cli_default\<lparr>cli_addrs := [''a''], cli_writes := 1, cli_readers := 1\<rparr>"

definition written_answer :: bytes where
  "written_answer = encode_response \<lparr>resp_status = Ok, resp_epoch = 1, resp_offset = 0, resp_payload = []\<rparr>"

definition after_write :: bench_shared where
  "after_write = \<lparr>bs_done = False, bs_highest_written = 1, bs_highest_read = [0], bs_write_errors = 0, bs_read_errors = [0]\<rparr>"

lemma one_write_turn:
  "\<exists>wr. writer_turn ready_sockets one_write (bench_writer_new one_write) (shared_new one_write, written_answer) =
    (Inr wr, after_write, []) \<and> writer_breaks one_write False wr"
  by (simp add: writer_turn_def one_write_def cli_default_def bench_writer_new_def shared_new_def written_answer_def
      ready_sockets_def bench_send_def bench_set_addr_def bench_connection_new_def hinted_addr_def bench_connect_def
      send_on_stream_def encode_response_def decode_response_def wire_defs byte_simps status_from_u8_def status_u8_def
      after_write_def writer_breaks_def Let_def)

text \<open>The reader has loaded 0, the writer has written and ended, the reader ends.\<close>

definition left_early :: "bench_writer \<Rightarrow> bytes bench_run" where
  "left_early wr = \<lparr>bm_shared = after_write\<lparr>bs_done := True\<rparr>, bm_world = [], bm_writer = Ended wr,
     bm_readers = [Ended (bench_reader_new one_write 0, Some 0)], bm_reporter = Asleep\<rparr>"

lemma left_early_reached:
  "\<exists>wr. bench_reaches ready_sockets one_write (bench_start one_write written_answer) (left_early wr)"
proof -
  from one_write_turn obtain wr where
    t: "writer_turn ready_sockets one_write (bench_writer_new one_write) (shared_new one_write, written_answer) = (Inr wr, after_write, [])"
      "writer_breaks one_write False wr" by blast
  let ?rd = "bench_reader_new one_write 0"
  let ?b = "bench_start one_write written_answer"
  let ?c = "?b\<lparr>bm_readers := [Running (?rd, Some 0)]\<rparr>"
  let ?d = "?c\<lparr>bm_shared := after_write, bm_world := [], bm_writer := Running wr\<rparr>"
  let ?e = "?d\<lparr>bm_shared := after_write\<lparr>bs_done := True\<rparr>, bm_writer := Ended wr\<rparr>"
  note start = bench_start_def shared_new_def
  have "cli_readers one_write = 1" by (simp add: one_write_def)
  then have 1: "bench_step ready_sockets one_write ?b ?c"
    using bench_step.looks [of 0 ?b ?rd ready_sockets one_write] by (simp add: start)
  have "\<not> writer_breaks one_write False (bench_writer_new one_write)"
    by (simp add: writer_breaks_def one_write_def cli_default_def bench_writer_new_def)
  then have 2: "bench_step ready_sockets one_write ?c ?d"
    using bench_step.writes [of ?c "bench_writer_new one_write" one_write False ready_sockets "Inr wr" after_write "[]"] t(1)
    by (simp add: bench_start_def)
  have 3: "bench_step ready_sockets one_write ?d ?e"
    using bench_step.stops_writing [of ?d wr one_write False ready_sockets] t(2) by simp
  have 4: "bench_step ready_sockets one_write ?e (left_early wr)"
    using bench_step.stops_reading [of 0 ?e ?rd 0 ready_sockets one_write]
    by (simp add: reader_head_def left_early_def bench_reader_new_def bench_start_def Let_def)
  show ?thesis by (rule exI) (rule bench_further [OF bench_further [OF bench_further [OF bench_reaches_step [OF 1] 2] 3] 4])
qed

theorem benchmark_ends_iff_caught_up_witness:
  "\<exists>b. bench_reaches ready_sockets one_write (bench_start one_write written_answer) b \<and>
     has_ended (bm_writer b) \<and> list_all has_ended (bm_readers b) \<and> bm_reporter b = Asleep \<and>
     \<not> (\<exists>c. bench_reaches ready_sockets one_write b c \<and> bench_joins c)"
proof -
  from left_early_reached obtain wr where r:
    "bench_reaches ready_sockets one_write (bench_start one_write written_answer) (left_early wr)" by blast
  have "cli_ok one_write" "has_ended (bm_writer (left_early wr))" "list_all has_ended (bm_readers (left_early wr))"
    "bm_reporter (left_early wr) = Asleep"
    by (simp_all add: cli_ok_def one_write_def cli_default_def left_early_def)
  moreover from benchmark_ends_iff_caught_up [OF this(1) r this(2-4)]
  have "\<not> (\<exists>c. bench_reaches ready_sockets one_write (left_early wr) c \<and> bench_joins c)"
    by (simp add: one_write_def left_early_def after_write_def)
  ultimately show ?thesis using r by blast
qed

end
