(* ===== verification/UnitTests.thy ===== *)
theory UnitTests
  imports WalBench Router Placement
begin

text \<open>
  The repository's own unit tests (the \<open>#[cfg(test)]\<close> modules), run on the model: each is a
  definition with the test's inputs and assertions, and a lemma that it passes. They compare
  the model with what the authors state of the code. The checksum and the hash are parameters,
  and the protobuf functions where a test needs them. \<open>test_route_distribution\<close> counts values of
  xxh3 and has no counterpart.
\<close>

subsection \<open>Client protocol\<close>

definition test_request_roundtrip :: bool where
  "test_request_roundtrip =
     (let req = \<lparr>req_op = Write, req_stream_id = 99, req_epoch = 7, req_offset = 0,
                 req_payload = [116, 101, 115, 116, 45, 118, 97, 108, 117, 101]\<rparr>;
          encoded = encode_request req in
      case decode_request encoded of
        Inr (Some (decoded, consumed)) \<Rightarrow>
          consumed = length encoded \<and> req_op decoded = Write \<and> req_stream_id decoded = 99 \<and>
          req_epoch decoded = 7 \<and> req_offset decoded = 0 \<and>
          req_payload decoded = [116, 101, 115, 116, 45, 118, 97, 108, 117, 101]
      | _ \<Rightarrow> False)"

definition test_response_roundtrip :: bool where
  "test_response_roundtrip =
     (let resp = \<lparr>resp_status = Ok, resp_epoch = 7, resp_offset = 42, resp_payload = [97, 98, 99]\<rparr> in
      case decode_response (encode_response resp) of
        Inr decoded \<Rightarrow> resp_status decoded = Ok \<and> resp_epoch decoded = 7 \<and> resp_offset decoded = 42 \<and>
          resp_payload decoded = [97, 98, 99]
      | _ \<Rightarrow> False)"

definition test_status_payload_roundtrip :: bool where
  "test_status_payload_roundtrip =
     (let payload = \<lparr>sp_next_stream_lsn = 11, sp_commit_stream_lsn = 9, sp_consumed_stream_lsn = 7,
            sp_commit_index = 100, sp_last_applied = 99\<rparr> in
      case decode_stream_status_payload (encode_stream_status_payload payload) of
        Inr decoded \<Rightarrow> decoded = payload | _ \<Rightarrow> False)"

definition test_incomplete_request :: bool where
  "test_incomplete_request = (decode_request (replicate 5 0) = Inr None)"

definition test_bad_magic :: bool where
  "test_bad_magic =
     (decode_request (copy_at (replicate REQUEST_HEADER_SIZE 0) 0 (be32 0xDEADBEEF)) = Inl (BadMagic 0xDEADBEEF))"

lemma codec_tests:
  "test_request_roundtrip" "test_response_roundtrip" "test_status_payload_roundtrip"
  "test_incomplete_request" "test_bad_magic"
proof -
  show "test_request_roundtrip"
    using decode_encode_request [of "\<lparr>req_op = Write, req_stream_id = 99, req_epoch = 7, req_offset = 0,
        req_payload = [116, 101, 115, 116, 45, 118, 97, 108, 117, 101]\<rparr>" "[]"]
    by (simp add: test_request_roundtrip_def request_fits_def payload_fits_def Let_def)
  show "test_response_roundtrip"
    using decode_encode_response [of "\<lparr>resp_status = Ok, resp_epoch = 7, resp_offset = 42, resp_payload = [97, 98, 99]\<rparr>" "[]"]
    by (simp add: test_response_roundtrip_def payload_fits_def)
  show "test_status_payload_roundtrip"
    using decode_stream_status_roundtrip [of _ "[]"] by (simp add: test_status_payload_roundtrip_def)
  show "test_incomplete_request"
    by (simp add: test_incomplete_request_def decode_request_def wire_defs)
  have "copy_at (replicate REQUEST_HEADER_SIZE 0) 0 (be32 0xDEADBEEF) =
      be32 0xDEADBEEF @ replicate (REQUEST_HEADER_SIZE - 4) 0" by (simp add: copy_at_0)
  then show "test_bad_magic"
    by (simp add: test_bad_magic_def decode_request_def wire_defs byte_simps)
qed

subsection \<open>Replicated command\<close>

definition append_command_roundtrip_test :: bool where
  "append_command_roundtrip_test =
     (let cmd = \<lparr>cmd_request_id = 10, cmd_stream_id = 7, cmd_epoch = 3, cmd_stream_lsn = 9, cmd_payload = [97, 98, 99]\<rparr> in
      case decode_append_command (encode_append_command cmd) of
        Inr decoded \<Rightarrow> cmd_request_id decoded = 10 \<and> cmd_stream_id decoded = 7 \<and> cmd_epoch decoded = 3 \<and>
          cmd_stream_lsn decoded = 9 \<and> cmd_payload decoded = [97, 98, 99]
      | _ \<Rightarrow> False)"

subsection \<open>WAL records and segments\<close>

definition test_record_roundtrip :: "(bytes \<Rightarrow> u32) \<Rightarrow> bool" where
  "test_record_roundtrip crc =
     (let r = \<lparr>wr_stream_id = 7, wr_epoch = 2, wr_entry_id = 42, wr_stream_lsn = 3, wr_timestamp_ns = 1234567890,
               wr_payload = [119, 111, 114, 108, 100]\<rparr> in
      case encode_to_vec crc r of
        None \<Rightarrow> False
      | Some encoded \<Rightarrow>
          length encoded = encoded_size r \<and>
          (case decode_record crc encoded of
             Inr (decoded, consumed) \<Rightarrow> consumed = length encoded \<and> wr_stream_id decoded = 7 \<and> wr_epoch decoded = 2 \<and>
               wr_entry_id decoded = 42 \<and> wr_stream_lsn decoded = 3 \<and> wr_timestamp_ns decoded = 1234567890 \<and>
               wr_payload decoded = [119, 111, 114, 108, 100]
           | _ \<Rightarrow> False))"

definition test_record_crc_corruption :: "(bytes \<Rightarrow> u32) \<Rightarrow> bool" where
  "test_record_crc_corruption crc =
     (let r = \<lparr>wr_stream_id = 1, wr_epoch = 1, wr_entry_id = 1, wr_stream_lsn = 1, wr_timestamp_ns = 0,
               wr_payload = [118]\<rparr> in
      case encode_to_vec crc r of
        None \<Rightarrow> False
      | Some encoded \<Rightarrow>
          (case decode_record crc (encoded[10 := xor (encoded ! 10) 0xFF]) of
             Inl (Err (CrcMismatch _ _)) \<Rightarrow> True | _ \<Rightarrow> False))"

definition test_empty_payload :: "(bytes \<Rightarrow> u32) \<Rightarrow> bool" where
  "test_empty_payload crc =
     (let r = \<lparr>wr_stream_id = 0, wr_epoch = 1, wr_entry_id = 0, wr_stream_lsn = 0, wr_timestamp_ns = 0, wr_payload = []\<rparr> in
      case encode_to_vec crc r of
        None \<Rightarrow> False
      | Some encoded \<Rightarrow> (case decode_record crc encoded of Inr (decoded, _) \<Rightarrow> wr_payload decoded = [] | _ \<Rightarrow> False))"

definition test_segment_filename :: bool where
  "test_segment_filename = (segment_filename 3 1024 = ''0003_00000000000000001024.wal'')"

definition test_parse_segment_filename :: bool where
  "test_parse_segment_filename =
     (case parse_segment_filename ''0003_00000000000000001024.wal'' of
        Some (sid, lsn) \<Rightarrow> sid = 3 \<and> lsn = 1024 | None \<Rightarrow> False)"

definition test_header_roundtrip :: bool where
  "test_header_roundtrip =
     (case decode_segment_header (encode_segment_header 7 999 1234567890) of
        Inr (sid, segment_id, ts) \<Rightarrow> sid = 7 \<and> segment_id = 999 \<and> ts = 1234567890 | _ \<Rightarrow> False)"

lemma command_test: "append_command_roundtrip_test"
  by (simp add: append_command_roundtrip_test_def decode_encode_command command_fits_def)

lemma record_tests:
  "test_record_roundtrip crc" "test_empty_payload crc"
  using decode_record_layout [of _ crc "[]"]
  by (simp_all add: test_record_roundtrip_def test_empty_payload_def encode_to_vec_layout record_fits_def)

text \<open>The corruption is found by any checksum that tells the two bodies apart.\<close>

lemma corruption_test:
  assumes "crc (body[6 := xor (body ! 6) 0xFF]) \<noteq> crc body"
    and "body = record_body \<lparr>wr_stream_id = 1, wr_epoch = 1, wr_entry_id = 1, wr_stream_lsn = 1, wr_timestamp_ns = 0,
      wr_payload = [118]\<rparr>"
  shows "test_record_crc_corruption crc"
proof -
  let ?r = "\<lparr>wr_stream_id = 1, wr_epoch = 1, wr_entry_id = 1, wr_stream_lsn = 1, wr_timestamp_ns = 0, wr_payload = [118]\<rparr>"
  let ?x = "xor (body ! 6) 0xFF"
  have "record_fits ?r" by (simp add: record_fits_def)
  from record_body_fields [OF this] obtain bl where bl: "unat bl = 41" and body: "body = be32 bl @
      be64 1 @ be64 1 @ be64 1 @ be64 1 @ be64 0 @ [118]" unfolding assms(2) by auto
  let ?rest = "be64 1 @ be64 1 @ be64 1 @ be64 1 @ be64 0 @ [118]"
  have upd: "body[6 := ?x] = be32 bl @ ?rest[2 := ?x]" unfolding body by (simp add: list_update_append)
  have "length (?rest[2 := ?x]) = 41" by simp
  then have "decode_record crc (be32 (crc body) @ be32 bl @ ?rest[2 := ?x]) = Inl (Err (CrcMismatch (crc body) (crc (body[6 := ?x]))))"
    using assms(1) bl unfolding upd by (simp add: decode_record_def RECORD_HEADER_SIZE_def byte_simps Let_def del: length_list_update list_update.simps)
  moreover have "(record_layout crc ?r)[10 := xor (record_layout crc ?r ! 10) 0xFF] = be32 (crc body) @ be32 bl @ ?rest[2 := ?x]"
    unfolding upd [symmetric] record_layout_def assms(2) [symmetric] by (simp add: list_update_append nth_append)
  ultimately show ?thesis by (simp add: test_record_crc_corruption_def encode_to_vec_layout)
qed

lemma segment_tests: "test_segment_filename" "test_parse_segment_filename" "test_header_roundtrip"
proof -
  show "test_segment_filename" by code_simp
  then show "test_parse_segment_filename"
    using parse_segment_filename_roundtrip [of 3 1024]
    by (simp add: test_parse_segment_filename_def test_segment_filename_def)
  show "test_header_roundtrip" by (simp add: test_header_roundtrip_def)
qed

subsection \<open>Stream table\<close>

definition allocates_monotonic_stream_lsns :: bool where
  "allocates_monotonic_stream_lsns =
     (case allocate_append 9 3 (table_new 2) of
        (Inr lsn0, t) \<Rightarrow> (case allocate_append 9 3 t of (Inr lsn1, _) \<Rightarrow> lsn0 = 0 \<and> lsn1 = 1 | _ \<Rightarrow> False)
      | _ \<Rightarrow> False)"

definition recovery_rebuilds_committed_stream_position :: bool where
  "recovery_rebuilds_committed_stream_position =
     (let t = observe_recovered 7 3 11 4 [111, 110, 101] (table_new 2);
          t = observe_recovered 7 3 12 5 [116, 119, 111] t in
      case stream_status 7 t of
        Some status \<Rightarrow> ss_max_epoch status = 3 \<and> ss_next_stream_lsn status = 6 \<and>
          ss_commit_stream_lsn status = 6 \<and> ss_last_entry_id status = 12
      | None \<Rightarrow> False)"

definition rejects_stale_epochs :: bool where
  "rejects_stale_epochs =
     (case allocate_append 1 9 (table_new 2) of
        (Inr _, t) \<Rightarrow> fst (allocate_append 1 8 t) = Inl (Stale 9 8)
      | _ \<Rightarrow> False)"

definition snapshot_roundtrip_test :: bool where
  "snapshot_roundtrip_test =
     (let t = observe_recovered 7 3 11 4 [111, 110, 101] (table_new 2);
          t = snd (advance_consumed 7 3 t) in
      case decode_snapshot 2 (encode_snapshot t) of
        Inr decoded \<Rightarrow>
          (case stream_status 7 decoded of
             Some status \<Rightarrow> ss_max_epoch status = 3 \<and> ss_next_stream_lsn status = 5 \<and>
               ss_consumed_stream_lsn status = 3 \<and> ss_last_entry_id status = 11
           | None \<Rightarrow> False)
      | _ \<Rightarrow> False)"

lemma stream_state_tests:
  "allocates_monotonic_stream_lsns" "recovery_rebuilds_committed_stream_position"
  "rejects_stale_epochs" "snapshot_roundtrip_test"
proof -
  note table = table_new_def allocate_append_def observe_recovered_def advance_consumed_def ensure_stream_def
    replica_new_def put_stream_def hm_get_def hm_insert_def stream_status_def status_of_def Let_def
  show "allocates_monotonic_stream_lsns" by (simp add: allocates_monotonic_stream_lsns_def table)
  show "recovery_rebuilds_committed_stream_position" by (simp add: recovery_rebuilds_committed_stream_position_def table)
  show "rejects_stale_epochs" by (simp add: rejects_stale_epochs_def table)
  let ?t = "snd (advance_consumed 7 3 (observe_recovered 7 3 11 4 [111, 110, 101] (table_new 2)))"
  let ?s = "\<lparr>ss_stream_id = 7, ss_max_epoch = 3, ss_next_stream_lsn = 5, ss_commit_stream_lsn = 5,
    ss_consumed_stream_lsn = 3, ss_last_entry_id = 11\<rparr>"
  have "encode_snapshot ?t = be32 1 @ concat (map encode_status [?s])"
    by (simp add: encode_snapshot_def all_statuses_def hm_values_def table)
  then have "decode_snapshot 2 (encode_snapshot ?t) = Inr \<lparr>st_streams = [(7, restored ?s)], st_tail_cache_limit = 2\<rparr>"
    by (simp add: decode_snapshot_def encode_status_def byte_simps restored_def hm_insert_def Let_def)
  then show "snapshot_roundtrip_test"
    by (simp add: snapshot_roundtrip_test_def stream_status_def hm_get_def)
qed

subsection \<open>Topology, placement and routing\<close>

definition test_parse_cpulist_range :: bool where
  "test_parse_cpulist_range = (parse_cpulist ''0-3'' = [0, 1, 2, 3])"

definition test_parse_cpulist_mixed :: bool where
  "test_parse_cpulist_mixed = (parse_cpulist ''0-2,5,7-9'' = [0, 1, 2, 5, 7, 8, 9])"

definition test_parse_cpulist_single :: bool where
  "test_parse_cpulist_single = (parse_cpulist ''3'' = [3])"

text \<open>The argument is the number of CPUs that the system reports, if it does.\<close>

definition test_single_node_fallback :: "nat option \<Rightarrow> bool" where
  "test_single_node_fallback cpus =
     (let nodes = single_node_fallback cpus in length nodes = 1 \<and> nn_cpu_ids (nodes ! 0) \<noteq> [])"

definition test_placement_single_node :: bool where
  "test_placement_single_node =
     (case compute_placement [\<lparr>nn_node_id = 0, nn_cpu_ids = [0, 1, 2, 3]\<rparr>] None of
        Inr placement \<Rightarrow> sp_acceptor_cpus placement = [0] \<and> length (sp_shard_assignments placement) = 3 \<and>
          map sa_cpu_id (sp_shard_assignments placement) = [1, 2, 3]
      | _ \<Rightarrow> False)"

definition test_placement_multi_numa :: bool where
  "test_placement_multi_numa =
     (case compute_placement [\<lparr>nn_node_id = 0, nn_cpu_ids = [0, 1, 2, 3]\<rparr>,
            \<lparr>nn_node_id = 1, nn_cpu_ids = [4, 5, 6, 7]\<rparr>] None of
        Inr placement \<Rightarrow> sp_acceptor_cpus placement = [0, 4] \<and> length (sp_shard_assignments placement) = 6
      | _ \<Rightarrow> False)"

definition test_placement_with_limit :: bool where
  "test_placement_with_limit =
     (case compute_placement [\<lparr>nn_node_id = 0, nn_cpu_ids = [0, 1, 2, 3, 4, 5, 6, 7]\<rparr>] (Some 3) of
        Inr placement \<Rightarrow> length (sp_shard_assignments placement) = 3 | _ \<Rightarrow> False)"

definition test_route_deterministic :: "(bytes \<Rightarrow> u64) \<Rightarrow> bool" where
  "test_route_deterministic xxh3 =
     (case (route_stream xxh3 (router_new 4) 42, route_stream xxh3 (router_new 4) 42) of
        (Some shard1, Some shard2) \<Rightarrow> shard1 = shard2 \<and> shard1 < 4
      | _ \<Rightarrow> False)"

lemma topology_tests:
  "test_parse_cpulist_range" "test_parse_cpulist_mixed" "test_parse_cpulist_single"
  "test_placement_single_node" "test_placement_multi_numa" "test_placement_with_limit"
proof -
  have shown: "show_cpulist [(0, 3)] = ''0-3''" "show_cpulist [(0, 2), (5, 5), (7, 9)] = ''0-2,5,7-9''"
    "show_cpulist [(3, 3)] = ''3''" by code_simp+
  show "test_parse_cpulist_range"
    using parse_shown_cpulist [of "[(0, 3)]", unfolded shown] by (simp add: test_parse_cpulist_range_def upt_rec)
  show "test_parse_cpulist_mixed"
    using parse_shown_cpulist [of "[(0, 2), (5, 5), (7, 9)]", unfolded shown] by (simp add: test_parse_cpulist_mixed_def upt_rec)
  show "test_parse_cpulist_single"
    using parse_shown_cpulist [of "[(3, 3)]", unfolded shown] by (simp add: test_parse_cpulist_single_def upt_rec)
  show "test_placement_single_node" "test_placement_multi_numa" "test_placement_with_limit"
    by (simp_all add: test_placement_single_node_def test_placement_multi_numa_def test_placement_with_limit_def
        compute_placement_def assign_def numeral_eq_Suc Let_def)
qed

lemma routing_test: "test_route_deterministic xxh3"
proof -
  obtain i where i: "route_stream xxh3 (router_new 4) 42 = Some i"
    by (cases "route_stream xxh3 (router_new 4) 42") (simp_all add: route_stream_panics_iff router_new_def)
  from route_stream_in_range [OF i] have "i < 4" by (simp add: router_new_def word_less_nat_alt)
  with i show ?thesis by (simp add: test_route_deterministic_def)
qed

lemma fallback_test: "cpus \<noteq> Some 0 \<Longrightarrow> test_single_node_fallback cpus"
  by (auto simp: test_single_node_fallback_def single_node_fallback_def Let_def split: option.splits)

subsection \<open>Raft storage\<close>

definition persists_hardstate_entries_and_snapshot :: "'c proto \<Rightarrow> 'c \<Rightarrow> disk \<Rightarrow> bool" where
  "persists_hardstate_entries_and_snapshot p conf d =
     (let hs = \<lparr>hs_term = 4, hs_vote = 0, hs_commit = 2\<rparr>;
          e1 = \<lparr>en_type = EntryNormal, en_term = 1, en_index = 1, en_data = [], en_context = []\<rparr>;
          e2 = \<lparr>en_type = EntryNormal, en_term = 4, en_index = 2, en_data = [], en_context = []\<rparr> in
      case storage_open p conf d of
        (Inl _, _) \<Rightarrow> False
      | (Inr st, d) \<Rightarrow>
     (case and_then (set_hardstate p hs (st, d)) (\<lambda>_ s.
           and_then (storage_append p [e1, e2] s) (\<lambda>_ s.
           and_then (create_snapshot p 2 [104, 101, 108, 108, 111] s) (\<lambda>_ s.
           compact p 3 s))) of
        (Inl _, _) \<Rightarrow> False
      | (Inr _, _, d) \<Rightarrow>
     (case storage_open p conf d of
        (Inl _, _) \<Rightarrow> False
      | (Inr reopened, _) \<Rightarrow> hs_term (ps_hard_state reopened) = 4 \<and> snap_index reopened = 2 \<and>
          first_index reopened = 3)))"

lemma persist_saved:
  assumes "proto_ok p" and "state_writable p st" and "length (ps_entries st) < 2 ^ 32"
    and "disk_ok d" and "dk_faults d = []"
  shows "\<exists>d'. persist p st d = (Inr (), d') \<and> state_saved p st d' \<and> disk_ok d' \<and> dk_faults d' = []"
proof -
  from assms(2) obtain buf where "encode_state p st = Inr buf" using encode_state_writes by blast
  from persist_calm [OF this assms(5)] obtain d' where d': "persist p st d = (Inr (), d')" "dk_faults d' = []" by blast
  with persist_atomic [OF assms(1,3,4) d'(1)] show ?thesis by auto
qed

lemma storage_test:
  assumes p: "proto_ok p" "\<And>st. state_writable p st" and d: "disk_ok d" "dk_faults d = []" "disk_file d STATE_FILE = None"
  shows "persists_hardstate_entries_and_snapshot p conf d"
proof -
  note saved = persist_saved [OF p]
  let ?hs = "\<lparr>hs_term = 4, hs_vote = 0, hs_commit = 2\<rparr>"
  let ?e1 = "\<lparr>en_type = EntryNormal, en_term = 1, en_index = 1, en_data = [], en_context = []\<rparr>"
  let ?e2 = "\<lparr>en_type = EntryNormal, en_term = 4, en_index = 2, en_data = [], en_context = []\<rparr>"
  let ?st0 = "bootstrap_state conf"
  let ?st1 = "?st0\<lparr>ps_hard_state := ?hs\<rparr>"
  let ?st2 = "?st1\<lparr>ps_entries := [?e1, ?e2]\<rparr>"
  let ?st3 = "?st2\<lparr>ps_snapshot := \<lparr>sn_data = [104, 101, 108, 108, 111], sn_metadata =
    \<lparr>sm_conf_state = conf, sm_index = 2, sm_term = 4\<rparr>\<rparr>\<rparr>"
  let ?st4 = "?st3\<lparr>ps_entries := []\<rparr>"
  let ?d = "d\<lparr>dk_exists := True\<rparr>"
  note boot = bootstrap_state_def first_index_def last_index_def snap_index_def
  from saved [of ?st0 ?d] obtain d0 where d0: "persist p ?st0 ?d = (Inr (), d0)" "disk_ok d0" "dk_faults d0 = []"
    using d(1,2) by (auto simp: bootstrap_state_def disk_ok_def)
  from d have "storage_open p conf d = (Inr ?st0, d0)"
    by (simp add: storage_open_def io_create_dir_all_def io_guard_def next_outcome_def disk_file_def d0(1))
  moreover from saved [of ?st1, OF _ d0(2,3)] obtain d1 where
    d1: "persist p ?st1 d0 = (Inr (), d1)" "disk_ok d1" "dk_faults d1 = []" by (auto simp: bootstrap_state_def)
  moreover from saved [of ?st2, OF _ d1(2,3)] obtain d2 where
    d2: "persist p ?st2 d1 = (Inr (), d2)" "disk_ok d2" "dk_faults d2 = []" by auto
  moreover have "storage_append p [?e1, ?e2] (?st1, d1) = (Inr (), ?st2, d2)"
    using d2(1) by (simp add: storage_append_def boot Let_def)
  moreover from saved [of ?st3, OF _ d2(2,3)] obtain d3 where
    d3: "persist p ?st3 d2 = (Inr (), d3)" "disk_ok d3" "dk_faults d3 = []" by auto
  moreover have "raft_term ?st2 2 = Inr 4" by (simp add: raft_term_def boot saturating_sub_def Let_def)
  moreover from saved [of ?st4, OF _ d3(2,3)] obtain d4 where
    d4: "persist p ?st4 d3 = (Inr (), d4)" "state_saved p ?st4 d4" "dk_faults d4 = []" by auto
  moreover have "compact p 3 (?st3, d3) = (Inr (), ?st4, d4)"
    using d4(1) by (simp add: compact_def boot not_le word_less_nat_alt Let_def)
  moreover from storage_open_saved [OF d4(2,3), of conf] obtain d5 where "storage_open p conf d4 = (Inr ?st4, d5)" by blast
  moreover have "snap_index ?st4 = 2" "first_index ?st4 = 3" "hs_term (ps_hard_state ?st4) = 4" by (simp_all add: boot)
  ultimately show ?thesis
    by (simp add: persists_hardstate_entries_and_snapshot_def set_hardstate_def create_snapshot_def Let_def bootstrap_state_def)
qed

subsection \<open>WAL writer\<close>

definition recovers_index_and_stream_state_from_segments :: "(bytes \<Rightarrow> u32) \<Rightarrow> (u64 \<Rightarrow> u64) \<Rightarrow> bool" where
  "recovers_index_and_stream_state_from_segments crc clock =
     (case writer_open crc (clock 0) 1 1024 8 None 0 fresh_dir of
        (Inl _, _) \<Rightarrow> False
      | (Inr (writer, _, streams), d) \<Rightarrow>
     (case writer_append crc (clock 1) (clock 1) 42 3 0 [111, 110, 101] (writer, d) of
        (Inl _, _) \<Rightarrow> False
      | (Inr (entry0, loc0), writer, d) \<Rightarrow>
          let streams = mark_appended 42 3 entry0 0 [111, 110, 101] streams in
     (case writer_append crc (clock 2) (clock 2) 42 3 1 [116, 119, 111] (writer, d) of
        (Inl _, _) \<Rightarrow> False
      | (Inr (entry1, _), writer, d) \<Rightarrow>
          let streams = mark_appended 42 3 entry1 1 [116, 119, 111] streams in
     (case writer_sync writer d of
        (Inl _, _) \<Rightarrow> False
      | (Inr _, d) \<Rightarrow>
          entry0 = 0 \<and> loc_segment_id loc0 = 0 \<and> ww_current_segment_id writer = 0 \<and>
     (case writer_open crc (clock 3) 1 1024 8 None 0 d of
        (Inl _, _) \<Rightarrow> False
      | (Inr (_, index, streams), d) \<Rightarrow>
          index_stream_len index 42 = 2 \<and> table_len streams = 1 \<and>
     (case read_record crc 42 1 index (reader_new 1, d) of
        (Inr r, _) \<Rightarrow> wr_stream_id r = 42 \<and> wr_epoch r = 3 \<and> wr_entry_id r = 1 \<and> wr_stream_lsn r = 1 \<and>
          wr_payload r = [116, 119, 111]
      | _ \<Rightarrow> False))))))"

lemma writer_test: "recovers_index_and_stream_state_from_segments crc clock"
proof -
  let ?x = "\<lambda>now lsn value. \<lparr>lw_now = now, lw_seg_now = now, lw_stream_id = 42, lw_epoch = 3,
    lw_stream_lsn = lsn, lw_entry_id = lsn, lw_payload = value\<rparr>"
  let ?one = "?x (clock 1) 0 [111, 110, 101]" and ?two = "?x (clock 2) 1 [116, 119, 111]"
  from writer_open_fresh [of crc "clock 0" 1 1024 8] obtain w0 d0 where
    o: "writer_open crc (clock 0) 1 1024 8 None 0 fresh_dir = (Inr (w0, index_new, table_new 8), d0)" and
    at0: "writer_at crc [new_segment 0 (clock 0)] (w0, d0)" "dk_faults d0 = []" and
    w0: "w0 = \<lparr>ww_shard_id = 1, ww_current_file = segment_filename 1 0, ww_current_segment_id = 0,
      ww_current_offset = of_nat SEGMENT_HEADER_SIZE, ww_next_entry_id = 0, ww_next_segment_id = 1,
      ww_max_segment_bytes = 1024\<rparr>" by blast
  have app: "writer_append crc (clock 1) (clock 1) 42 3 0 [111, 110, 101] (w, d) = append_write crc ?one (w, d)"
    if "ww_next_entry_id w = 0" for w d
    using that by (simp add: writer_append_def append_write_def append_with_log_index_def Let_def split: option.split)
  have app': "writer_append crc (clock 2) (clock 2) 42 3 1 [116, 119, 111] (w, d) = append_write crc ?two (w, d)"
    if "ww_next_entry_id w = 1" for w d
    using that by (simp add: writer_append_def append_write_def append_with_log_index_def max_def Let_def split: option.split)
  have fits: "lw_fits ?one" "lw_fits ?two" by (simp_all add: lw_fits_def)
  have sizes0: "sizes_ok crc (ww_shard_id w0) [new_segment 0 (clock 0)] w0"
    by (simp add: sizes_ok_def addressable_def w0)
  from append_write_calm [OF at0(1) _ at0(2), of ?one] obtain w1 d1 where
    a1: "append_write crc ?one (w0, d0) = (Inr (0, located ?one w0), w1, d1)" "dk_faults d1 = []" by (auto simp: w0)
  have w1: "w1 = advanced ?one w0"
    using a1(1) by (simp add: append_write_Inr advanced_def w0 SEGMENT_HEADER_SIZE_def lw_record_def encoded_size_def
        RECORD_HEADER_SIZE_def)
  from append_write_sizes [OF at0(1) _ fits(1) _ sizes0 a1(1)] obtain segs1 where
    s1: "appended crc ?one (located ?one w0) [new_segment 0 (clock 0)] w0 segs1 (w1, d1)" "sizes_ok crc (ww_shard_id w0) segs1 w1"
    by (auto simp: w0)
  then have at1: "writer_at crc segs1 (w1, d1)" "sg_tail (last segs1) = []" by (simp_all add: appended_def)
  have "ww_next_segment_id w1 \<noteq> 0" "ww_next_entry_id w1 = 1" "ww_shard_id w1 = ww_shard_id w0"
    by (simp_all add: w1 advanced_def w0)
  from append_write_calm [OF at1(1) this(1) a1(2), of ?two] obtain w2 d2 where
    a2: "append_write crc ?two (w1, d1) = (Inr (1, located ?two w1), w2, d2)" "dk_faults d2 = []" by auto
  have w2: "ww_current_segment_id w2 = 0"
    using a2(1) by (auto simp: append_write_Inr advanced_def w1 w0 SEGMENT_HEADER_SIZE_def lw_record_def encoded_size_def
        RECORD_HEADER_SIZE_def)
  have nz1: "ww_next_segment_id w1 \<noteq> 0" and nxt: "ww_next_entry_id w0 = 0" "ww_next_entry_id w1 = 1"
    and sh: "ww_shard_id w0 = 1" "ww_shard_id w1 = 1" by (simp_all add: w1 advanced_def w0)
  from append_write_sizes [OF at1(1,2) fits(2) nz1 _ a2(1) [simplified]] s1(2) obtain segs2 where
    s2: "appended crc ?two (located ?two w1) segs1 w1 segs2 (w2, d2)" "sizes_ok crc 1 segs2 w2"
    by (auto simp: sh)
  have at2: "writer_at crc segs2 (w2, d2)" and log: "wal_log segs2 =
      [(located ?one w0, lw_record ?one), (located ?two w1, lw_record ?two)]"
    and st: "stores crc 1 segs2 d2" "segs2 \<noteq> []" and addr: "\<forall>s \<in> set segs2. addressable crc 1 s"
    using s1(1) s2 by (auto simp: appended_def wal_log_def writer_at_def sizes_ok_def sh)
  from writer_sync_calm [OF a2(2)] obtain d3 where
    sync: "writer_sync w2 d2 = (Inr (), d3)" "same_files d2 d3" "dk_faults d3 = []" by blast
  note st = stores_same [OF sync(2) st(1)] st(2)
  define rs where "rs = replay_log 0 (wal_log segs2) (replay_init (recovered_from 8 None))"
  from writer_open_stores(2) [OF st rs_def sync(3)] have
    re: "writer_open crc (clock 3) 1 1024 8 None 0 d3 = (Inr (opened crc 1 1024 (last segs2) rs, rp_index rs, rp_streams rs), d3)" .
  have rs: "index_stream_len (rp_index rs) 42 = 2" "table_len (rp_streams rs) = 1"
    "index_lookup (rp_index rs) 42 1 = Some (located ?two w1)"
    by (simp_all add: rs_def log replay_log_def replay_init_def recovered_from_def replay_record_def lw_record_def
        table_len_def table_new_def observe_recovered_def put_stream_def hm_insert_def index_stream_len_def index_insert_def
        index_new_def index_stream_def index_lookup_def hm_get_def bt_get_def Let_def)
  have "wrd_shard_id (reader_new 1) = 1" "reader_ok (reader_new 1)" by (simp_all add: reader_new_def reader_ok_def)
  moreover have "(located ?two w1, lw_record ?two) \<in> set (wal_log segs2)" by (simp add: log)
  ultimately obtain rd where
    read: "read_record crc 42 1 (rp_index rs) (reader_new 1, d3) = (Inr (lw_record ?two), rd, d3)"
    using read_record_stores [of crc "reader_new 1" segs2 d3] st(1) sync(3) addr rs(3) by metis
  have "loc_segment_id (located ?one w0) = 0" by (simp add: located_def w0)
  then show ?thesis
    by (simp add: sync(1) recovers_index_and_stream_state_from_segments_def o app [OF nxt(1)] app' [OF nxt(2)] a1(1) a2(1) re rs read w2)
      (simp add: lw_record_def)
qed

end
