(* ===== verification/Spec2Isabelle.thy ===== *)
theory Spec2Isabelle
  imports Prelude Containers Framing Config Protocol Command WalRecord Disk Segment WalIndex
    StreamState Writer WalLog Recovery Crash Reader RaftStorage RaftLog Engine EngineInv EngineProgress
    EngineReads EngineOpen EngineWrites EngineGaps EngineDurable EnginePower Batcher Router RaftFrames Peer
    PeerPath
    Acceptor AcceptorTotal Topology Placement Wakeup Server Client EngineAnswers EngineLive Node
    WalBench BenchClient UnitTests
begin

text \<open>
  A verification development for the replicated write-ahead-log server (\<open>wal_server\<close>, Rust;
  the paths below are relative to \<open>src/src/\<close>).

  THE PROGRAM. A node runs one thread per shard, one acceptor thread and one peer thread, which
  talk through bounded channels. A client sends framed requests; the acceptor hashes the stream
  id to a shard and relays the request. A shard is a raft group: on the leader, a write gets the
  next LSN of its stream, unless the stream's epoch fence refuses it, and is proposed to raft
  as a command. What raft commits is appended to segment files, synced, entered in an index
  from (stream, LSN) to a file position and in a table of stream positions with a cache of
  recent records, and the waiting client is answered. Reads go to the cache or through the
  index to the files; an acknowledgement moves the consumption watermark, and a timer drops the
  index entries below the watermarks and the segment files that no index entry needs. Every
  64 applied entries the stream table becomes the raft snapshot and the raft log is cut.
  Opening a shard decodes that table and replays the segment files on top of it.

  THE MODEL. One theory per component, executable definitions with the names of the source:
    Prelude          words, bytes, big-endian conversion, slices, errors as values, panics
    Containers       HashMap and BTreeMap, the locales kv_map and kv_map_del with their
                     interpretations
    Framing          the receive loops shared by net/acceptor.rs and net/peer.rs; the locales
                     record_format and frame_codec for codecs that survive chunking and tearing
    Config           config.rs and the command line of main.rs
    Protocol         protocol/{types,wire,codec}.rs, the client's receive path
    Command          raft/command.rs
    WalRecord        wal/record.rs;  Segment  wal/segment.rs;  WalIndex  wal/index.rs
    Disk             a directory with positioned I/O; each call may fail, a write after any byte;
                     dk_synced is the part of each file that was synced, and power_loss relates a
                     disk to what a power failure may leave of it
    StreamState      shard/stream_state.rs
    Writer, Reader   wal/writer.rs, wal/reader.rs
    RaftStorage      raft/storage.rs
    Engine           shard/engine.rs; its state is the record engine, one definition per method,
                     run_round is one turn of the loop in run, engine_open is open
    Batcher, Router  shard/batch.rs, shard/router.rs
    RaftFrames, Peer channel/mod.rs, net/peer.rs
    PeerPath         net/peer.rs from the channels of the shards to the target: link_reaches is
                     any interleaving of shards, router and senders with breaking connections;
                     what arrives is any interleaving of the receive loops of the connections
    Acceptor         net/acceptor.rs: the tasks of the acceptor thread; a step is what runs
                     between two awaits, acceptor_reaches is any interleaving of them
    Topology, Placement   numa/detection.rs, numa/placement.rs
    Wakeup           the eventfds of channel/mod.rs and the wait in shard/engine.rs: a channel
                     with its eventfd, sender and receiver in any interleaving
    Server           server.rs with the mailboxes of channel/mod.rs and the end of main.rs: what
                     is created, which threads run on which CPU, and the joins
    Node             the acceptor thread and the shard threads with the channels between them:
                     node_reaches is any interleaving of acceptor steps and shard rounds
    UnitTests        the unit tests of the source files, run on the model
    Client, WalBench, BenchClient   bin/wal_client.rs, bin/wal_bench.rs, bin/cluster_bench.rs
  A record of the source is a record, an enum a datatype, a u64/u32/u16/u8 a word of that width
  whose additions wrap (as in a release build), a usize a natural number. An I/O error, a
  decoding error and a panic are values (\<open>Inl (Err e)\<close>, \<open>Inl Panic\<close>). A HashMap is an association
  list in any order, so that what is proved holds for every iteration order. The state after an
  error is kept: a theorem about a step covers its failing branches, too.

  THE LEMMAS.
    WalLog, Recovery    the segment files stand for a log (a list of located records): opening
      is a fold over it, an append behind whole records adds one record whatever rotation
      does; where the code breaks this promise (a record behind a torn tail, a segment without a
      header) a theorem says so. Crash: an append that is interrupted at any of its calls, by
      the end of the process or by a power failure, loses no record of an earlier batch that
      was synced. Reader: each record of the log is read back through the index that opening
      built.
    RaftLog             the raft entries are contiguous, the operations do on them what the
      library expects, no read panics, and the file is a faithful copy, replaced by a rename, so
      that the end of the process at any call leaves the old or the new state. It is not
      synced: a power failure may take it (EngineDurable).
    EngineInv           engine_ok: writer, files, index, stream table, caches and open files all
      describe one list of applied commands. Every method keeps it. EngineReads lifts this to
      any number of rounds and shows what reads answer and what garbage collection keeps;
      EngineOpen that opening establishes it and that a restart keeps what was readable;
      EngineProgress that committed writes are answered, over a snapshot that is due, too, and
      which of the answers the response channel takes;
      EngineLive that the main loop goes on for ever on disks that answer; EngineAnswers that
      every request is answered once or waits; EngineWrites the fence, the positions
      and the loss of leadership over any number of rounds; EngineDurable that a node writes its
      raft state before it speaks, and does not sync it; EnginePower that the records a shard
      has indexed survive a power failure between two applies; EngineGaps the runs in which the engine tells a client something
      untrue or loses committed data.
    Framing, Protocol, RaftFrames, Peer   what was sent is what is handled, whatever the chunks;
      the decoders accept exactly what the encoders produce; the loops end.
    PeerPath            raft messages may be lost, but are not doubled, altered or misrouted, and
      those of one connection keep their order; a later connection can overtake an earlier one.
    Acceptor, Server    requests are relayed once and in order, responses reach their
      connection, the channels are connected to the right engines; the panics that can happen.
    AcceptorTotal, Node   the acceptor's steps are defined for every event; over a whole node a
      connection gets at most one answer per request, and exactly one once the node is at rest;
      and what a stopped shard leaves behind.
    Wakeup              after a notification the receiver's next turn empties the channel.
    WalBench, BenchClient   what the recovery benchmark finds; when the cluster benchmark ends.
    StreamState, Topology, Placement, Batcher, Client   round trips of the snapshot and of CPU
      lists, no CPU is used twice, no write is lost or doubled in a batch, a client's session.

  PARAMETERS, for code outside the repository, with the documented behaviour as hypotheses of
  the theorems that need it: the checksum crc32fast (no hypothesis), the hash xxh3 (none), the
  protobuf writers and parsers (proto_ok: a written message parses back; instantiated in the
  witnesses), the consensus library (raft_api: propose, step, tick, ready, advance, ...; the safety
  properties assume no more of it than that a ready step hands out at most n entries, each of
  which fits a record, api_bounded; the liveness property main_loop_keeps_running assumes
  raft_contract: what ready hands out continues the log and decodes, or is a snapshot of the
  leader; a leader takes proposals; ticks, campaigns and the messages that arrive are accepted;
  of proposals to a follower or a candidate nothing is assumed), the TOML and command line parsers, the system directory of the
  CPUs, the clock, and the outcome of every send on a channel, connection attempt and write.

  BOUNDS. No recursion needs fuel except drain_frames, a partial_function whose termination for
  the real decoders is a theorem (a frame that decodes consumes a byte). Segment ids are 64-bit
  and increase with each rotation: the properties about k rounds assume that the next id plus
  k * n stays below 2^64 (a round rotates at most once per entry). Connection ids likewise: the
  properties about an interleaving assume fewer than 2^64 accepts. A record is below 4 GiB, as
  its length field is 32 bits wide. Request ids are 64-bit and count the writes of a process: the
  properties about answers assume fewer than 2^64 requests.

  WHAT SURVIVES. The end of a process leaves the files as its calls left them. A power failure may
  take every byte that was not synced: of a file some front part is left, at least what was
  synced of it, and a file that was never synced since it was created or renamed may be gone.
  Two things are taken for granted: the bytes of a file reach the disk in their order, and the
  name of a synced file is there. The program never syncs a directory, so on a file system
  that needs this a new segment can be missing, which the model does not show.

  NOT MODELLED. Runtimes and sockets belong to the operating system and to monoio: what a socket
  delivers and accepts comes in as events or arguments. The eventfd is a parameter with its
  documented behaviour. A read that is cancelled by the acceptor's timeout is taken to lose no
  bytes. The threads of a node share nothing but channels; Node composes acceptor and shards, and
  the peer transport (PeerPath, from the channels of the shards to the channels of the target)
  appears there as the raft messages that arrive in a round. The eventfds are closed when a
  mailbox is dropped at the end of start, which no thread outlives. A file that is open is known
  by its name. Paths, file contents of the CPU lists and the arguments are ASCII. Logging, timing
  and the contents of error messages are left out. metrics/mod.rs is an empty placeholder. The
  test that starts processes (tests/raft_cluster.rs) and the one that counts hash values are not
  modelled. Agreement between nodes is the consensus library's and is not stated
  here.
\<close>

end
